(* ===== verification/Prelude.thy ===== *)
theory Prelude
  imports Main "HOL-Library.Word" "HOL-Library.AList" "HOL-Library.Signed_Division"
begin

text \<open>
  What the component theories share: the machine integers of the Go source and their
  byte-order codecs, Go's panics and slice expressions as values, instants and durations,
  Go maps as association lists, and the list and word lemmas the components use.
\<close>

unbundle bit_operations_syntax

section \<open>Machine integers\<close>

type_synonym byte = "8 word"
type_synonym u8 = "8 word"
type_synonym u16 = "16 word"
type_synonym u32 = "32 word"
type_synonym u64 = "64 word"

text \<open>
  Collections: \<open>codec_simps\<close> holds the byte-order round trips and the lengths of encoded
  fields; \<open>go_simps\<close> holds the unfolding of Go's run-time helpers.
\<close>

named_theorems codec_simps \<open>byte-order round trips and lengths of encoded fields\<close>
named_theorems go_simps \<open>unfolding of the Go run-time helpers\<close>

section \<open>Panics and slice expressions\<close>

text \<open>
  A Go call either returns a value or panics; an unrecovered panic on any goroutine ends
  the whole process. Code that cannot panic is a plain function.
\<close>

datatype 'a outcome = Ret 'a | Panic

primrec bind_outcome :: "'a outcome \<Rightarrow> ('a \<Rightarrow> 'b outcome) \<Rightarrow> 'b outcome" where
  "bind_outcome (Ret x) k = k x"
| "bind_outcome Panic k = Panic"

lemma bind_outcome_Ret_iff:
  "bind_outcome m k = Ret y \<longleftrightarrow> (\<exists>x. m = Ret x \<and> k x = Ret y)"
  by (cases m) auto

lemma bind_outcome_Panic_iff:
  "bind_outcome m k = Panic \<longleftrightarrow> m = Panic \<or> (\<exists>x. m = Ret x \<and> k x = Panic)"
  by (cases m) auto

text \<open>The slice expression \<open>b[lo:hi]\<close>: a panic unless \<open>lo \<le> hi \<le> len(b)\<close>.\<close>

definition go_slice :: "'a list \<Rightarrow> nat \<Rightarrow> nat \<Rightarrow> 'a list outcome" where
  "go_slice b lo hi = (if lo \<le> hi \<and> hi \<le> length b then Ret (take (hi - lo) (drop lo b)) else Panic)"

lemma go_slice_Panic_iff: "go_slice b lo hi = Panic \<longleftrightarrow> hi < lo \<or> length b < hi"
  by (auto simp: go_slice_def)

lemma length_go_slice: "go_slice b lo hi = Ret c \<Longrightarrow> length c = hi - lo"
  by (auto simp: go_slice_def split: if_splits)

text \<open>Running a step over a list, stopping at the first panic.\<close>

fun fold_outcome :: "('e \<Rightarrow> 's \<Rightarrow> 's outcome) \<Rightarrow> 'e list \<Rightarrow> 's \<Rightarrow> 's outcome" where
  "fold_outcome f [] s = Ret s"
| "fold_outcome f (e # es) s = bind_outcome (f e s) (fold_outcome f es)"

lemma fold_outcome_append:
  "fold_outcome f (xs @ ys) s = bind_outcome (fold_outcome f xs s) (fold_outcome f ys)"
proof (induction xs arbitrary: s)
  case Nil
  then show ?case by simp
next
  case (Cons x xs)
  then show ?case by (cases "f x s") simp_all
qed

text \<open>
  A predicate that a step keeps is kept by every run of the step. The components
  instantiate this with their own step functions.
\<close>

locale kept_by_step =
  fixes step :: "'e \<Rightarrow> 's \<Rightarrow> 's outcome"
    and ok :: "'s \<Rightarrow> bool"
  assumes step_keeps: "ok s \<Longrightarrow> step e s = Ret s' \<Longrightarrow> ok s'"
begin

lemma run_keeps: "ok s \<Longrightarrow> fold_outcome step es s = Ret s' \<Longrightarrow> ok s'"
  by (induction es arbitrary: s) (auto simp: bind_outcome_Ret_iff dest: step_keeps)

end

section \<open>Byte order\<close>

text \<open>
  \<open>encoding/binary\<close>'s \<open>LittleEndian\<close> and \<open>BigEndian\<close> \<open>PutUintN\<close> and \<open>UintN\<close>. The readers
  look at the first bytes of the list; every use in the model stands behind the length
  check of the source.
\<close>

definition le16 :: "u16 \<Rightarrow> byte list" where
  "le16 w = [ucast w, ucast (drop_bit 8 w)]"

definition le32 :: "u32 \<Rightarrow> byte list" where
  "le32 w = [ucast w, ucast (drop_bit 8 w), ucast (drop_bit 16 w), ucast (drop_bit 24 w)]"

definition be16 :: "u16 \<Rightarrow> byte list" where
  "be16 w = rev (le16 w)"

definition be32 :: "u32 \<Rightarrow> byte list" where
  "be32 w = rev (le32 w)"

definition leU16 :: "byte list \<Rightarrow> u16" where
  "leU16 b = ucast (b ! 0) OR push_bit 8 (ucast (b ! 1))"

definition leU32 :: "byte list \<Rightarrow> u32" where
  "leU32 b = ucast (b ! 0) OR push_bit 8 (ucast (b ! 1)) OR push_bit 16 (ucast (b ! 2))
     OR push_bit 24 (ucast (b ! 3))"

definition beU16 :: "byte list \<Rightarrow> u16" where
  "beU16 b = ucast (b ! 1) OR push_bit 8 (ucast (b ! 0))"

definition beU32 :: "byte list \<Rightarrow> u32" where
  "beU32 b = ucast (b ! 3) OR push_bit 8 (ucast (b ! 2)) OR push_bit 16 (ucast (b ! 1))
     OR push_bit 24 (ucast (b ! 0))"

lemma length_byteorder [codec_simps, simp]:
  "length (le16 a) = 2" "length (be16 a) = 2" "length (le32 c) = 4" "length (be32 c) = 4"
  by (simp_all add: le16_def be16_def le32_def be32_def)

lemma join2:
  "ucast (ucast (w :: u16) :: byte) OR push_bit 8 (ucast (ucast (drop_bit 8 w) :: byte)) = w"
  by (rule bit_word_eqI) (auto simp: bit_simps)

lemma join4:
  "ucast (ucast (w :: u32) :: byte) OR push_bit 8 (ucast (ucast (drop_bit 8 w) :: byte))
     OR push_bit 16 (ucast (ucast (drop_bit 16 w) :: byte))
     OR push_bit 24 (ucast (ucast (drop_bit 24 w) :: byte)) = w"
proof (rule bit_word_eqI)
  fix n
  assume "n < LENGTH(32)"
  then show "bit (ucast (ucast w :: byte) OR push_bit 8 (ucast (ucast (drop_bit 8 w) :: byte) :: u32)
     OR push_bit 16 (ucast (ucast (drop_bit 16 w) :: byte))
     OR push_bit 24 (ucast (ucast (drop_bit 24 w) :: byte))) n = bit w n"
    by (cases "n < 16"; cases "n < 24") (auto simp: bit_simps)
qed

lemma split2:
  fixes a b :: byte
  shows "ucast (ucast a OR push_bit 8 (ucast b) :: u16) = a"
    and "ucast (drop_bit 8 (ucast a OR push_bit 8 (ucast b) :: u16)) = b"
  by (rule bit_word_eqI; auto simp: bit_simps dest: bit_imp_le_length)+

lemma split4:
  fixes a b c d :: byte
  defines "w \<equiv> (ucast a OR push_bit 8 (ucast b) OR push_bit 16 (ucast c) OR push_bit 24 (ucast d) :: u32)"
  shows "ucast w = a" and "ucast (drop_bit 8 w) = b"
    and "ucast (drop_bit 16 w) = c" and "ucast (drop_bit 24 w) = d"
  unfolding w_def
  by (rule bit_word_eqI; auto simp: bit_simps dest: bit_imp_le_length)+

lemma leU16_le16 [codec_simps, simp]: "leU16 (le16 w @ rest) = w" "leU16 (le16 w) = w"
  by (simp_all add: leU16_def le16_def join2)

lemma beU16_be16 [codec_simps, simp]: "beU16 (be16 w @ rest) = w" "beU16 (be16 w) = w"
  by (simp_all add: beU16_def be16_def le16_def join2)

lemma leU32_le32 [codec_simps, simp]: "leU32 (le32 w @ rest) = w" "leU32 (le32 w) = w"
  by (simp_all add: leU32_def le32_def join4)

lemma beU32_be32 [codec_simps, simp]: "beU32 (be32 w @ rest) = w" "beU32 (be32 w) = w"
  by (simp_all add: beU32_def be32_def le32_def join4)

lemma list2_conv: "length b = 2 \<longleftrightarrow> (\<exists>x y. b = [x, y])"
  by (auto simp: eval_nat_numeral length_Suc_conv)

lemma list4_conv: "length b = 4 \<longleftrightarrow> (\<exists>x y z u. b = [x, y, z, u])"
  by (auto simp: eval_nat_numeral length_Suc_conv)

lemma le16_leU16 [codec_simps]: "length b = 2 \<Longrightarrow> le16 (leU16 b) = b"
  by (auto simp: list2_conv le16_def leU16_def split2 simp del: drop_bit_or)

lemma be16_beU16 [codec_simps]: "length b = 2 \<Longrightarrow> be16 (beU16 b) = b"
  by (auto simp: list2_conv be16_def le16_def beU16_def split2 simp del: drop_bit_or)

lemma le32_leU32 [codec_simps]: "length b = 4 \<Longrightarrow> le32 (leU32 b) = b"
  by (auto simp: list4_conv le32_def leU32_def split4 simp del: drop_bit_or)

lemma be32_beU32 [codec_simps]: "length b = 4 \<Longrightarrow> be32 (beU32 b) = b"
  by (auto simp: list4_conv be32_def le32_def beU32_def split4 simp del: drop_bit_or)

lemma le_put_get:
  "2 \<le> length b \<Longrightarrow> le16 (leU16 b) = take 2 b" "2 \<le> length b \<Longrightarrow> be16 (beU16 b) = take 2 b"
  "4 \<le> length b \<Longrightarrow> le32 (leU32 b) = take 4 b" "4 \<le> length b \<Longrightarrow> be32 (beU32 b) = take 4 b"
  using le16_leU16 [of "take 2 b"] be16_beU16 [of "take 2 b"]
    le32_leU32 [of "take 4 b"] be32_beU32 [of "take 4 b"]
  by (simp_all add: leU16_def leU32_def beU16_def beU32_def)

text \<open>Truncation of a 64-bit count to 32 bits is a homomorphism.\<close>

lemma ucast64_of [simp]: "(ucast (of_nat n :: u64) :: u32) = of_nat n"
  "(ucast (of_int i :: u64) :: u32) = of_int i"
  by (transfer, simp)+

lemma ucast64_add: "(ucast (a + b :: u64) :: u32) = ucast a + ucast b"
proof -
  have "(word_of_int (uint a + uint b) :: u32) = ucast a + ucast b"
    by simp
  moreover have "(ucast (word_of_int (uint a + uint b) :: u64) :: u32) = word_of_int (uint a + uint b)"
    by (rule ucast64_of)
  ultimately show ?thesis by simp
qed

section \<open>Instants and durations\<close>

text \<open>
  A \<open>time.Time\<close> is its distance in nanoseconds from the zero time (year 1), so the zero
  value is 0 and \<open>IsZero\<close> compares with it; a \<open>time.Duration\<close> is a signed 64-bit count of
  nanoseconds, and \<open>Sub\<close> saturates at the ends of that range. Wall clock and monotonic
  clock are one clock here.
\<close>

type_synonym instant = int
type_synonym duration = int

definition Millisecond :: duration where [go_simps]: "Millisecond = 1000000"
definition Second :: duration where [go_simps]: "Second = 1000000000"

definition IsZero :: "instant \<Rightarrow> bool" where [go_simps]: "IsZero t \<longleftrightarrow> t = 0"

definition timeSub :: "instant \<Rightarrow> instant \<Rightarrow> duration" where
  "timeSub t u = max (- (2 ^ 63)) (min (2 ^ 63 - 1) (t - u))"

lemma timeSub_ge_iff: "0 \<le> d \<Longrightarrow> d < 2 ^ 63 \<Longrightarrow> d \<le> timeSub t u \<longleftrightarrow> d \<le> t - u"
  by (auto simp: timeSub_def)

lemma timeSub_less_iff: "0 \<le> d \<Longrightarrow> d < 2 ^ 63 \<Longrightarrow> timeSub t u < d \<longleftrightarrow> t - u < d"
  by (auto simp: timeSub_def)

text \<open>Milliseconds between the zero time and the Unix epoch, for \<open>UnixMilli\<close>.\<close>

definition unixEpochMS :: int where "unixEpochMS = 62135596800000"

definition UnixMilli :: "instant \<Rightarrow> int" where
  "UnixMilli t = t div Millisecond - unixEpochMS"

definition timeUnixMilli :: "int \<Rightarrow> instant" where
  "timeUnixMilli ms = (ms + unixEpochMS) * Millisecond"

lemma UnixMilli_timeUnixMilli [simp]: "UnixMilli (timeUnixMilli ms) = ms"
  by (simp add: UnixMilli_def timeUnixMilli_def Millisecond_def)

section \<open>Go maps\<close>

text \<open>
  A Go map is an association list with distinct keys: \<open>map_of\<close> reads it, \<open>AList.update\<close>
  stores, \<open>AList.delete\<close> deletes and \<open>length\<close> is \<open>len\<close>. The order of the list stands for
  the order in which a \<open>range\<close> loop happens to visit the map.
\<close>

lemma distinct_keys_update [simp]:
  "distinct (map fst m) \<Longrightarrow> distinct (map fst (AList.update k v m))"
  by (rule distinct_update)

lemma distinct_keys_delete [simp]:
  "distinct (map fst m) \<Longrightarrow> distinct (map fst (AList.delete k m))"
  by (rule distinct_delete)

lemma lookup_update [simp]: "map_of (AList.update k v m) = (map_of m)(k \<mapsto> v)"
  by (rule update_conv')

lemma lookup_delete [simp]: "map_of (AList.delete k m) = (map_of m)(k := None)"
  by (rule delete_conv')

lemma keys_update [simp]: "fst ` set (AList.update k v m) = insert k (fst ` set m)"
  by (simp add: dom_update)

lemma keys_delete [simp]: "fst ` set (AList.delete k m) = fst ` set m - {k}"
  by (induction m) (auto simp: image_iff)

lemma lookup_None_iff: "map_of m k = None \<longleftrightarrow> k \<notin> fst ` set m"
  by (rule map_of_eq_None_iff)

lemma length_update_new: "k \<notin> fst ` set m \<Longrightarrow> length (AList.update k v m) = Suc (length m)"
  by (induction m) auto

lemma length_update_old: "k \<in> fst ` set m \<Longrightarrow> length (AList.update k v m) = length m"
  by (induction m) auto

lemma length_update_le: "length (AList.update k v m) \<le> Suc (length m)"
  by (induction m) auto

lemma length_delete_less: "map_of m k = Some v \<Longrightarrow> length (AList.delete k m) < length m"
  by (induction m) (auto split: if_splits simp: le_imp_less_Suc length_delete_le)

lemma length_delete_old:
  assumes "distinct (map fst m)" and "map_of m k = Some v"
  shows "Suc (length (AList.delete k m)) = length m"
proof -
  have k: "k \<in> set (map fst m)" using assms(2) by (metis lookup_None_iff option.distinct(1) set_map)
  have "length (AList.delete k m) = length (removeAll k (map fst m))"
    using arg_cong [OF delete_keys [of k m], of length] by simp
  also have "\<dots> = length (remove1 k (map fst m))"
    using assms(1) by (simp add: distinct_remove1_removeAll)
  finally show ?thesis
    using k length_pos_if_in_set [OF k] by (simp add: length_remove1)
qed

end
