(* ===== verification/Opcode.thy ===== *)
theory Opcode
  imports Prelude
begin

text \<open>
  \<open>icg/opcode.go\<close>: the packet types, the opcodes of each type, the name tables the log
  lines are made of, and the handshake state. Types and opcodes stay \<open>uint8\<close> values, as in
  the source, because every 8-bit value may arrive on the wire and the dispatchers have
  default branches for the ones without a name.
\<close>

section \<open>Packet types\<close>

definition TypeUDP :: u8 where [simp]: "TypeUDP = 0"
definition TypeICMP :: u8 where [simp]: "TypeICMP = 1"
definition TypeTCPDown :: u8 where [simp]: "TypeTCPDown = 2"
definition TypeHandshake :: u8 where [simp]: "TypeHandshake = 3"
definition TypeAck :: u8 where [simp]: "TypeAck = 4"
definition TypeTCPUp :: u8 where [simp]: "TypeTCPUp = 6"
definition TypeSeqSync :: u8 where [simp]: "TypeSeqSync = 7"

section \<open>Opcodes\<close>

definition HSKeepalive :: u8 where [simp]: "HSKeepalive = 0"
definition HSReqWithConfig :: u8 where [simp]: "HSReqWithConfig = 1"
definition HSConfirmAck :: u8 where [simp]: "HSConfirmAck = 2"
definition HSServerAck :: u8 where [simp]: "HSServerAck = 3"
definition HSReserved :: u8 where [simp]: "HSReserved = 4"
definition HSRTTSync :: u8 where [simp]: "HSRTTSync = 5"
definition HSRTTSyncAck :: u8 where [simp]: "HSRTTSyncAck = 6"
definition HSRTTAck :: u8 where [simp]: "HSRTTAck = 7"

definition AckUDPRetranRange :: u8 where [simp]: "AckUDPRetranRange = 2"
definition AckTCPRetranRange :: u8 where [simp]: "AckTCPRetranRange = 3"
definition AckTCPRetranOne :: u8 where [simp]: "AckTCPRetranOne = 4"
definition AckTCPCumulative :: u8 where [simp]: "AckTCPCumulative = 5"
definition AckUDPRetranOne :: u8 where [simp]: "AckUDPRetranOne = 8"
definition AckUDPCumulative :: u8 where [simp]: "AckUDPCumulative = 9"
definition AckReportConfig :: u8 where [simp]: "AckReportConfig = 11"
definition AckReportPriority :: u8 where [simp]: "AckReportPriority = 12"
definition AckReportStatus :: u8 where [simp]: "AckReportStatus = 13"
definition AckReportSpeed :: u8 where [simp]: "AckReportSpeed = 14"
definition AckTunnelDetect :: u8 where [simp]: "AckTunnelDetect = 15"

definition SyncTCPRequest :: u8 where [simp]: "SyncTCPRequest = 6"
definition SyncTCPAck :: u8 where [simp]: "SyncTCPAck = 7"
definition SyncUDPRequest :: u8 where [simp]: "SyncUDPRequest = 10"
definition SyncUDPAck :: u8 where [simp]: "SyncUDPAck = 11"

definition TCPConnect :: u16 where [simp]: "TCPConnect = 0"
definition TCPDisconnect :: u16 where [simp]: "TCPDisconnect = 1"
definition TCPPayload :: u16 where [simp]: "TCPPayload = 3"
definition TCPBlock :: u16 where [simp]: "TCPBlock = 4"
definition TCPUnblock :: u16 where [simp]: "TCPUnblock = 5"

section \<open>The handshake state\<close>

text \<open>
  \<open>State\<close> is a \<open>uint8\<close> of which the session only ever stores these three values.
\<close>

datatype State = StateInit | StateSrvReady | StateBothOK

section \<open>Names\<close>

text \<open>Decimal digits, for the \<open>%d\<close> verb of \<open>fmt.Sprintf\<close> on an unsigned value.\<close>

fun dec_digits :: "nat \<Rightarrow> string" where
  "dec_digits n = (if n < 10 then [char_of (48 + n)] else dec_digits (n div 10) @ [char_of (48 + n mod 10)])"

declare dec_digits.simps [simp del]

definition typeString :: "u8 \<Rightarrow> string" where
  "typeString t =
     (if t = TypeUDP then ''UDP''
      else if t = TypeICMP then ''ICMP''
      else if t = TypeTCPDown then ''TCP_DOWN''
      else if t = TypeHandshake then ''HANDSHAKE''
      else if t = TypeAck then ''ACK''
      else if t = TypeTCPUp then ''TCP_UP''
      else if t = TypeSeqSync then ''SEQ_SYNC''
      else ''TYPE_'' @ dec_digits (unat t))"

definition tcpOpcodeString :: "u16 \<Rightarrow> string" where
  "tcpOpcodeString p =
     (if p = TCPConnect then ''CONNECT''
      else if p = TCPDisconnect then ''DISCONNECT''
      else if p = TCPPayload then ''PAYLOAD''
      else if p = TCPBlock then ''BLOCK''
      else if p = TCPUnblock then ''UNBLOCK''
      else ''TCPOPT_'' @ dec_digits (unat p))"

definition handshakeNames :: "(u8 \<times> string) list" where
  "handshakeNames =
     [(HSKeepalive, ''ICG_KEEPALIVE''),
      (HSReqWithConfig, ''ICG_HANDSHAKE_REQ_WITH_CONFIG''),
      (HSConfirmAck, ''ICG_CONFIRM_SERVER_ACK''),
      (HSServerAck, ''ICG_SERVER_HANDSHAKE_ACK''),
      (HSReserved, ''HANDSHAKE_CODE_RESREVER''),
      (HSRTTSync, ''ICG_UDP_CHNN_RTT_SYNC''),
      (HSRTTSyncAck, ''ICG_UDP_CHNN_RTT_SYNC_ACK''),
      (HSRTTAck, ''ICG_UDP_CHNN_RTT_ACK'')]"

definition ackNames :: "(u8 \<times> string) list" where
  "ackNames =
     [(AckUDPRetranRange, ''UDP_REQUEST_TRANS_RANGE''),
      (AckTCPRetranRange, ''TCP_REQUEST_TRANS_RANGE''),
      (AckTCPRetranOne, ''TCP_REQUEST_TRANS''),
      (AckTCPCumulative, ''TCP_ACCUMU_ACK''),
      (AckUDPRetranOne, ''UDP_REQUEST_TRANS''),
      (AckUDPCumulative, ''UDP_ACCUMU_ACK''),
      (AckReportConfig, ''REPORT_SERVER_CONFIG''),
      (AckReportPriority, ''REPORT_CARD_PRIORITY''),
      (AckReportStatus, ''REPORT_CARD_STATUS''),
      (AckReportSpeed, ''REPORT_CARD_SPEED''),
      (AckTunnelDetect, ''TUNNEL_DETECT'')]"

definition syncNames :: "(u8 \<times> string) list" where
  "syncNames =
     [(SyncTCPRequest, ''TCP_SORT_SYNC_REQ''),
      (SyncTCPAck, ''TCP_SORT_SYNC_ACK''),
      (SyncUDPRequest, ''UDP_SORT_SYNC_REQ''),
      (SyncUDPAck, ''UDP_SORT_SYNC_ACK'')]"

definition OpcodeName :: "u8 \<Rightarrow> u8 \<Rightarrow> string" where
  "OpcodeName t p =
     (let named = (\<lambda>m. case map_of m p of
                         Some n \<Rightarrow> n
                       | None \<Rightarrow> ''op'' @ dec_digits (unat p) @ ''?'')
      in if t = TypeHandshake then named handshakeNames
         else if t = TypeAck then named ackNames
         else if t = TypeSeqSync then named syncNames
         else if p = 0 then ''0'' else dec_digits (unat p))"

fun stateString :: "State \<Rightarrow> string" where
  "stateString StateInit = ''ICG_INIT_STATE''"
| "stateString StateSrvReady = ''ICG_SERVER_READY''"
| "stateString StateBothOK = ''ICG_AND_SRV_BOTH_OK''"

end
