(* ===== verification/Codec.thy ===== *)
theory Codec
  imports Prelude
begin

text \<open>
  The contracts of the wire formats. A \<^emph>\<open>codec\<close> reads back what it wrote; a
  \<^emph>\<open>prefix codec\<close> does so at the front of a longer buffer and reports how many bytes it
  used, which is what lets frames be concatenated in a stream or a datagram. The encoders
  and parsers of the later theories are interpretations.
\<close>

locale codec =
  fixes enc :: "'a \<Rightarrow> byte list"
    and dec :: "byte list \<Rightarrow> 'e + 'a"
    and ok :: "'a \<Rightarrow> bool"
  assumes dec_enc: "ok x \<Longrightarrow> dec (enc x) = Inr x"
begin

lemma enc_inject: "ok x \<Longrightarrow> ok y \<Longrightarrow> enc x = enc y \<longleftrightarrow> x = y"
  by (metis dec_enc sum.inject(2))

end

text \<open>Decoding frame after frame from the front of a buffer, until the first error.\<close>

function dec_all :: "(byte list \<Rightarrow> 'e + 'a \<times> nat) \<Rightarrow> byte list \<Rightarrow> 'a list" where
  "dec_all d b =
     (case d b of
        Inl e \<Rightarrow> []
      | Inr (x, n) \<Rightarrow> if 0 < n \<and> n \<le> length b then x # dec_all d (drop n b) else [])"
  by pat_completeness auto
termination
  by (relation "measure (\<lambda>(d, b). length b)") auto

declare dec_all.simps [simp del]

locale prefix_codec =
  fixes enc :: "'a \<Rightarrow> byte list"
    and dec :: "byte list \<Rightarrow> 'e + 'a \<times> nat"
    and ok :: "'a \<Rightarrow> bool"
  assumes dec_enc_append: "ok x \<Longrightarrow> dec (enc x @ rest) = Inr (x, length (enc x))"
    and enc_nonempty: "ok x \<Longrightarrow> enc x \<noteq> []"
begin

lemma enc_prefix_inject:
  assumes "ok x" and "ok y" and "enc x @ r = enc y @ s"
  shows "x = y \<and> r = s"
proof -
  have "Inr (x, length (enc x)) = (Inr (y, length (enc y)) :: 'e + 'a \<times> nat)"
    using dec_enc_append [OF assms(1), of r] dec_enc_append [OF assms(2), of s]
    unfolding assms(3) by (rule trans [OF sym])
  then have "x = y" by simp
  with assms(3) show ?thesis by simp
qed

lemma dec_all_enc:
  assumes "ok x"
  shows "dec_all dec (enc x @ rest) = x # dec_all dec rest"
  using dec_enc_append [OF assms] enc_nonempty [OF assms] by (simp add: dec_all.simps [of _ "enc x @ rest"])

lemma dec_all_concat:
  "\<forall>x \<in> set xs. ok x \<Longrightarrow> dec_all dec (concat (map enc xs) @ rest) = xs @ dec_all dec rest"
  by (induction xs) (simp_all add: dec_all_enc)

end

sublocale prefix_codec \<subseteq> whole: codec enc "\<lambda>b. map_sum id fst (dec b)" ok
proof
  fix x
  assume "ok x"
  from dec_enc_append [OF this, of "[]"] show "map_sum id fst (dec (enc x)) = Inr x"
    by simp
qed

end
