(* ===== verification/Frame.thy ===== *)
theory Frame
  imports Opcode Codec
begin

text \<open>
  The frame half of \<open>icg/frame.go\<close>: the \<open>Frame\<close> struct, its encoder and \<open>Decode\<close>. Go's
  \<open>int\<close> is 64 bits wide, so the declared length, a \<open>uint32\<close>, converts without a sign.
\<close>

definition DefaultMagic :: u32 where "DefaultMagic = 0x12345678"

definition OuterLen :: nat where [simp]: "OuterLen = 8"
definition SubHdrLen :: nat where [simp]: "SubHdrLen = 10"
definition HdrLen :: nat where [simp]: "HdrLen = OuterLen + SubHdrLen"
definition MaxBodyLen :: nat where [simp]: "MaxBodyLen = 8192"

datatype icg_error = ErrShort | ErrMagic | ErrBodyLen

record Frame =
  frMagic :: u32
  frIcgID :: u32
  frType :: u8
  frOpcode :: u8
  frSeq :: u32
  frBody :: "byte list"

definition frameLen :: "Frame \<Rightarrow> nat" where
  "frameLen f = HdrLen + length (frBody f)"

text \<open>A magic of 0 stands for the default, in the encoder and in the decoder.\<close>

definition effMagic :: "u32 \<Rightarrow> u32" where
  "effMagic m = (if m = 0 then DefaultMagic else m)"

definition frameAppendTo :: "Frame \<Rightarrow> byte list \<Rightarrow> byte list" where
  "frameAppendTo f dst =
     dst @ (le32 (effMagic (frMagic f))
          @ le32 (of_nat (SubHdrLen + length (frBody f)))
          @ le32 (frIcgID f)
          @ [frType f, frOpcode f]
          @ be32 (frSeq f))
         @ frBody f"

definition Encode :: "Frame \<Rightarrow> byte list" where
  "Encode f = frameAppendTo f []"

definition Decode :: "byte list \<Rightarrow> u32 \<Rightarrow> icg_error + Frame \<times> nat" where
  "Decode buf m =
     (let magic = effMagic m;
          bodyLen = unat (leU32 (drop 4 buf))
      in if length buf < OuterLen then Inl ErrShort
         else if leU32 buf \<noteq> magic then Inl ErrMagic
         else if bodyLen < SubHdrLen \<or> bodyLen > MaxBodyLen then Inl ErrBodyLen
         else if length buf < OuterLen + bodyLen then Inl ErrShort
         else let b = take bodyLen (drop OuterLen buf)
              in Inr (\<lparr>frMagic = magic, frIcgID = leU32 b, frType = b ! 4, frOpcode = b ! 5,
                       frSeq = beU32 (drop 6 b), frBody = drop SubHdrLen b\<rparr>,
                      OuterLen + bodyLen))"

definition IcgIDAsIP :: "Frame \<Rightarrow> byte list" where
  "IcgIDAsIP f = le32 (frIcgID f)"

definition frameString :: "Frame \<Rightarrow> string" where
  "frameString f = ''icg{'' @ typeString (frType f) @ ''/'' @ OpcodeName (frType f) (frOpcode f)
     @ '' seq='' @ dec_digits (unat (frSeq f)) @ '' body='' @ dec_digits (length (frBody f)) @ ''B}''"

section \<open>Lemmas\<close>

lemma effMagic_nonzero [simp]: "effMagic m \<noteq> 0" "effMagic (effMagic m) = effMagic m"
  by (simp_all add: effMagic_def DefaultMagic_def)

lemma length_Encode [codec_simps]: "length (Encode f) = frameLen f"
  by (simp add: Encode_def frameAppendTo_def frameLen_def)

lemma Encode_split:
  "Encode f = le32 (effMagic (frMagic f)) @ le32 (of_nat (10 + length (frBody f)))
     @ le32 (frIcgID f) @ [frType f, frOpcode f] @ be32 (frSeq f) @ frBody f"
  by (simp add: Encode_def frameAppendTo_def)

text \<open>Frames whose body a peer accepts, for a given configured magic.\<close>

definition frame_ok :: "u32 \<Rightarrow> Frame \<Rightarrow> bool" where
  "frame_ok m f \<longleftrightarrow> frMagic f = effMagic m \<and> length (frBody f) \<le> MaxBodyLen - SubHdrLen"

lemma drop_le32_append [simp]: "drop 4 (le32 w @ xs) = xs"
  by (simp add: le32_def)

lemma unat_body_length:
  "n \<le> 8182 \<Longrightarrow> unat (of_nat (10 + n) :: u32) = 10 + n"
  by (simp add: unsigned_of_nat take_bit_nat_eq_self del: of_nat_add)

lemma Decode_Encode_append:
  assumes "frame_ok m f"
  shows "Decode (Encode f @ rest) m = Inr (f, frameLen f)"
proof -
  let ?n = "length (frBody f)"
  have n: "unat (of_nat (10 + ?n) :: u32) = 10 + ?n"
    using assms by (intro unat_body_length) (simp add: frame_ok_def)
  let ?sub = "le32 (frIcgID f) @ [frType f, frOpcode f] @ be32 (frSeq f) @ frBody f"
  have e: "Encode f @ rest = le32 (effMagic m) @ le32 (of_nat (10 + ?n)) @ ?sub @ rest"
    using assms by (simp add: Encode_split frame_ok_def)
  have "length ?sub = 10 + ?n" by simp
  then have sub: "take (10 + ?n) (?sub @ rest) = ?sub"
    by (metis append_eq_conv_conj)
  have parts: "?sub ! 4 = frType f" "?sub ! 5 = frOpcode f"
    "drop 6 ?sub = be32 (frSeq f) @ frBody f" "drop 10 ?sub = frBody f"
    by (simp_all add: nth_append le32_def be32_def)
  have len: "length (Encode f @ rest) = 18 + ?n + length rest"
    by (simp add: length_Encode frameLen_def)
  have d8: "drop 8 (Encode f @ rest) = ?sub @ rest"
    unfolding e by (simp add: le32_def)
  have d4: "leU32 (drop 4 (Encode f @ rest)) = of_nat (10 + ?n)"
    unfolding e by (simp del: of_nat_add)
  have d0: "leU32 (Encode f @ rest) = effMagic m"
    unfolding e by simp
  show ?thesis
    unfolding Decode_def Let_def d0 d4 n len d8 OuterLen_def SubHdrLen_def MaxBodyLen_def sub parts
    using assms by (simp add: frame_ok_def frameLen_def)
qed

text \<open>The decoder's branches, each with the exact condition under which it is taken.\<close>

definition bodyLenField :: "byte list \<Rightarrow> nat" where
  "bodyLenField buf = unat (leU32 (drop 4 buf))"

lemma Decode_ErrMagic_iff:
  "Decode buf m = Inl ErrMagic \<longleftrightarrow> 8 \<le> length buf \<and> leU32 buf \<noteq> effMagic m"
  by (auto simp: Decode_def Let_def)

lemma Decode_ErrBodyLen_iff:
  "Decode buf m = Inl ErrBodyLen \<longleftrightarrow>
     8 \<le> length buf \<and> leU32 buf = effMagic m \<and> bodyLenField buf \<notin> {10..8192}"
  by (auto simp: Decode_def Let_def bodyLenField_def)

lemma Decode_ErrShort_iff:
  "Decode buf m = Inl ErrShort \<longleftrightarrow>
     length buf < 8 \<or>
     leU32 buf = effMagic m \<and> bodyLenField buf \<in> {10..8192} \<and> length buf < 8 + bodyLenField buf"
  by (auto simp: Decode_def Let_def bodyLenField_def)

lemma Decode_Inr_iff:
  "Decode buf m = Inr (f, n) \<longleftrightarrow>
     8 \<le> length buf \<and> leU32 buf = effMagic m \<and> bodyLenField buf \<in> {10..8192} \<and>
     n = 8 + bodyLenField buf \<and> n \<le> length buf \<and>
     f = \<lparr>frMagic = effMagic m, frIcgID = leU32 (drop 8 buf), frType = buf ! 12,
          frOpcode = buf ! 13, frSeq = beU32 (drop 14 buf), frBody = take (n - 18) (drop 18 buf)\<rparr>"
proof -
  have reads: "leU32 (take k (drop 8 buf)) = leU32 (drop 8 buf)"
    "take k (drop 8 buf) ! 4 = buf ! 12" "take k (drop 8 buf) ! 5 = buf ! 13"
    "beU32 (drop 6 (take k (drop 8 buf))) = beU32 (drop 14 buf)"
    "drop 10 (take k (drop 8 buf)) = take (k - 10) (drop 18 buf)"
    if "8 + k \<le> length buf" "10 \<le> k" for k
    using that by (simp_all add: leU32_def beU32_def drop_take)
  show ?thesis
    using reads [of "bodyLenField buf"]
    by (auto simp: Decode_def Let_def bodyLenField_def)
qed

lemma Decode_consumed:
  "Decode buf m = Inr (f, n) \<Longrightarrow> 18 \<le> n \<and> n \<le> 8200 \<and> n \<le> length buf"
  by (auto simp: Decode_Inr_iff)

lemma take_fields:
  assumes "18 \<le> n" and "n \<le> length buf"
  shows "take n buf = take 4 buf @ take 4 (drop 4 buf) @ take 4 (drop 8 buf) @ [buf ! 12, buf ! 13]
     @ take 4 (drop 14 buf) @ take (n - 18) (drop 18 buf)"
proof -
  have two: "take 2 (drop 12 buf) = [buf ! 12, buf ! 13]"
    using assms by (simp add: numeral_2_eq_2 take_Suc_conv_app_nth)
  have e: "4 + (4 + (4 + (2 + (4 + (n - 18))))) = n"
    using assms by simp
  have "take (4 + (4 + (4 + (2 + (4 + (n - 18)))))) buf = take 4 buf @ take 4 (drop 4 buf) @ take 4 (drop 8 buf) @ take 2 (drop 12 buf)
     @ take 4 (drop 14 buf) @ take (n - 18) (drop 18 buf)"
    by (simp only: take_add drop_drop) simp
  then show ?thesis unfolding two e .
qed

lemma Encode_Decode:
  assumes "Decode buf m = Inr (f, n)"
  shows "Encode f = take n buf" and "frame_ok m f" and "n = frameLen f"
proof -
  note d = assms [unfolded Decode_Inr_iff bodyLenField_def]
  let ?l = "unat (leU32 (drop 4 buf))"
  have len: "length (frBody f) = ?l - 10" using d by auto
  have n: "18 \<le> n" "n \<le> length buf" using d by auto
  have "10 + length (frBody f) = ?l" using d len by auto
  then have lf: "(of_nat (10 + length (frBody f)) :: u32) = leU32 (drop 4 buf)"
    by simp
  have "le32 (effMagic m) = take 4 buf"
    using le_put_get(3) [of buf] d by simp
  moreover have "4 \<le> length (drop 4 buf)" "4 \<le> length (drop 8 buf)" "4 \<le> length (drop 14 buf)"
    using n by auto
  ultimately show "Encode f = take n buf"
    unfolding Encode_split lf take_fields [OF n] using d
    by (simp add: le_put_get)
  show "frame_ok m f" and "n = frameLen f"
    using d len by (auto simp: frame_ok_def frameLen_def)
qed

lemma Decode_extend:
  assumes "Decode buf m \<noteq> Inl ErrShort"
  shows "Decode (buf @ rest) m = Decode buf m"
proof -
  have len: "8 \<le> length buf" using assms by (auto simp: Decode_ErrShort_iff)
  then have "buf \<noteq> []" by auto
  with len have same: "leU32 (buf @ rest) = leU32 buf" "bodyLenField (buf @ rest) = bodyLenField buf"
    by (simp_all add: leU32_def bodyLenField_def nth_append)
  show ?thesis
  proof (cases "Decode buf m")
    case (Inl e)
    with assms len same have "Decode (buf @ rest) m = Inl e"
      by (cases e) (simp_all add: Decode_ErrMagic_iff Decode_ErrBodyLen_iff)
    with Inl show ?thesis by simp
  next
    case (Inr p)
    obtain f n where p: "p = (f, n)" by (cases p)
    have d: "Decode buf m = Inr (f, n)" using Inr p by simp
    have "frame_ok m f" "n = frameLen f" "Encode f = take n buf"
      using Encode_Decode [OF d] by blast+
    then have "Decode (take n buf @ drop n buf @ rest) m = Inr (f, n)"
      using Decode_Encode_append [of m f "drop n buf @ rest"] by simp
    then show ?thesis unfolding Inr p by (simp flip: append_assoc)
  qed
qed

lemma Decode_prefix_short:
  assumes "frame_ok m f" and "k < frameLen f"
  shows "Decode (take k (Encode f)) m = Inl ErrShort"
proof (rule ccontr)
  assume no: "Decode (take k (Encode f)) m \<noteq> Inl ErrShort"
  have "Decode (Encode f) m = Inr (f, frameLen f)"
    using Decode_Encode_append [OF assms(1), of "[]"] by simp
  with Decode_extend [OF no, of "drop k (Encode f)"]
  have "Decode (take k (Encode f)) m = Inr (f, frameLen f)" by simp
  from Decode_consumed [OF this] assms(2) show False by simp
qed

lemma Decode_oversize:
  assumes "frMagic f = effMagic m" and "8182 < length (frBody f)" and "length (frBody f) < 2 ^ 32 - 10"
  shows "Decode (Encode f @ rest) m = Inl ErrBodyLen"
proof -
  let ?n = "length (frBody f)"
  have "unat (of_nat (10 + ?n) :: u32) = 10 + ?n"
    using assms(3) by (simp add: unsigned_of_nat take_bit_nat_eq_self del: of_nat_add)
  then have "bodyLenField (Encode f @ rest) = 10 + ?n"
    unfolding bodyLenField_def Encode_split by (simp del: of_nat_add)
  moreover have "leU32 (Encode f @ rest) = effMagic m"
    using assms(1) by (simp add: Encode_split)
  moreover have "8 \<le> length (Encode f @ rest)"
    by (simp add: length_Encode frameLen_def)
  ultimately show ?thesis
    using assms(2) by (simp add: Decode_ErrBodyLen_iff)
qed

text \<open>The frame codec, for any configured magic: the contract that streams and datagrams use.\<close>

interpretation wire: prefix_codec Encode "\<lambda>b. Decode b m" "frame_ok m" for m
proof
  fix f rest
  assume "frame_ok m f"
  then show "Decode (Encode f @ rest) m = Inr (f, length (Encode f))"
    by (simp add: Decode_Encode_append length_Encode)
next
  fix f
  show "Encode f \<noteq> []"
    using length_Encode [of f] by (auto simp: frameLen_def)
qed

section \<open>Properties\<close>

text \<open>
  C38: the frame codec is exact. Decoding a buffer yields a frame and a length if and only if
  the buffer starts with the encoding of that frame, the length is that encoding's, the frame
  carries the configured magic (the default for 0), and its body fits; whatever follows in
  the buffer is left alone. So what is encoded decodes to itself, and nothing else decodes.
\<close>

theorem decode_exact:
  "Decode buf m = Inr (f, n) \<longleftrightarrow>
     (\<exists>rest. buf = Encode f @ rest) \<and> n = length (Encode f) \<and> n = HdrLen + length (frBody f)
     \<and> frMagic f = effMagic m \<and> length (frBody f) \<le> MaxBodyLen - SubHdrLen"
proof
  assume d: "Decode buf m = Inr (f, n)"
  have e: "Encode f = take n buf" and ok: "frame_ok m f" "n = frameLen f" "n \<le> length buf"
    using Encode_Decode [OF d] Decode_consumed [OF d] by auto
  have "buf = Encode f @ drop n buf" using e by simp
  then have "\<exists>rest. buf = Encode f @ rest" by (rule exI)
  then show "(\<exists>rest. buf = Encode f @ rest) \<and> n = length (Encode f) \<and> n = HdrLen + length (frBody f)
     \<and> frMagic f = effMagic m \<and> length (frBody f) \<le> MaxBodyLen - SubHdrLen"
    using ok length_Encode [of f] by (simp add: frame_ok_def frameLen_def)
next
  assume r: "(\<exists>rest. buf = Encode f @ rest) \<and> n = length (Encode f) \<and> n = HdrLen + length (frBody f)
     \<and> frMagic f = effMagic m \<and> length (frBody f) \<le> MaxBodyLen - SubHdrLen"
  then have "frame_ok m f" by (simp add: frame_ok_def)
  then show "Decode buf m = Inr (f, n)"
    using r Decode_Encode_append [of m f] by (auto simp: frameLen_def)
qed

end
