(* ===== verification/Stream_Reader.thy ===== *)
theory Stream_Reader
  imports Frame
begin

text \<open>
  The stream half of \<open>icg/frame.go\<close>: \<open>StreamReader\<close> deframes a byte stream that arrives in
  arbitrary chunks and resynchronises on the magic when framing is lost. The \<open>io.Reader\<close>
  underneath is a parameter: \<open>read r n\<close> is one call of \<open>Read\<close> with room for \<open>n\<close> bytes.
  \<open>srBuf\<close> holds the valid bytes \<open>buf[0:end]\<close>; \<open>srDesync\<close> records what the \<open>OnDesync\<close>
  callback was given, when one is set (\<open>srOnDesync\<close>).
\<close>

type_synonym ('r, 'e) reader = "'r \<Rightarrow> nat \<Rightarrow> byte list \<times> 'e option \<times> 'r"

datatype 'e sr_error = FrameExceeds | ReadErr 'e

record StreamReader =
  srMagic :: u32
  srBuf :: "byte list"
  srStart :: nat
  srEnd :: nat
  srResyncs :: nat
  srOnDesync :: bool
  srDesync :: "byte list list"

definition bufCap :: nat where "bufCap = 2 * MaxBodyLen"

definition NewStreamReader :: "u32 \<Rightarrow> bool \<Rightarrow> StreamReader" where
  "NewStreamReader magic cb =
     \<lparr>srMagic = effMagic magic, srBuf = [], srStart = 0, srEnd = 0, srResyncs = 0,
      srOnDesync = cb, srDesync = []\<rparr>"

text \<open>The scan of \<open>resync\<close>: the first \<open>j \<ge> i\<close> with the four magic bytes at \<open>j\<close>.\<close>

function resyncScan :: "byte list \<Rightarrow> byte list \<Rightarrow> nat \<Rightarrow> nat \<Rightarrow> nat option" where
  "resyncScan want buf i e =
     (if i + 4 \<le> e
      then if buf ! i = want ! 0 \<and> buf ! (i + 1) = want ! 1 \<and> buf ! (i + 2) = want ! 2
              \<and> buf ! (i + 3) = want ! 3
           then Some i else resyncScan want buf (i + 1) e
      else None)"
  by pat_completeness auto
termination
  by (relation "measure (\<lambda>(want, buf, i, e). e - i)") auto

declare resyncScan.simps [simp del]

definition resync :: "StreamReader \<Rightarrow> StreamReader" where
  "resync s =
     (let s = (if srResyncs s = 0 \<and> srOnDesync s
               then s\<lparr>srDesync := srDesync s @
                        [take (min (srStart s + 16) (srEnd s) - srStart s) (drop (srStart s) (srBuf s))]\<rparr>
               else s);
          s = s\<lparr>srResyncs := srResyncs s + 1\<rparr>
      in case resyncScan (le32 (srMagic s)) (srBuf s) (srStart s + 1) (srEnd s) of
           Some i \<Rightarrow> s\<lparr>srStart := i\<rparr>
         | None \<Rightarrow> s\<lparr>srStart := (if srEnd s < srStart s + 3 then srStart s else srEnd s - 3)\<rparr>)"

definition compact :: "StreamReader \<Rightarrow> StreamReader" where
  "compact s =
     (if srStart s > 0
      then s\<lparr>srBuf := take (srEnd s - srStart s) (drop (srStart s) (srBuf s)),
             srEnd := srEnd s - srStart s, srStart := 0\<rparr>
      else s)"

definition fill :: "('r, 'e) reader \<Rightarrow> StreamReader \<Rightarrow> 'r \<Rightarrow> 'e sr_error option \<times> StreamReader \<times> 'r" where
  "fill read s r =
     (let s = compact s
      in if srEnd s = bufCap then (Some FrameExceeds, s, r)
         else case read r (bufCap - srEnd s) of
                (bs, err, r') \<Rightarrow>
                  let s = s\<lparr>srEnd := srEnd s + length bs, srBuf := srBuf s @ bs\<rparr>
                  in (case err of
                        Some e \<Rightarrow> if bs = [] then Some (ReadErr e) else None
                      | None \<Rightarrow> None, s, r'))"

text \<open>The bytes \<open>buf[start:end]\<close>, and the loop of \<open>Next\<close>: \<open>None\<close> would be a loop for ever.\<close>

definition unread :: "StreamReader \<Rightarrow> byte list" where
  "unread s = take (srEnd s - srStart s) (drop (srStart s) (srBuf s))"

partial_function (option) Next ::
    "('r, 'e) reader \<Rightarrow> StreamReader \<Rightarrow> 'r \<Rightarrow> (('e sr_error + Frame) \<times> StreamReader \<times> 'r) option" where
  "Next read s r =
     (case (if srEnd s > srStart s then Decode (unread s) (srMagic s) else Inl ErrShort) of
        Inr p \<Rightarrow> Some (Inr (fst p), s\<lparr>srStart := srStart s + snd p\<rparr>, r)
      | Inl e \<Rightarrow>
          (if e = ErrMagic \<or> e = ErrBodyLen then Next read (resync s) r
           else case fill read s r of
                  (err, s', r') \<Rightarrow>
                    (case err of Some x \<Rightarrow> Some (Inl x, s', r') | None \<Rightarrow> Next read s' r')))"

text \<open>
  The read loop of a leg (\<open>serveTCPConn\<close>, and the client's \<open>readStream\<close>): frame after frame
  until \<open>Next\<close> reports an error.
\<close>

partial_function (option) readLoop ::
    "('r, 'e) reader \<Rightarrow> StreamReader \<Rightarrow> 'r \<Rightarrow> (Frame list \<times> 'e sr_error \<times> StreamReader) option" where
  "readLoop read s r =
     Option.bind (Next read s r) (\<lambda>x.
       case x of (res, s', r') \<Rightarrow>
         (case res of
            Inl e \<Rightarrow> Some ([], e, s')
          | Inr f \<Rightarrow> Option.bind (readLoop read s' r') (\<lambda>y. Some (f # fst y, snd y))))"

section \<open>The reference deframer\<close>

text \<open>
  What the stream means, with the whole of it at hand: a frame where one decodes, one byte
  skipped where none can start, and nothing from an incomplete tail.
\<close>

function deframe :: "u32 \<Rightarrow> byte list \<Rightarrow> Frame list" where
  "deframe m b =
     (case Decode b m of
        Inr p \<Rightarrow> fst p # deframe m (drop (snd p) b)
      | Inl e \<Rightarrow> if e = ErrShort then [] else deframe m (drop 1 b))"
  by pat_completeness auto
termination
proof (relation "measure (\<lambda>(m, b). length b)", goal_cases)
  case 1
  show ?case by simp
next
  case (2 m b e)
  then have "b \<noteq> []" by (cases e) (auto simp: Decode_def)
  then show ?case by simp
next
  case (3 m b p)
  then have "Decode b m = Inr (fst p, snd p)" by simp
  from Decode_consumed [OF this] show ?case by auto
qed

declare deframe.simps [simp del]

lemma deframe_frame: "Decode b m = Inr (f, n) \<Longrightarrow> deframe m b = f # deframe m (drop n b)"
  by (subst deframe.simps) simp

lemma deframe_short: "Decode b m = Inl ErrShort \<Longrightarrow> deframe m b = []"
  by (subst deframe.simps) simp

lemma deframe_skip1:
  "Decode b m = Inl e \<Longrightarrow> e \<noteq> ErrShort \<Longrightarrow> deframe m b = deframe m (drop 1 b)"
  by (subst deframe.simps) simp

lemma leU32_eq_iff: "4 \<le> length b \<Longrightarrow> leU32 b = w \<longleftrightarrow> take 4 b = le32 w"
  using le_put_get(3) [of b] leU32_le32(1) [of w "drop 4 b"]
  by (metis append_take_drop_id)

lemma deframe_skip:
  assumes "\<forall>q<k. length (drop q b) < 8 \<or> (\<exists>e. Decode (drop q b) m = Inl e \<and> e \<noteq> ErrShort)"
  shows "deframe m b = deframe m (drop k b)"
  using assms
proof (induction k)
  case 0
  then show ?case by simp
next
  case (Suc k)
  then have IH: "deframe m b = deframe m (drop k b)" by simp
  from Suc.prems consider "length (drop k b) < 8"
    | e where "Decode (drop k b) m = Inl e" "e \<noteq> ErrShort" by blast
  then show ?case
  proof cases
    case 1
    then have "Decode (drop k b) m = Inl ErrShort" "Decode (drop (Suc k) b) m = Inl ErrShort"
      by (auto simp: Decode_ErrShort_iff)
    with IH show ?thesis by (simp add: deframe_short)
  next
    case 2
    with IH deframe_skip1 [OF 2] show ?thesis by simp
  qed
qed

section \<open>The buffer\<close>

definition sr_ok :: "StreamReader \<Rightarrow> bool" where
  "sr_ok s \<longleftrightarrow> srStart s \<le> srEnd s \<and> srEnd s = length (srBuf s) \<and> srEnd s \<le> bufCap
     \<and> effMagic (srMagic s) = srMagic s"

lemma sr_ok_New [simp]: "sr_ok (NewStreamReader m cb)" "unread (NewStreamReader m cb) = []"
  "srMagic (NewStreamReader m cb) = effMagic m" "srResyncs (NewStreamReader m cb) = 0"
  "srDesync (NewStreamReader m cb) = []"
  by (simp_all add: sr_ok_def NewStreamReader_def unread_def)

lemma unread_eq: "sr_ok s \<Longrightarrow> unread s = drop (srStart s) (srBuf s)"
  by (simp add: sr_ok_def unread_def)

lemma length_unread: "sr_ok s \<Longrightarrow> length (unread s) = srEnd s - srStart s"
  by (simp add: sr_ok_def unread_def)

lemma sr_ok_advance:
  assumes "sr_ok s" and "n \<le> length (unread s)"
  shows "sr_ok (s\<lparr>srStart := srStart s + n\<rparr>)"
    and "unread (s\<lparr>srStart := srStart s + n\<rparr>) = drop n (unread s)"
  using assms by (auto simp: sr_ok_def unread_def add.commute)

lemma compact_ok:
  assumes "sr_ok s"
  shows "sr_ok (compact s)" and "unread (compact s) = unread s" and "srStart (compact s) = 0"
    and "srEnd (compact s) = length (unread s)"
    and "srMagic (compact s) = srMagic s" and "srResyncs (compact s) = srResyncs s"
    and "srDesync (compact s) = srDesync s"
  using assms by (auto simp: compact_def sr_ok_def unread_def)

definition matchAt :: "byte list \<Rightarrow> byte list \<Rightarrow> nat \<Rightarrow> bool" where
  "matchAt want buf q \<longleftrightarrow> take 4 (drop q buf) = want"

lemma matchAt_nth:
  assumes "q + 4 \<le> length buf" and "length want = 4"
  shows "matchAt want buf q \<longleftrightarrow> buf ! q = want ! 0 \<and> buf ! (q + 1) = want ! 1
     \<and> buf ! (q + 2) = want ! 2 \<and> buf ! (q + 3) = want ! 3"
proof -
  have "take 4 (drop q buf) = [buf ! q, buf ! (q + 1), buf ! (q + 2), buf ! (q + 3)]"
    using assms(1) by (simp add: eval_nat_numeral take_Suc_conv_app_nth)
  with assms(2) show ?thesis
    by (auto simp: matchAt_def list4_conv)
qed

lemma resyncScan_step:
  assumes "e = length buf" and "length want = 4"
  shows "resyncScan want buf i e =
    (if i + 4 \<le> e then if matchAt want buf i then Some i else resyncScan want buf (i + 1) e else None)"
  using assms by (subst resyncScan.simps) (simp add: matchAt_nth)

lemma resyncScan_Some:
  assumes "e = length buf" and "length want = 4" and "resyncScan want buf i e = Some j"
  shows "i \<le> j \<and> j + 4 \<le> e \<and> matchAt want buf j \<and> (\<forall>q. i \<le> q \<and> q < j \<longrightarrow> \<not> matchAt want buf q)"
  using assms(3)
proof (induction "e - i" arbitrary: i rule: less_induct)
  case less
  show ?case
  proof (cases "i + 4 \<le> e \<and> \<not> matchAt want buf i")
    case True
    with less.prems have r: "resyncScan want buf (i + 1) e = Some j"
      by (simp add: resyncScan_step [OF assms(1,2), of i])
    have "e - (i + 1) < e - i" using True by arith
    from less.hyps [OF this r] have "i + 1 \<le> j \<and> j + 4 \<le> e \<and> matchAt want buf j
        \<and> (\<forall>q. i + 1 \<le> q \<and> q < j \<longrightarrow> \<not> matchAt want buf q)" .
    with True show ?thesis by (metis Suc_eq_plus1 Suc_leD Suc_leI le_neq_implies_less)
  next
    case False
    with less.prems show ?thesis
      by (auto simp: resyncScan_step [OF assms(1,2), of i] split: if_splits)
  qed
qed

lemma resyncScan_None:
  assumes "e = length buf" and "length want = 4" and "resyncScan want buf i e = None"
  shows "i \<le> q \<Longrightarrow> q + 4 \<le> e \<Longrightarrow> \<not> matchAt want buf q"
  using assms(3)
proof (induction "e - i" arbitrary: i rule: less_induct)
  case less
  then have no: "\<not> matchAt want buf i" "resyncScan want buf (i + 1) e = None"
    by (auto simp: resyncScan_step [OF assms(1,2), of i] split: if_splits)
  show ?case
  proof (cases "q = i")
    case True
    with no show ?thesis by simp
  next
    case False
    with less.hyps [OF _ _ _ no(2)] less.prems show ?thesis by simp
  qed
qed

section \<open>One resynchronisation, one read\<close>

lemma not_match_Decode:
  assumes "\<not> matchAt (le32 m) b q" and "m = effMagic m" and "q + 4 \<le> length b"
  shows "length (drop q (b @ rest)) < 8 \<or> (\<exists>e. Decode (drop q (b @ rest)) m = Inl e \<and> e \<noteq> ErrShort)"
proof (cases "length (drop q (b @ rest)) < 8")
  case False
  from assms have "take 4 (drop q (b @ rest)) \<noteq> le32 m"
    by (simp add: matchAt_def)
  with False have "leU32 (drop q (b @ rest)) \<noteq> m"
    by (subst leU32_eq_iff) simp_all
  with False assms(2) have "Decode (drop q (b @ rest)) m = Inl ErrMagic"
    by (auto simp: Decode_ErrMagic_iff)
  then show ?thesis by auto
qed simp

lemma resync_fields [simp]:
  "srBuf (resync s) = srBuf s" "srEnd (resync s) = srEnd s" "srMagic (resync s) = srMagic s"
  "srResyncs (resync s) = srResyncs s + 1"
  by (simp_all add: resync_def Let_def split: option.split)

lemma resync_start:
  "srStart (resync s) =
     (case resyncScan (le32 (srMagic s)) (srBuf s) (srStart s + 1) (srEnd s) of
        Some i \<Rightarrow> i
      | None \<Rightarrow> if srEnd s < srStart s + 3 then srStart s else srEnd s - 3)"
  by (simp add: resync_def Let_def split: option.split)

lemma resync_progress:
  assumes ok: "sr_ok s" and dec: "Decode (unread s) (srMagic s) = Inl e" and e: "e \<noteq> ErrShort"
  shows "srStart s < srStart (resync s)" and "srStart (resync s) \<le> srEnd s"
    and "\<And>q. srStart s < q \<Longrightarrow> q < srStart (resync s) \<Longrightarrow>
           q + 4 \<le> srEnd s \<and> \<not> matchAt (le32 (srMagic s)) (srBuf s) q"
proof -
  have len: "srEnd s = length (srBuf s)" using ok by (simp add: sr_ok_def)
  have "8 \<le> length (unread s)"
    using dec e by (cases e) (auto simp: Decode_ErrMagic_iff Decode_ErrBodyLen_iff)
  then have room: "srStart s + 8 \<le> srEnd s"
    using length_unread [OF ok] by simp
  let ?scan = "resyncScan (le32 (srMagic s)) (srBuf s) (srStart s + 1) (srEnd s)"
  have "srStart s < srStart (resync s) \<and> srStart (resync s) \<le> srEnd s \<and>
      (\<forall>q. srStart s < q \<and> q < srStart (resync s) \<longrightarrow>
         q + 4 \<le> srEnd s \<and> \<not> matchAt (le32 (srMagic s)) (srBuf s) q)"
  proof (cases ?scan)
    case None
    have "\<not> matchAt (le32 (srMagic s)) (srBuf s) q" if "srStart s < q" "q + 4 \<le> srEnd s" for q
      using resyncScan_None [OF len _ None, of q] that by simp
    with None room show ?thesis by (auto simp: resync_start)
  next
    case (Some i)
    from resyncScan_Some [OF len _ Some] Some room show ?thesis by (auto simp: resync_start)
  qed
  then show "srStart s < srStart (resync s)" and "srStart (resync s) \<le> srEnd s"
    and "\<And>q. srStart s < q \<Longrightarrow> q < srStart (resync s) \<Longrightarrow>
           q + 4 \<le> srEnd s \<and> \<not> matchAt (le32 (srMagic s)) (srBuf s) q"
    by auto
qed

lemma resync_deframe:
  assumes ok: "sr_ok s" and dec: "Decode (unread s) (srMagic s) = Inl e" and e: "e \<noteq> ErrShort"
  shows "sr_ok (resync s)" and "length (unread (resync s)) < length (unread s)"
    and "deframe (srMagic s) (unread s @ rest) = deframe (srMagic s) (unread (resync s) @ rest)"
proof -
  note prog = resync_progress [OF ok dec e]
  let ?k = "srStart (resync s) - srStart s"
  show ok': "sr_ok (resync s)"
    using ok prog(2) by (simp add: sr_ok_def)
  have k: "unread (resync s) = drop ?k (unread s)" "?k \<le> length (unread s)" "0 < ?k"
    using ok prog(1,2) length_unread [OF ok] by (auto simp: unread_eq [OF ok] unread_eq [OF ok'])
  then show "length (unread (resync s)) < length (unread s)" by simp
  have "length (drop q (unread s @ rest)) < 8
      \<or> (\<exists>e. Decode (drop q (unread s @ rest)) (srMagic s) = Inl e \<and> e \<noteq> ErrShort)"
    if q: "q < ?k" for q
  proof (cases "q = 0")
    case True
    have "Decode (unread s @ rest) (srMagic s) = Inl e"
      using Decode_extend [of "unread s" "srMagic s" rest] dec e by simp
    with True e show ?thesis by auto
  next
    case False
    then have "srStart s + q + 4 \<le> srEnd s"
      and "\<not> matchAt (le32 (srMagic s)) (srBuf s) (srStart s + q)"
      using prog(3) [of "srStart s + q"] q by auto
    then have "\<not> matchAt (le32 (srMagic s)) (unread s) q" and "q + 4 \<le> length (unread s)"
      using length_unread [OF ok] by (auto simp: matchAt_def unread_eq [OF ok] add.commute)
    then show ?thesis using ok by (intro not_match_Decode) (simp_all add: sr_ok_def)
  qed
  then have "deframe (srMagic s) (unread s @ rest) = deframe (srMagic s) (drop ?k (unread s @ rest))"
    by (intro deframe_skip) blast
  with k show "deframe (srMagic s) (unread s @ rest) = deframe (srMagic s) (unread (resync s) @ rest)"
    by simp
qed

text \<open>
  A conforming reader: \<open>Read\<close> returns at most what it has room for, in the order of the
  stream \<open>pending\<close>, and returns nothing only at its end, with the error \<open>fin\<close>
  (\<open>io.EOF\<close> for a connection closed by the peer).
\<close>

definition conforming :: "('r, 'e) reader \<Rightarrow> ('r \<Rightarrow> byte list) \<Rightarrow> 'e \<Rightarrow> bool" where
  "conforming read pending fin \<longleftrightarrow>
     (\<forall>r n bs err r'. 0 < n \<longrightarrow> read r n = (bs, err, r') \<longrightarrow>
        length bs \<le> n \<and> pending r = bs @ pending r' \<and>
        (bs = [] \<longrightarrow> err = Some fin \<and> pending r = []))"

lemma fill_conforming:
  assumes ok: "sr_ok s" and room: "length (unread s) < bufCap"
    and conf: "conforming read pending fin" and f: "fill read s r = (err, s', r')"
  shows "sr_ok s'" and "srMagic s' = srMagic s" and "srResyncs s' = srResyncs s"
    and "srDesync s' = srDesync s"
    and "unread s' @ pending r' = unread s @ pending r"
    and "err = None \<Longrightarrow> length (pending r') < length (pending r)"
    and "err \<noteq> None \<Longrightarrow> err = Some (ReadErr fin) \<and> pending r = [] \<and> unread s' = unread s"
proof -
  let ?c = "compact s"
  note c = compact_ok [OF ok]
  obtain bs er r2 where rd: "read r (bufCap - srEnd ?c) = (bs, er, r2)"
    by (metis prod_cases3)
  have "0 < bufCap - srEnd ?c" using room c(4) by simp
  with conf rd have bs: "length bs \<le> bufCap - srEnd ?c" "pending r = bs @ pending r2"
    "bs = [] \<Longrightarrow> er = Some fin \<and> pending r = []"
    unfolding conforming_def by blast+
  have s': "s' = ?c\<lparr>srEnd := srEnd ?c + length bs, srBuf := srBuf ?c @ bs\<rparr>" "r' = r2"
    and err: "err = (case er of Some e \<Rightarrow> if bs = [] then Some (ReadErr e) else None | None \<Rightarrow> None)"
    using f room c(4) rd by (auto simp: fill_def Let_def)
  show ok': "sr_ok s'" and "srMagic s' = srMagic s" and "srResyncs s' = srResyncs s"
    and "srDesync s' = srDesync s"
    using c bs(1) room by (auto simp: s' sr_ok_def)
  have u: "unread s' = unread s @ bs"
    using c(1,3) unread_eq [OF ok'] unread_eq [OF c(1)] by (simp add: s' flip: c(2))
  then show "unread s' @ pending r' = unread s @ pending r"
    using bs(2) by (simp add: s')
  show "err = None \<Longrightarrow> length (pending r') < length (pending r)"
    using bs err by (cases bs) (auto simp: s')
  show "err \<noteq> None \<Longrightarrow> err = Some (ReadErr fin) \<and> pending r = [] \<and> unread s' = unread s"
    using bs(3) err u by (auto split: option.splits if_splits)
qed

section \<open>The loop of Next\<close>

lemma Decode_unread_if:
  "sr_ok s \<Longrightarrow> (if srEnd s > srStart s then Decode (unread s) m else Inl ErrShort) = Decode (unread s) m"
  by (auto simp: unread_def sr_ok_def Decode_def)

lemma Next_unfold:
  "sr_ok s \<Longrightarrow> Next read s r =
     (case Decode (unread s) (srMagic s) of
        Inr p \<Rightarrow> Some (Inr (fst p), s\<lparr>srStart := srStart s + snd p\<rparr>, r)
      | Inl e \<Rightarrow>
          (if e \<noteq> ErrShort then Next read (resync s) r
           else case fill read s r of
                  (err, s', r') \<Rightarrow>
                    (case err of Some x \<Rightarrow> Some (Inl x, s', r') | None \<Rightarrow> Next read s' r')))"
  by (subst Next.simps, simp only: Decode_unread_if, cases "Decode (unread s) (srMagic s)")
    (auto intro: icg_error.exhaust)

text \<open>The relation between a state, the stream still to come, and what \<open>Next\<close> answers.\<close>

definition next_post ::
    "('r \<Rightarrow> byte list) \<Rightarrow> 'e \<Rightarrow> StreamReader \<Rightarrow> 'r \<Rightarrow> ('e sr_error + Frame) \<times> StreamReader \<times> 'r \<Rightarrow> bool" where
  "next_post pending fin s r x \<longleftrightarrow>
     (case x of (res, s', r') \<Rightarrow>
        sr_ok s' \<and> srMagic s' = srMagic s \<and>
        (case deframe (srMagic s) (unread s @ pending r) of
           [] \<Rightarrow> res = Inl (ReadErr fin)
         | f # fs \<Rightarrow> res = Inr f \<and> fs = deframe (srMagic s') (unread s' @ pending r')))"

lemma Next_post:
  assumes conf: "conforming read pending fin" and "sr_ok s"
  shows "\<exists>x. Next read s r = Some x \<and> next_post pending fin s r x"
  using assms(2)
proof (induction "length (unread s @ pending r) + length (pending r)" arbitrary: s r rule: less_induct)
  case less
  note ok = less.prems
  show ?case
  proof (cases "Decode (unread s) (srMagic s)")
    case (Inr p)
    then have d: "Decode (unread s) (srMagic s) = Inr (fst p, snd p)" by simp
    then have "Decode (unread s @ pending r) (srMagic s) = Inr (fst p, snd p)"
      by (simp add: Decode_extend)
    from deframe_frame [OF this] Decode_consumed [OF d] sr_ok_advance [OF ok, of "snd p"]
    show ?thesis
      by (simp add: Next_unfold [OF ok] Inr next_post_def)
  next
    case (Inl e)
    show ?thesis
    proof (cases "e = ErrShort")
      case False
      note r = resync_deframe [OF ok Inl False]
      have "length (unread (resync s) @ pending r) + length (pending r)
          < length (unread s @ pending r) + length (pending r)"
        using r(2) by simp
      from less.hyps [OF this r(1)] show ?thesis
        using False by (simp add: Next_unfold [OF ok] Inl next_post_def r(3))
    next
      case True
      have room: "length (unread s) < bufCap"
        using Inl True by (auto simp: Decode_ErrShort_iff bufCap_def)
      obtain err s' r' where f: "fill read s r = (err, s', r')" by (metis prod_cases3)
      note fc = fill_conforming [OF ok room conf f]
      show ?thesis
      proof (cases err)
        case None
        have "length (unread s' @ pending r') + length (pending r')
            < length (unread s @ pending r) + length (pending r)"
          using fc(5,6) None by (metis add_strict_left_mono)
        from less.hyps [OF this fc(1)] show ?thesis
          using True None by (simp add: Next_unfold [OF ok] Inl f next_post_def fc(2,5))
      next
        case (Some x)
        with fc(7) have "deframe (srMagic s) (unread s @ pending r) = []" "x = ReadErr fin"
          using Inl True by (simp_all add: deframe_short)
        then show ?thesis
          using True Some fc(1,2) by (simp add: Next_unfold [OF ok] Inl f next_post_def)
      qed
    qed
  qed
qed

lemma readLoop_deframe:
  assumes conf: "conforming read pending fin" and "sr_ok s"
  shows "\<exists>s'. readLoop read s r = Some (deframe (srMagic s) (unread s @ pending r), ReadErr fin, s')"
  using assms(2)
proof (induction "deframe (srMagic s) (unread s @ pending r)" arbitrary: s r)
  case Nil
  from Next_post [OF conf Nil.prems, of r] Nil.hyps show ?case
    by (subst readLoop.simps) (auto simp: next_post_def split: list.splits)
next
  case (Cons f fs)
  from Next_post [OF conf Cons.prems, of r] obtain s' r' where
    n: "Next read s r = Some (Inr f, s', r')" and ok': "sr_ok s'" and m: "srMagic s' = srMagic s"
    and fs: "fs = deframe (srMagic s') (unread s' @ pending r')"
    using Cons.hyps(2) by (fastforce simp: next_post_def split: list.splits)
  from Cons.hyps(1) [OF fs ok'] show ?case
    by (subst readLoop.simps) (auto simp: n fs m simp flip: Cons.hyps(2))
qed

section \<open>Streams without corruption\<close>

lemma deframe_concat:
  "\<forall>f \<in> set fs. frame_ok m f \<Longrightarrow> deframe m (concat (map Encode fs) @ rest) = fs @ deframe m rest"
proof (induction fs)
  case Nil
  then show ?case by simp
next
  case (Cons f fs)
  then have d: "Decode (Encode f @ concat (map Encode fs) @ rest) m = Inr (f, length (Encode f))"
    by (simp add: Decode_Encode_append length_Encode)
  from deframe_frame [OF d] Cons show ?case by simp
qed

lemma Next_clean:
  assumes conf: "conforming read pending fin" and "sr_ok s"
    and "Decode (unread s @ pending r) (srMagic s) = Inr (f, n)"
  shows "\<exists>s' r'. Next read s r = Some (Inr f, s', r') \<and> sr_ok s' \<and> srMagic s' = srMagic s
     \<and> srResyncs s' = srResyncs s \<and> srDesync s' = srDesync s
     \<and> unread s' @ pending r' = drop n (unread s @ pending r)"
  using assms(2,3)
proof (induction "length (pending r)" arbitrary: s r rule: less_induct)
  case less
  note ok = less.prems(1)
  show ?case
  proof (cases "Decode (unread s) (srMagic s) = Inl ErrShort")
    case False
    with less.prems(2) have d: "Decode (unread s) (srMagic s) = Inr (f, n)"
      using Decode_extend [OF False, of "pending r"] by simp
    from Decode_consumed [OF d] sr_ok_advance [OF ok, of n] show ?thesis
      by (simp add: Next_unfold [OF ok] d)
  next
    case True
    then have room: "length (unread s) < bufCap"
      by (auto simp: Decode_ErrShort_iff bufCap_def)
    obtain err s' r' where fl: "fill read s r = (err, s', r')" by (metis prod_cases3)
    note fc = fill_conforming [OF ok room conf fl]
    have "err = None"
      using fc(7) less.prems(2) True by (cases err) auto
    with less.hyps [OF fc(6) fc(1)] less.prems(2) True show ?thesis
      by (simp add: Next_unfold [OF ok] fl fc(2-5))
  qed
qed

lemma Next_end:
  assumes conf: "conforming read pending fin" and ok: "sr_ok s" and "unread s @ pending r = []"
  shows "\<exists>s' r'. Next read s r = Some (Inl (ReadErr fin), s', r') \<and> srResyncs s' = srResyncs s
     \<and> srDesync s' = srDesync s"
proof -
  obtain err s' r' where fl: "fill read s r = (err, s', r')" by (metis prod_cases3)
  have room: "length (unread s) < bufCap" using assms(3) by (simp add: bufCap_def)
  note fc = fill_conforming [OF ok room conf fl]
  have "err = Some (ReadErr fin)" using fc(6,7) assms(3) by (cases err) auto
  moreover have "Decode (unread s) (srMagic s) = Inl ErrShort"
    using assms(3) by (simp add: Decode_ErrShort_iff)
  ultimately show ?thesis
    by (simp add: Next_unfold [OF ok] fl fc(3,4))
qed

lemma readLoop_clean:
  assumes conf: "conforming read pending fin" and "\<forall>f \<in> set fs. frame_ok (srMagic s) f"
    and "sr_ok s" and "unread s @ pending r = concat (map Encode fs)"
  shows "\<exists>s'. readLoop read s r = Some (fs, ReadErr fin, s') \<and> srResyncs s' = srResyncs s
     \<and> srDesync s' = srDesync s"
  using assms(2-)
proof (induction fs arbitrary: s r)
  case Nil
  then have "unread s @ pending r = []" by simp
  from Next_end [OF conf Nil.prems(2) this] show ?case
    by (subst readLoop.simps) auto
next
  case (Cons f fs)
  have e: "unread s @ pending r = Encode f @ concat (map Encode fs)"
    using Cons.prems(3) by simp
  have "Decode (unread s @ pending r) (srMagic s) = Inr (f, length (Encode f))"
    unfolding e using Cons.prems(1) by (simp add: Decode_Encode_append length_Encode)
  from Next_clean [OF conf Cons.prems(2) this] obtain s' r' where
    n: "Next read s r = Some (Inr f, s', r')" "sr_ok s'" "srMagic s' = srMagic s"
      "srResyncs s' = srResyncs s" "srDesync s' = srDesync s"
    and u: "unread s' @ pending r' = concat (map Encode fs)"
    unfolding e by auto
  from Cons.IH [of s' r'] Cons.prems(1) n u obtain s2 where
    "readLoop read s' r' = Some (fs, ReadErr fin, s2)" "srResyncs s2 = srResyncs s"
    "srDesync s2 = srDesync s" by auto
  with n show ?case by (subst readLoop.simps) auto
qed

section \<open>A reader to evaluate on\<close>

text \<open>A connection that delivers its bytes in the given segments and then reports end of file.\<close>

fun chunkRead :: "byte list list \<Rightarrow> nat \<Rightarrow> byte list \<times> string option \<times> byte list list" where
  "chunkRead [] n = ([], Some ''EOF'', [])"
| "chunkRead (c # cs) n =
     (if c = [] then chunkRead cs n
      else if length c \<le> n then (c, None, cs) else (take n c, None, drop n c # cs))"

lemma chunkRead_conforming: "conforming chunkRead concat ''EOF''"
proof -
  have "length bs \<le> n \<and> concat r = bs @ concat r' \<and> (bs = [] \<longrightarrow> err = Some ''EOF'' \<and> concat r = [])"
    if "0 < n" and "chunkRead r n = (bs, err, r')" for r n bs err r'
    using that
    by (induction r n rule: chunkRead.induct) (auto split: if_splits)
  then show ?thesis unfolding conforming_def by blast
qed

section \<open>Properties\<close>

text \<open>
  C37: the incremental reader is the reference deframer. However a conforming connection cuts
  its byte stream into reads, the read loop of a leg ends, with the connection's own error
  and never with "frame exceeds", and has yielded exactly the frames of the whole stream.
\<close>

theorem stream_deframes:
  assumes "conforming read pending fin"
  shows "\<exists>s'. readLoop read (NewStreamReader m cb) r
     = Some (deframe (effMagic m) (pending r), ReadErr fin, s')"
  using readLoop_deframe [OF assms, of "NewStreamReader m cb" r] by simp

theorem stream_deframes_witness:
  "\<exists>s'. readLoop chunkRead (NewStreamReader 0 True) [[120, 86], [52, 18, 10, 0, 0, 0], [1, 2, 3, 4, 3, 0, 0, 0, 0, 7]]
     = Some ([\<lparr>frMagic = DefaultMagic, frIcgID = 0x04030201, frType = 3, frOpcode = 0, frSeq = 7, frBody = []\<rparr>],
             ReadErr ''EOF'', s')"
proof -
  let ?f = "\<lparr>frMagic = DefaultMagic, frIcgID = 0x04030201, frType = 3, frOpcode = 0, frSeq = 7, frBody = []\<rparr> :: Frame"
  have "Encode ?f = concat [[120, 86], [52, 18, 10, 0, 0, 0], [1, 2, 3, 4, 3, 0, 0, 0, 0, 7]]"
    by (simp add: Encode_split effMagic_def DefaultMagic_def le32_def be32_def)
  moreover have "frame_ok DefaultMagic ?f"
    by (simp add: frame_ok_def effMagic_def)
  ultimately have "deframe DefaultMagic (concat [[120, 86], [52, 18, 10, 0, 0, 0], [1, 2, 3, 4, 3, 0, 0, 0, 0, 7]]) = [?f]"
    using deframe_concat [of "[?f]" DefaultMagic "[]"] by (simp add: deframe_short Decode_ErrShort_iff)
  then show ?thesis
    using stream_deframes [OF chunkRead_conforming, of 0 True
        "[[120, 86], [52, 18, 10, 0, 0, 0], [1, 2, 3, 4, 3, 0, 0, 0, 0, 7]]"]
    by (simp add: effMagic_def)
qed

text \<open>
  A stream of well-formed frames is read back frame for frame, with no resynchronisation
  counted and nothing reported to \<open>OnDesync\<close>.
\<close>

lemma stream_clean:
  assumes "conforming read pending fin" and "\<forall>f \<in> set fs. frame_ok m f"
    and "pending r = concat (map Encode fs)"
  shows "\<exists>s'. readLoop read (NewStreamReader m cb) r = Some (fs, ReadErr fin, s')
     \<and> srResyncs s' = 0 \<and> srDesync s' = []"
proof -
  have "\<forall>f \<in> set fs. frame_ok (srMagic (NewStreamReader m cb)) f"
    using assms(2) by (simp add: frame_ok_def)
  from readLoop_clean [OF assms(1) this, of r] assms(3) show ?thesis
    by simp
qed

text \<open>
  Recovery. Garbage in front of well-formed frames costs no frame: when the magic occurs
  nowhere before the first frame, the reader drops exactly the garbage and yields every frame.
\<close>

lemma stream_recovers:
  assumes "conforming read pending fin" and "\<forall>f \<in> set fs. frame_ok m f"
    and "pending r = garbage @ concat (map Encode fs)"
    and "\<forall>q < length garbage. \<not> matchAt (le32 (effMagic m)) (pending r) q"
  shows "\<exists>s'. readLoop read (NewStreamReader m cb) r = Some (fs, ReadErr fin, s')"
proof -
  let ?m = "effMagic m"
  let ?b = "concat (map Encode fs)"
  have skip: "deframe ?m (garbage @ ?b) = deframe ?m (drop (length garbage) (garbage @ ?b))"
  proof (rule deframe_skip, intro allI impI)
    fix q assume q: "q < length garbage"
    show "length (drop q (garbage @ ?b)) < 8
        \<or> (\<exists>e. Decode (drop q (garbage @ ?b)) ?m = Inl e \<and> e \<noteq> ErrShort)"
    proof (cases "q + 4 \<le> length (garbage @ ?b)")
      case True
      with assms(3,4) q not_match_Decode [of ?m "garbage @ ?b" q "[]"] show ?thesis by simp
    next
      case False
      then show ?thesis by auto
    qed
  qed
  have "\<forall>f \<in> set fs. frame_ok ?m f" using assms(2) by (simp add: frame_ok_def)
  from deframe_concat [OF this, of "[]"] have "deframe ?m ?b = fs"
    by (simp add: deframe_short Decode_ErrShort_iff)
  with skip readLoop_deframe [OF assms(1), of "NewStreamReader m cb" r] assms(3) show ?thesis
    by simp
qed

end
