(* ===== verification/Body.thy ===== *)
theory Body
  imports Opcode Codec
begin

text \<open>
  \<open>icg/body.go\<close>: the payloads inside a frame. An IPv4 \<open>netip.Addr\<close> is its 32-bit value
  in network order (\<open>AddrFrom4\<close> is \<open>beU32\<close>, \<open>As4\<close> is \<open>be32\<close>); the package never builds
  another kind of address. Fixed-size Go arrays are lists whose length the parsers
  establish and the encoders rely on.
\<close>

type_synonym addr = u32

datatype AddrPort = AddrPort (apAddr: addr) (apPort: u16)

datatype body_error = ErrBodyShort nat nat | ErrSeqCount nat

definition addr4 :: "byte list \<Rightarrow> addr" where "addr4 b = beU32 b"

definition as4 :: "addr \<Rightarrow> byte list" where "as4 a = be32 a"

section \<open>TCP data\<close>

definition TCPHdrLen :: nat where [simp]: "TCPHdrLen = 18"

record TCPBody =
  tbSeq :: u32
  tbOpcode :: u16
  tbSrc :: AddrPort
  tbDst :: AddrPort
  tbData :: "byte list"

definition ParseTCPBody :: "byte list \<Rightarrow> body_error + TCPBody" where
  "ParseTCPBody b =
     (if length b < TCPHdrLen then Inl (ErrBodyShort (length b) TCPHdrLen)
      else Inr \<lparr>tbSeq = leU32 b,
                tbOpcode = leU16 (drop 4 b),
                tbSrc = AddrPort (addr4 (take 4 (drop 6 b))) (beU16 (drop 14 b)),
                tbDst = AddrPort (addr4 (take 4 (drop 10 b))) (beU16 (drop 16 b)),
                tbData = drop TCPHdrLen b\<rparr>)"

definition tcpAppendTo :: "TCPBody \<Rightarrow> byte list \<Rightarrow> byte list" where
  "tcpAppendTo t dst =
     dst @ (le32 (tbSeq t) @ le16 (tbOpcode t) @ as4 (apAddr (tbSrc t)) @ as4 (apAddr (tbDst t))
            @ be16 (apPort (tbSrc t)) @ be16 (apPort (tbDst t)))
         @ tbData t"

datatype Flow = Flow (flClient: AddrPort) (flServer: AddrPort)

definition UpFlow :: "TCPBody \<Rightarrow> Flow" where
  "UpFlow t = Flow (tbSrc t) (tbDst t)"

definition DownBody :: "Flow \<Rightarrow> u32 \<Rightarrow> u16 \<Rightarrow> byte list \<Rightarrow> TCPBody" where
  "DownBody f seq p data =
     \<lparr>tbSeq = seq, tbOpcode = p, tbSrc = flServer f, tbDst = flClient f, tbData = data\<rparr>"

section \<open>Retransmit requests\<close>

definition SeqListMax :: nat where [simp]: "SeqListMax = 50"
definition SeqListLen :: nat where [simp]: "SeqListLen = 4 + 4 * SeqListMax"

definition ParseSeqList :: "byte list \<Rightarrow> body_error + u32 list" where
  "ParseSeqList b =
     (if length b < 4 then Inl (ErrBodyShort (length b) 4)
      else let n = unat (beU32 b)
           in if n > SeqListMax then Inl (ErrSeqCount n)
              else if length b < 4 + 4 * n then Inl (ErrBodyShort (length b) (4 + 4 * n))
              else Inr (map (\<lambda>i. beU32 (drop (4 + 4 * i) b)) [0..<n]))"

definition AppendSeqList :: "byte list \<Rightarrow> u32 list \<Rightarrow> byte list" where
  "AppendSeqList dst seqs =
     (let seqs = (if length seqs > SeqListMax then take SeqListMax seqs else seqs)
      in dst @ be32 (of_nat (length seqs)) @ concat (map be32 seqs)
             @ replicate (SeqListLen - 4 - 4 * length seqs) 0)"

section \<open>UDP-leg round-trip probes\<close>

definition RTTBodyLen :: nat where [simp]: "RTTBodyLen = 25"

record RTTBody =
  rbSeq :: u32
  rbClientMS :: u64
  rbServerMS :: u64
  rbTrailer :: "byte list"

text \<open>Milliseconds in two little-endian words, high word first.\<close>

definition splitMS :: "byte list \<Rightarrow> u64" where
  "splitMS b = push_bit 32 (ucast (leU32 b)) OR ucast (leU32 (drop 4 b))"

definition putSplitMS :: "u64 \<Rightarrow> byte list" where
  "putSplitMS v = le32 (ucast (drop_bit 32 v)) @ le32 (ucast v)"

definition ParseRTTBody :: "byte list \<Rightarrow> body_error + RTTBody" where
  "ParseRTTBody b =
     (if length b < RTTBodyLen then Inl (ErrBodyShort (length b) RTTBodyLen)
      else Inr \<lparr>rbSeq = leU32 b, rbClientMS = splitMS (drop 4 b), rbServerMS = splitMS (drop 12 b),
                rbTrailer = take 5 (drop 20 b)\<rparr>)"

definition rttAppendTo :: "RTTBody \<Rightarrow> byte list \<Rightarrow> byte list" where
  "rttAppendTo r dst =
     dst @ le32 (rbSeq r) @ putSplitMS (rbClientMS r) @ putSplitMS (rbServerMS r) @ rbTrailer r"

definition Reply :: "RTTBody \<Rightarrow> instant \<Rightarrow> RTTBody" where
  "Reply r now = r\<lparr>rbServerMS := word_of_int (UnixMilli now)\<rparr>"

section \<open>The handshake request and the fake ping\<close>

definition HandshakeReqLen :: nat where [simp]: "HandshakeReqLen = 50"

record HandshakeReq =
  hrMAC :: "byte list"
  hrIcgID :: addr
  hrUnknown :: "byte list"

definition ParseHandshakeReq :: "byte list \<Rightarrow> body_error + HandshakeReq" where
  "ParseHandshakeReq b =
     (if length b < HandshakeReqLen then Inl (ErrBodyShort (length b) HandshakeReqLen)
      else Inr \<lparr>hrMAC = take 6 b, hrIcgID = addr4 (take 4 (drop 6 b)),
                hrUnknown = take 40 (drop 10 b)\<rparr>)"

definition TunnelIDFromFakePing :: "byte list \<Rightarrow> int option" where
  "TunnelIDFromFakePing payload =
     (if length payload < 28 + 6 \<or> drop_bit 4 (payload ! 0) \<noteq> 4 then None
      else if payload ! 9 \<noteq> 1 then None
      else if payload ! 28 \<noteq> 0x02 \<or> payload ! (28 + 1) \<noteq> 0x04 then None
      else Some (uint (leU32 (take 4 (drop (28 + 2) payload)))))"

section \<open>Lemmas\<close>

lemma beU32_take [simp]: "4 \<le> k \<Longrightarrow> beU32 (take k b) = beU32 b"
  by (simp add: beU32_def)

lemma addr4_as4 [codec_simps, simp]: "addr4 (as4 a) = a" "addr4 (as4 a @ rest) = a"
  and length_as4 [simp]: "length (as4 a) = 4"
  by (simp_all add: addr4_def as4_def)

lemma ParseTCPBody_append: "ParseTCPBody (tcpAppendTo t [] ) = Inr t"
proof -
  have "drop 4 (tcpAppendTo t []) = le16 (tbOpcode t) @ as4 (apAddr (tbSrc t)) @ as4 (apAddr (tbDst t))
      @ be16 (apPort (tbSrc t)) @ be16 (apPort (tbDst t)) @ tbData t"
    by (simp add: tcpAppendTo_def)
  moreover have "drop 6 (tcpAppendTo t []) = as4 (apAddr (tbSrc t)) @ as4 (apAddr (tbDst t))
      @ be16 (apPort (tbSrc t)) @ be16 (apPort (tbDst t)) @ tbData t"
    by (simp add: tcpAppendTo_def)
  moreover have "drop 10 (tcpAppendTo t []) = as4 (apAddr (tbDst t))
      @ be16 (apPort (tbSrc t)) @ be16 (apPort (tbDst t)) @ tbData t"
    by (simp add: tcpAppendTo_def)
  moreover have "drop 14 (tcpAppendTo t []) = be16 (apPort (tbSrc t)) @ be16 (apPort (tbDst t)) @ tbData t"
    by (simp add: tcpAppendTo_def)
  moreover have "drop 16 (tcpAppendTo t []) = be16 (apPort (tbDst t)) @ tbData t"
    by (simp add: tcpAppendTo_def)
  moreover have "drop 18 (tcpAppendTo t []) = tbData t" "leU32 (tcpAppendTo t []) = tbSeq t"
    "18 \<le> length (tcpAppendTo t [])"
    by (simp_all add: tcpAppendTo_def)
  ultimately show ?thesis
    by (simp add: ParseTCPBody_def)
qed

lemma tcpAppendTo_Parse:
  assumes "ParseTCPBody b = Inr t"
  shows "tcpAppendTo t [] = b"
proof -
  have len: "18 \<le> length b"
    and t: "t = \<lparr>tbSeq = leU32 b, tbOpcode = leU16 (drop 4 b),
        tbSrc = AddrPort (beU32 (drop 6 b)) (beU16 (drop 14 b)),
        tbDst = AddrPort (beU32 (drop 10 b)) (beU16 (drop 16 b)), tbData = drop 18 b\<rparr>"
    using assms by (auto simp: ParseTCPBody_def addr4_def split: if_splits)
  have "b = take (4 + (2 + (4 + (4 + (2 + 2))))) b @ drop 18 b" by simp
  also have "take (4 + (2 + (4 + (4 + (2 + 2))))) b = take 4 b @ take 2 (drop 4 b) @ take 4 (drop 6 b)
      @ take 4 (drop 10 b) @ take 2 (drop 14 b) @ take 2 (drop 16 b)"
    by (simp only: take_add drop_drop) simp
  finally show ?thesis
    using len by (simp add: t tcpAppendTo_def as4_def le_put_get)
qed

lemma concat_be32_length [simp]: "length (concat (map be32 xs)) = 4 * length xs"
  by (induction xs) simp_all

lemma drop_concat_be32:
  "i < length xs \<Longrightarrow> beU32 (drop (4 * i) (concat (map be32 xs) @ rest)) = xs ! i"
proof (induction xs arbitrary: i)
  case Nil
  then show ?case by simp
next
  case (Cons x xs)
  show ?case
  proof (cases i)
    case 0
    then show ?thesis by simp
  next
    case (Suc j)
    then have "drop (4 * i) (concat (map be32 (x # xs)) @ rest) = drop (4 * j) (concat (map be32 xs) @ rest)"
      by simp
    with Cons Suc show ?thesis by simp
  qed
qed

lemma length_AppendSeqList: "length (AppendSeqList [] seqs) = SeqListLen"
  by (auto simp: AppendSeqList_def Let_def)

lemma ParseSeqList_append: "ParseSeqList (AppendSeqList [] seqs @ rest) = Inr (take SeqListMax seqs)"
proof -
  let ?s = "take 50 seqs"
  have s: "(if length seqs > SeqListMax then take SeqListMax seqs else seqs) = ?s" by simp
  have n: "unat (of_nat (length ?s) :: u32) = length ?s"
    by (simp add: unsigned_of_nat take_bit_nat_eq_self)
  let ?b = "be32 (of_nat (length ?s)) @ concat (map be32 ?s) @ replicate (200 - 4 * length ?s) 0 @ rest"
  have b: "AppendSeqList [] seqs @ rest = ?b"
    unfolding AppendSeqList_def Let_def s by simp
  have "beU32 (drop (4 + 4 * i) ?b) = ?s ! i" if "i < length ?s" for i
  proof -
    have "drop (4 + 4 * i) ?b = drop (4 * i) (concat (map be32 ?s) @ replicate (200 - 4 * length ?s) 0 @ rest)"
      by (simp add: add.commute [of 4] flip: drop_drop)
    then show ?thesis by (simp only: drop_concat_be32 [OF that])
  qed
  then have "map (\<lambda>i. beU32 (drop (4 + 4 * i) ?b)) [0..<length ?s] = map ((!) ?s) [0..<length ?s]"
    by (intro map_cong) simp_all
  also have "\<dots> = ?s" by (rule map_nth)
  finally have out: "map (\<lambda>i. beU32 (drop (4 + 4 * i) ?b)) [0..<length ?s] = ?s" .
  have "beU32 ?b = of_nat (length ?s)" by simp
  then show ?thesis
    unfolding b ParseSeqList_def Let_def using n out by simp
qed

lemma splitMS_put [codec_simps]: "splitMS (putSplitMS v @ rest) = v"
  by (rule bit_word_eqI) (auto simp: splitMS_def putSplitMS_def bit_simps)

definition rtt_ok :: "RTTBody \<Rightarrow> bool" where
  "rtt_ok r \<longleftrightarrow> length (rbTrailer r) = 5"

lemma length_putSplitMS [simp]: "length (putSplitMS v) = 8"
  by (simp add: putSplitMS_def)

lemma ParseRTTBody_append: "rtt_ok r \<Longrightarrow> ParseRTTBody (rttAppendTo r [] @ rest) = Inr r"
  by (simp add: ParseRTTBody_def rttAppendTo_def splitMS_put rtt_ok_def)

lemma ParseRTTBody_ok: "ParseRTTBody b = Inr r \<Longrightarrow> rtt_ok r"
  by (auto simp: ParseRTTBody_def rtt_ok_def split: if_splits)

section \<open>The payloads as codecs\<close>

interpretation tcp_body: codec "\<lambda>t. tcpAppendTo t []" ParseTCPBody "\<lambda>_. True"
  by unfold_locales (rule ParseTCPBody_append)

interpretation seq_list: codec "AppendSeqList []" ParseSeqList "\<lambda>s. length s \<le> SeqListMax"
  by unfold_locales (use ParseSeqList_append [where rest = "[]"] in simp)

interpretation rtt_body: codec "\<lambda>r. rttAppendTo r []" ParseRTTBody rtt_ok
  by unfold_locales (use ParseRTTBody_append [where rest = "[]"] in simp)

section \<open>Properties\<close>

text \<open>
  The TCP data layout is a bijection. A payload parses to a body exactly when it is that
  body's encoding, mixed byte orders and all; so nothing of an accepted payload is lost.
\<close>

lemma tcp_body_roundtrip: "ParseTCPBody b = Inr t \<longleftrightarrow> b = tcpAppendTo t []"
  using ParseTCPBody_append tcpAppendTo_Parse by auto

text \<open>
  A retransmit request always takes the 204 bytes of the device's own layout, and reads
  back as the first 50 sequence numbers asked for, whatever padding follows.
\<close>

lemma seq_list_roundtrip:
  "length (AppendSeqList [] seqs) = SeqListLen
   \<and> ParseSeqList (AppendSeqList [] seqs @ rest) = Inr (take SeqListMax seqs)"
  by (simp only: length_AppendSeqList ParseSeqList_append)

text \<open>
  The answer to a round-trip probe echoes the client's sequence number, its timestamp and
  its trailer bit for bit, and differs only in the server's clock.
\<close>

lemma rtt_reply_echoes:
  assumes "ParseRTTBody b = Inr r"
  shows "ParseRTTBody (rttAppendTo (Reply r now) []) = Inr (r\<lparr>rbServerMS := word_of_int (UnixMilli now)\<rparr>)
    \<and> take 12 (rttAppendTo (Reply r now) []) = take 12 b
    \<and> drop 20 (rttAppendTo (Reply r now) []) = take 5 (drop 20 b)"
proof -
  have len: "25 \<le> length b" and r: "r = \<lparr>rbSeq = leU32 b, rbClientMS = splitMS (drop 4 b),
      rbServerMS = splitMS (drop 12 b), rbTrailer = take 5 (drop 20 b)\<rparr>"
    using assms by (auto simp: ParseRTTBody_def split: if_splits)
  have ok: "rtt_ok (Reply r now)"
    using ParseRTTBody_ok [OF assms] by (simp add: rtt_ok_def Reply_def)
  have hi: "ucast (drop_bit 32 (splitMS c)) = leU32 c" "ucast (splitMS c) = leU32 (drop 4 c)" for c
    unfolding splitMS_def by (rule bit_word_eqI; auto simp: bit_simps dest: bit_imp_le_length)+
  have "take (4 + (4 + 4)) b = take 4 b @ take 4 (drop 4 b) @ take 4 (drop 8 b)"
    by (simp only: take_add drop_drop) simp
  then have "take 12 b = le32 (leU32 b) @ putSplitMS (splitMS (drop 4 b))"
    using len by (simp add: putSplitMS_def hi le_put_get)
  then show ?thesis
    using ParseRTTBody_append [OF ok, of "[]"] by (simp add: Reply_def r rttAppendTo_def)
qed

end
