(* ===== verification/Reorder.thy ===== *)
theory Reorder
  imports Prelude
begin

text \<open>
  \<open>icg/concentrator/reorder.go\<close>: reassembly of one global sequence space. The Go type is
  generic in the packet; the record is polymorphic. Two clocks appear, as in the source:
  \<open>now\<close>, which callers pass in, and \<open>wall\<close>, what \<open>time.Now()\<close> returns inside \<open>drain\<close>.
\<close>

section \<open>State\<close>

record 'a pending =
  pdVal :: 'a
  pdAt :: instant

record 'a Reorder =
  rNext :: u32
  rStarted :: bool
  rSettle :: duration
  rFirstSeen :: instant
  rPend :: "(u32 \<times> 'a pending) list"
  rMaxPend :: int
  rRetransmitAfter :: duration
  rSkipAfter :: duration
  rBlockedSince :: instant
  rLastRequest :: instant
  rDelivered :: u64
  rDuplicated :: u64
  rLate :: u64
  rSkipped :: u64
  rRequested :: u64
  rMaxSeen :: u32

record ReorderConfig =
  rcMaxPending :: int
  rcRetransmitAfter :: duration
  rcSkipAfter :: duration
  rcSettle :: duration

definition NewReorder :: "ReorderConfig \<Rightarrow> 'a Reorder" where
  "NewReorder cfg =
     (let cfg = (if rcMaxPending cfg \<le> 0 then cfg\<lparr>rcMaxPending := 4096\<rparr> else cfg);
          cfg = (if rcRetransmitAfter cfg \<le> 0 then cfg\<lparr>rcRetransmitAfter := 60 * Millisecond\<rparr> else cfg);
          cfg = (if rcSkipAfter cfg \<le> 0 then cfg\<lparr>rcSkipAfter := 1500 * Millisecond\<rparr> else cfg);
          cfg = (if rcSettle cfg = 0 then cfg\<lparr>rcSettle := 25 * Millisecond\<rparr>
                 else if rcSettle cfg < 0 then cfg\<lparr>rcSettle := 0\<rparr> else cfg)
      in \<lparr>rNext = 0, rStarted = False, rSettle = rcSettle cfg, rFirstSeen = 0, rPend = [],
          rMaxPend = rcMaxPending cfg, rRetransmitAfter = rcRetransmitAfter cfg,
          rSkipAfter = rcSkipAfter cfg, rBlockedSince = 0, rLastRequest = 0,
          rDelivered = 0, rDuplicated = 0, rLate = 0, rSkipped = 0, rRequested = 0, rMaxSeen = 0\<rparr>)"

section \<open>Operations\<close>

text \<open>\<open>int32(seq - next)\<close>: the signed distance, which wraps.\<close>

definition diff :: "u32 \<Rightarrow> u32 \<Rightarrow> int" where
  "diff seq nxt = sint (seq - nxt)"

text \<open>The \<open>range\<close> loop of \<open>lowest\<close>, over the keys in the order the map yields them.\<close>

fun lowestLoop :: "u32 list \<Rightarrow> u32 \<Rightarrow> bool \<Rightarrow> u32 \<times> bool" where
  "lowestLoop [] best first = (best, first)"
| "lowestLoop (s # ss) best first =
     (if first \<or> diff s best < 0 then lowestLoop ss s False else lowestLoop ss best first)"

definition lowest :: "'a Reorder \<Rightarrow> u32 option" where
  "lowest r = (case lowestLoop (map fst (rPend r)) 0 True of
                 (best, first) \<Rightarrow> if first then None else Some best)"

function drainLoop :: "'a Reorder \<Rightarrow> 'a list \<Rightarrow> 'a Reorder \<times> 'a list" where
  "drainLoop r out =
     (case map_of (rPend r) (rNext r) of
        None \<Rightarrow> (r, out)
      | Some p \<Rightarrow> drainLoop (r\<lparr>rPend := AList.delete (rNext r) (rPend r), rNext := rNext r + 1,
                              rDelivered := rDelivered r + 1\<rparr>) (out @ [pdVal p]))"
  by pat_completeness auto
termination
  by (relation "measure (\<lambda>(r, out). length (rPend r))") (auto simp: length_delete_less)

declare drainLoop.simps [simp del]

definition drain :: "'a Reorder \<Rightarrow> 'a list \<Rightarrow> instant \<Rightarrow> 'a Reorder \<times> 'a list" where
  "drain r out wall =
     (case drainLoop r out of
        (r, out) \<Rightarrow> (if rPend r = [] then r\<lparr>rBlockedSince := 0\<rparr> else r\<lparr>rBlockedSince := wall\<rparr>, out))"

definition latch :: "'a Reorder \<Rightarrow> instant \<Rightarrow> instant \<Rightarrow> 'a Reorder \<times> 'a list" where
  "latch r now wall =
     (case lowest r of
        None \<Rightarrow> (r, [])
      | Some l \<Rightarrow> drain (r\<lparr>rStarted := True, rNext := l, rBlockedSince := now\<rparr>) [] wall)"

definition skipToLowest :: "'a Reorder \<Rightarrow> instant \<Rightarrow> instant \<Rightarrow> 'a Reorder \<times> 'a list" where
  "skipToLowest r now wall =
     (case lowest r of
        None \<Rightarrow> (r, [])
      | Some l \<Rightarrow>
          let n = diff l (rNext r);
              r = (if n > 0 then r\<lparr>rSkipped := rSkipped r + word_of_int n\<rparr> else r)
          in drain (r\<lparr>rNext := l, rBlockedSince := now\<rparr>) [] wall)"

text \<open>The three updates that \<open>Push\<close> is made of, on their own.\<close>

definition bumpMaxSeen :: "'a Reorder \<Rightarrow> u32 \<Rightarrow> 'a Reorder" where
  "bumpMaxSeen r seq = (if diff seq (rMaxSeen r) > 0 then r\<lparr>rMaxSeen := seq\<rparr> else r)"

definition markFirst :: "'a Reorder \<Rightarrow> u32 \<Rightarrow> instant \<Rightarrow> 'a Reorder" where
  "markFirst r seq now =
     (if IsZero (rFirstSeen r) then r\<lparr>rFirstSeen := now, rMaxSeen := seq\<rparr> else r)"

definition hold :: "'a Reorder \<Rightarrow> u32 \<Rightarrow> 'a \<Rightarrow> instant \<Rightarrow> 'a Reorder" where
  "hold r seq v now = r\<lparr>rPend := AList.update seq \<lparr>pdVal = v, pdAt = now\<rparr> (rPend r)\<rparr>"

definition markBlocked :: "'a Reorder \<Rightarrow> instant \<Rightarrow> 'a Reorder" where
  "markBlocked r now = (if IsZero (rBlockedSince r) then r\<lparr>rBlockedSince := now\<rparr> else r)"

definition Push :: "'a Reorder \<Rightarrow> u32 \<Rightarrow> 'a \<Rightarrow> instant \<Rightarrow> instant \<Rightarrow> 'a Reorder \<times> 'a list" where
  "Push r seq v now wall =
     (if \<not> rStarted r then
        let r = bumpMaxSeen (markFirst r seq now) seq
        in if map_of (rPend r) seq \<noteq> None then (r\<lparr>rDuplicated := rDuplicated r + 1\<rparr>, [])
           else let r = hold r seq v now
                in if timeSub now (rFirstSeen r) < rSettle r \<and> int (length (rPend r)) \<le> rMaxPend r
                   then (r, [])
                   else latch r now wall
      else
        let r = bumpMaxSeen r seq;
            d = diff seq (rNext r)
        in if d < 0 then (r\<lparr>rLate := rLate r + 1\<rparr>, [])
           else if d = 0 then
             drain (r\<lparr>rNext := rNext r + 1, rDelivered := rDelivered r + 1\<rparr>) [v] wall
           else if map_of (rPend r) seq \<noteq> None then (r\<lparr>rDuplicated := rDuplicated r + 1\<rparr>, [])
           else let r = markBlocked (hold r seq v now) now
                in if int (length (rPend r)) > rMaxPend r then skipToLowest r now wall
                   else (r, []))"

text \<open>
  The loop of \<open>Missing\<close>. It runs while \<open>diff s MaxSeen \<le> 0\<close>, so at most \<open>2^31 + 1\<close> times:
  each turn brings the distance one closer to its end.
\<close>

function missingLoop :: "(u32 \<times> 'a pending) list \<Rightarrow> u32 \<Rightarrow> int \<Rightarrow> u32 \<Rightarrow> u32 list \<Rightarrow> u32 list" where
  "missingLoop pend maxSeen limit s out =
     (if diff s maxSeen \<le> 0 \<and> int (length out) < limit
      then missingLoop pend maxSeen limit (s + 1)
             (if map_of pend s = None then out @ [s] else out)
      else out)"
  by pat_completeness auto
termination
proof (relation "measure (\<lambda>(pend, maxSeen, limit, s, out). nat (1 - diff s maxSeen))", goal_cases)
  case 1
  show ?case by simp
next
  case (2 pend maxSeen limit s out)
  then have le: "sint (s - maxSeen) \<le> 0" by (simp add: diff_def)
  have "sint (s + 1 - maxSeen) = sint (s - maxSeen + 1)" by (simp add: algebra_simps)
  also have "\<dots> = sint (s - maxSeen) + 1"
    using le sint_ge [of "s - maxSeen"] by (simp add: sint_word_ariths signed_take_bit_int_eq_self)
  finally show ?case using le by (simp add: diff_def)
qed

declare missingLoop.simps [simp del]

definition Missing :: "'a Reorder \<Rightarrow> instant \<Rightarrow> int \<Rightarrow> 'a Reorder \<times> u32 list" where
  "Missing r now limit =
     (if \<not> rStarted r \<or> rPend r = [] \<or> IsZero (rBlockedSince r) then (r, [])
      else if timeSub now (rBlockedSince r) < rRetransmitAfter r then (r, [])
      else if \<not> IsZero (rLastRequest r) \<and> timeSub now (rLastRequest r) < rRetransmitAfter r then (r, [])
      else let r = r\<lparr>rLastRequest := now\<rparr>;
               out = missingLoop (rPend r) (rMaxSeen r) limit (rNext r) []
           in (r\<lparr>rRequested := rRequested r + of_nat (length out)\<rparr>, out))"

definition Expire :: "'a Reorder \<Rightarrow> instant \<Rightarrow> instant \<Rightarrow> 'a Reorder \<times> 'a list" where
  "Expire r now wall =
     (if \<not> rStarted r then
        if length (rPend r) > 0 \<and> timeSub now (rFirstSeen r) \<ge> rSettle r then latch r now wall
        else (r, [])
      else if rPend r = [] \<or> IsZero (rBlockedSince r) then (r, [])
      else if timeSub now (rBlockedSince r) < rSkipAfter r then (r, [])
      else skipToLowest r now wall)"

definition Ack :: "'a Reorder \<Rightarrow> u32 option" where
  "Ack r = (if \<not> rStarted r then None else Some (rNext r - 1))"

definition Pending :: "'a Reorder \<Rightarrow> nat" where
  "Pending r = length (rPend r)"

definition Reset :: "'a Reorder \<Rightarrow> 'a Reorder" where
  "Reset r = r\<lparr>rStarted := False, rNext := 0, rMaxSeen := 0, rPend := [], rBlockedSince := 0,
               rLastRequest := 0, rFirstSeen := 0\<rparr>"

section \<open>Signed distance\<close>

lemma diff_range: "- (2 ^ 31) \<le> diff s n" "diff s n < 2 ^ 31"
  using sint_ge [of "s - n"] sint_lt [of "s - n"] by (simp_all add: diff_def)

lemma diff_self [simp]: "diff s s = 0"
  by (simp add: diff_def)

lemma diff_eq_0_iff [simp]: "diff s n = 0 \<longleftrightarrow> s = n"
  by (simp add: diff_def signed_eq_0_iff)

lemma diff_of_int:
  assumes "- (2 ^ 31) \<le> i - j" and "i - j < 2 ^ 31"
  shows "diff (b + of_int i) (b + of_int j) = i - j"
proof -
  have "(b + of_int i) - (b + of_int j) = (word_of_int (i - j) :: u32)"
    by simp
  then have "diff (b + of_int i) (b + of_int j) = sint (word_of_int (i - j) :: u32)"
    by (simp only: diff_def)
  then show ?thesis
    using assms by (simp add: signed_of_int signed_take_bit_int_eq_self del: of_int_diff)
qed

lemma diff_eq_of_int: "s = n + of_int (diff s n)"
  by (simp add: diff_def)

lemma diff_Suc: "0 < diff s n \<Longrightarrow> diff s (n + 1) = diff s n - 1"
  using diff_of_int [of "diff s n" 1 n] diff_range [of s n] by (simp flip: diff_eq_of_int)

lemma diff_trans:
  assumes "0 \<le> diff s n" and "0 \<le> diff l n"
  shows "diff s l = diff s n - diff l n"
  using diff_of_int [of "diff s n" "diff l n" n] diff_range [of s n] diff_range [of l n] assms
  by (simp flip: diff_eq_of_int)

lemma of_int_diff_diff: "of_int (diff s n) = s - n"
  by (simp add: diff_def)

section \<open>Fields the updates leave alone\<close>

lemma bumpMaxSeen_fields [simp]:
  "rPend (bumpMaxSeen r seq) = rPend r" "rNext (bumpMaxSeen r seq) = rNext r"
  "rStarted (bumpMaxSeen r seq) = rStarted r" "rMaxPend (bumpMaxSeen r seq) = rMaxPend r"
  "rSettle (bumpMaxSeen r seq) = rSettle r" "rFirstSeen (bumpMaxSeen r seq) = rFirstSeen r"
  "rBlockedSince (bumpMaxSeen r seq) = rBlockedSince r" "rDelivered (bumpMaxSeen r seq) = rDelivered r"
  "rSkipped (bumpMaxSeen r seq) = rSkipped r" "rSkipAfter (bumpMaxSeen r seq) = rSkipAfter r"
  "rRetransmitAfter (bumpMaxSeen r seq) = rRetransmitAfter r" "rLastRequest (bumpMaxSeen r seq) = rLastRequest r"
  by (simp_all add: bumpMaxSeen_def)

lemma markFirst_fields [simp]:
  "rPend (markFirst r seq now) = rPend r" "rNext (markFirst r seq now) = rNext r"
  "rStarted (markFirst r seq now) = rStarted r" "rMaxPend (markFirst r seq now) = rMaxPend r"
  "rSettle (markFirst r seq now) = rSettle r" "rDelivered (markFirst r seq now) = rDelivered r"
  "rSkipped (markFirst r seq now) = rSkipped r" "rSkipAfter (markFirst r seq now) = rSkipAfter r"
  "rFirstSeen (markFirst r seq now) = (if rFirstSeen r = 0 then now else rFirstSeen r)"
  "rRetransmitAfter (markFirst r seq now) = rRetransmitAfter r" "rLastRequest (markFirst r seq now) = rLastRequest r"
  "rBlockedSince (markFirst r seq now) = rBlockedSince r"
  by (simp_all add: markFirst_def IsZero_def)

lemma hold_fields [simp]:
  "rPend (hold r seq v now) = AList.update seq \<lparr>pdVal = v, pdAt = now\<rparr> (rPend r)"
  "rNext (hold r seq v now) = rNext r" "rStarted (hold r seq v now) = rStarted r"
  "rMaxPend (hold r seq v now) = rMaxPend r" "rSettle (hold r seq v now) = rSettle r"
  "rFirstSeen (hold r seq v now) = rFirstSeen r" "rBlockedSince (hold r seq v now) = rBlockedSince r"
  "rDelivered (hold r seq v now) = rDelivered r" "rSkipped (hold r seq v now) = rSkipped r"
  "rMaxSeen (hold r seq v now) = rMaxSeen r" "rSkipAfter (hold r seq v now) = rSkipAfter r"
  "rRetransmitAfter (hold r seq v now) = rRetransmitAfter r" "rLastRequest (hold r seq v now) = rLastRequest r"
  by (simp_all add: hold_def)

lemma markBlocked_fields [simp]:
  "rPend (markBlocked r now) = rPend r" "rNext (markBlocked r now) = rNext r"
  "rStarted (markBlocked r now) = rStarted r" "rMaxPend (markBlocked r now) = rMaxPend r"
  "rSettle (markBlocked r now) = rSettle r" "rDelivered (markBlocked r now) = rDelivered r"
  "rSkipped (markBlocked r now) = rSkipped r" "rMaxSeen (markBlocked r now) = rMaxSeen r"
  "rSkipAfter (markBlocked r now) = rSkipAfter r" "rFirstSeen (markBlocked r now) = rFirstSeen r"
  "rBlockedSince (markBlocked r now) = (if rBlockedSince r = 0 then now else rBlockedSince r)"
  "rRetransmitAfter (markBlocked r now) = rRetransmitAfter r" "rLastRequest (markBlocked r now) = rLastRequest r"
  by (simp_all add: markBlocked_def IsZero_def)

section \<open>What one call does\<close>

lemma lowestLoop_result:
  "lowestLoop ss best first = (b, f) \<Longrightarrow> (f \<longleftrightarrow> first \<and> ss = []) \<and> (b \<in> set ss \<or> b = best)
     \<and> (first \<and> ss \<noteq> [] \<longrightarrow> b \<in> set ss)"
  by (induction ss best first rule: lowestLoop.induct) (auto split: if_splits)

lemma lowest_None_iff: "lowest r = None \<longleftrightarrow> rPend r = []"
  by (auto simp: lowest_def dest!: lowestLoop_result split: prod.splits)

lemma lowest_in: "lowest r = Some l \<Longrightarrow> map_of (rPend r) l \<noteq> None"
  by (auto simp: lowest_def lookup_None_iff dest!: lowestLoop_result split: prod.splits if_splits)

text \<open>When the keys lie ahead of some position, the loop finds the nearest one.\<close>

lemma lowestLoop_least:
  assumes "\<forall>s \<in> insert best (set ss). 0 \<le> diff s n" and "lowestLoop ss best False = (b, f)"
  shows "diff b n \<le> diff best n \<and> (\<forall>s \<in> set ss. diff b n \<le> diff s n)"
  using assms
proof (induction ss arbitrary: best)
  case Nil
  then show ?case by simp
next
  case (Cons s ss)
  have d: "diff s best = diff s n - diff best n"
    using Cons.prems(1) by (intro diff_trans) simp_all
  show ?case
  proof (cases "diff s best < 0")
    case True
    with Cons.IH [of s] Cons.prems d show ?thesis by auto
  next
    case False
    with Cons.IH [of best] Cons.prems d show ?thesis by auto
  qed
qed

lemma lowest_least:
  assumes "\<forall>s \<in> fst ` set (rPend r). 0 \<le> diff s n" and "lowest r = Some l"
  shows "\<forall>s \<in> fst ` set (rPend r). diff l n \<le> diff s n"
proof (cases "rPend r")
  case Nil
  then show ?thesis by simp
next
  case (Cons p ps)
  from assms(2) Cons have "lowestLoop (map fst ps) (fst p) False = (l, False)"
    by (auto simp: lowest_def split: prod.splits if_splits dest: lowestLoop_result)
  with lowestLoop_least [of "fst p" "map fst ps" n l False] assms(1) Cons show ?thesis
    by auto
qed

text \<open>The drain loop: how much it delivers, and what it leaves.\<close>

definition drained :: "'a Reorder \<Rightarrow> 'a Reorder \<Rightarrow> 'a list \<Rightarrow> bool" where
  "drained r r' outs \<longleftrightarrow>
     r' = r\<lparr>rPend := rPend r', rNext := rNext r + of_nat (length outs),
            rDelivered := rDelivered r + of_nat (length outs)\<rparr> \<and>
     distinct (map fst (rPend r')) \<and> length (rPend r') + length outs = length (rPend r) \<and>
     fst ` set (rPend r') \<subseteq> fst ` set (rPend r) \<and>
     map_of (rPend r') (rNext r') = None \<and>
     (\<forall>p. map_of (rPend r) (rNext r) = Some p \<longrightarrow> outs \<noteq> [] \<and> hd outs = pdVal p)"

lemma drainLoop_drained:
  assumes "distinct (map fst (rPend r))"
  shows "\<exists>r' outs. drainLoop r out = (r', out @ outs) \<and> drained r r' outs"
  using assms
proof (induction r out rule: drainLoop.induct)
  case (1 r out)
  show ?case
  proof (cases "map_of (rPend r) (rNext r)")
    case None
    then have "drainLoop r out = (r, out @ [])" by (simp add: drainLoop.simps [of r])
    moreover have "drained r r []" using None 1(2) by (simp add: drained_def)
    ultimately show ?thesis by blast
  next
    case (Some p)
    let ?r = "r\<lparr>rPend := AList.delete (rNext r) (rPend r), rNext := rNext r + 1, rDelivered := rDelivered r + 1\<rparr>"
    from 1(1) [OF Some] 1(2) obtain r' outs where
      d: "drainLoop ?r (out @ [pdVal p]) = (r', (out @ [pdVal p]) @ outs)" "drained ?r r' outs"
      by auto
    have "drainLoop r out = (r', out @ (pdVal p # outs))"
      using d(1) by (simp add: drainLoop.simps [of r] Some)
    moreover have "drained r r' (pdVal p # outs)"
      using d(2) length_delete_old [OF 1(2) Some] Some by (auto simp: drained_def add.assoc)
    ultimately show ?thesis by blast
  qed
qed

lemma drained_fields:
  assumes "drained r r' outs"
  shows "rMaxPend r' = rMaxPend r" "rStarted r' = rStarted r" "rSettle r' = rSettle r"
    "rSkipAfter r' = rSkipAfter r" "rRetransmitAfter r' = rRetransmitAfter r"
    "rMaxSeen r' = rMaxSeen r" "rSkipped r' = rSkipped r" "rFirstSeen r' = rFirstSeen r"
    "rNext r' = rNext r + of_nat (length outs)" "rDelivered r' = rDelivered r + of_nat (length outs)"
  using assms by (cases r; cases r'; simp add: drained_def)+

lemma drain_drained:
  assumes "distinct (map fst (rPend r))"
  shows "\<exists>r' outs. drain r out wall =
      (r'\<lparr>rBlockedSince := if rPend r' = [] then 0 else wall\<rparr>, out @ outs) \<and> drained r r' outs"
  using drainLoop_drained [OF assms, of out] by (auto simp: drain_def)

section \<open>The invariant\<close>

text \<open>
  Distinct keys, the memory cap, and, once started, no packet waiting that could be
  delivered. It needs no assumption on what a peer sends.
\<close>

definition r_inv :: "'a Reorder \<Rightarrow> bool" where
  "r_inv r \<longleftrightarrow> distinct (map fst (rPend r)) \<and> 1 \<le> rMaxPend r \<and> int (length (rPend r)) \<le> rMaxPend r
     \<and> (rStarted r \<longrightarrow> map_of (rPend r) (rNext r) = None)"

lemma r_inv_fields [simp]:
  "r_inv (bumpMaxSeen r seq) = r_inv r" "r_inv (markFirst r seq now) = r_inv r"
  "r_inv (r\<lparr>rDuplicated := x\<rparr>) = r_inv r" "r_inv (r\<lparr>rLate := x\<rparr>) = r_inv r"
  "r_inv (markBlocked r now) = r_inv r" "r_inv (r\<lparr>rLastRequest := t, rRequested := x\<rparr>) = r_inv r"
  by (simp_all add: r_inv_def)

lemma r_invD:
  "r_inv r \<Longrightarrow> distinct (map fst (rPend r))" "r_inv r \<Longrightarrow> 1 \<le> rMaxPend r"
  "r_inv r \<Longrightarrow> int (length (rPend r)) \<le> rMaxPend r"
  "r_inv r \<Longrightarrow> rStarted r \<Longrightarrow> map_of (rPend r) (rNext r) = None"
  by (simp_all add: r_inv_def)

text \<open>The calls of the owning session, as data, and runs of them.\<close>

datatype 'a rop = RPush u32 'a instant instant | RExpire instant instant | RMissing instant int | RReset

fun rstep :: "'a rop \<Rightarrow> 'a Reorder \<Rightarrow> 'a Reorder \<times> 'a list" where
  "rstep (RPush seq v now wall) r = Push r seq v now wall"
| "rstep (RExpire now wall) r = Expire r now wall"
| "rstep (RMissing now limit) r = (fst (Missing r now limit), [])"
| "rstep RReset r = (Reset r, [])"

fun rrun :: "'a rop list \<Rightarrow> 'a Reorder \<Rightarrow> 'a Reorder \<times> 'a list" where
  "rrun [] r = (r, [])"
| "rrun (x # xs) r = (case rstep x r of (r1, o1) \<Rightarrow> case rrun xs r1 of (r2, o2) \<Rightarrow> (r2, o1 @ o2))"

lemma r_inv_New: "r_inv (NewReorder cfg)"
  by (simp add: r_inv_def NewReorder_def Let_def)

lemma drain_inv:
  assumes "distinct (map fst (rPend r))" and "1 \<le> rMaxPend r"
    and "int (length (rPend r)) \<le> rMaxPend r + (if map_of (rPend r) (rNext r) = None then 0 else 1)"
  shows "r_inv (fst (drain r out wall))"
proof -
  obtain r' outs where d: "drain r out wall = (r'\<lparr>rBlockedSince := if rPend r' = [] then 0 else wall\<rparr>, out @ outs)"
    and r': "drained r r' outs"
    using drain_drained [OF assms(1)] by metis
  have "rMaxPend r' = rMaxPend r" "rStarted r' = rStarted r" using drained_fields [OF r'] by simp_all
  moreover have "1 \<le> length outs" if "map_of (rPend r) (rNext r) \<noteq> None"
    using r' that by (cases outs) (auto simp: drained_def)
  moreover have "distinct (map fst (rPend r'))" "map_of (rPend r') (rNext r') = None"
    "length (rPend r') + length outs = length (rPend r)"
    using r' by (simp_all add: drained_def)
  ultimately show ?thesis
    using assms by (cases "map_of (rPend r) (rNext r) = None"; simp only: d r_inv_def) auto
qed

lemma latch_inv:
  assumes "distinct (map fst (rPend r))" and "1 \<le> rMaxPend r" and "int (length (rPend r)) \<le> rMaxPend r + 1"
    and "rPend r \<noteq> []"
  shows "r_inv (fst (latch r now wall))"
proof -
  obtain l where l: "lowest r = Some l" using assms(4) by (metis lowest_None_iff not_None_eq)
  with lowest_in [OF l] assms show ?thesis
    by (auto simp: latch_def intro!: drain_inv)
qed

lemma skipToLowest_inv:
  assumes "distinct (map fst (rPend r))" and "1 \<le> rMaxPend r" and "int (length (rPend r)) \<le> rMaxPend r + 1"
    and "rPend r \<noteq> []"
  shows "r_inv (fst (skipToLowest r now wall))"
proof -
  obtain l where l: "lowest r = Some l" using assms(4) by (metis lowest_None_iff not_None_eq)
  with lowest_in [OF l] assms show ?thesis
    by (auto simp: skipToLowest_def Let_def intro!: drain_inv)
qed

lemma hold_inv:
  "r_inv r \<Longrightarrow> int (length (AList.update seq \<lparr>pdVal = v, pdAt = now\<rparr> (rPend r))) \<le> rMaxPend r \<Longrightarrow>
   (rStarted r \<longrightarrow> seq \<noteq> rNext r) \<Longrightarrow> r_inv (hold r seq v now)"
  by (auto simp: r_inv_def)

lemma Push_inv:
  assumes inv: "r_inv r"
  shows "r_inv (fst (Push r seq v now wall))"
proof -
  let ?p = "\<lparr>pdVal = v, pdAt = now\<rparr>"
  note facts = r_invD [OF inv] inv
  have len: "int (length (AList.update seq ?p (rPend r))) \<le> rMaxPend r + 1"
    using length_update_le [of seq ?p "rPend r"] facts(3) by linarith
  show ?thesis
  proof (cases "rStarted r")
    case False
    with facts len show ?thesis
      by (auto simp: Push_def Let_def intro!: latch_inv hold_inv)
  next
    case True
    with facts len show ?thesis
      by (auto simp: Push_def Let_def intro!: drain_inv skipToLowest_inv hold_inv)
  qed
qed

lemma Expire_inv: "r_inv r \<Longrightarrow> r_inv (fst (Expire r now wall))"
  using r_invD [of r] by (auto simp: Expire_def intro!: latch_inv skipToLowest_inv)

lemma Missing_inv: "r_inv r \<Longrightarrow> r_inv (fst (Missing r now limit))"
  by (simp add: Missing_def Let_def)

lemma Reset_inv: "r_inv r \<Longrightarrow> r_inv (Reset r)"
  by (simp add: r_inv_def Reset_def)

lemma rstep_inv: "r_inv r \<Longrightarrow> r_inv (fst (rstep x r))"
  by (cases x) (simp_all add: Push_inv Expire_inv Missing_inv Reset_inv)

end
