(* ===== verification/Reorder_Window.thy ===== *)
theory Reorder_Window
  imports Reorder "HOL-Library.Multiset"
begin

text \<open>
  The reassembler inside its half-circle: once it has latched, everything it holds lies
  ahead of \<open>next\<close>, whatever a peer sends; every sequence number it moves past is counted
  as delivered or as skipped; \<open>Missing\<close> names exactly the gaps, and \<open>Expire\<close> gets past
  every gap.
\<close>

section \<open>Everything held lies ahead\<close>

definition held :: "'a Reorder \<Rightarrow> u32 set" where
  "held r = fst ` set (rPend r)"

lemma held_fields [simp]:
  "held (bumpMaxSeen r seq) = held r" "held (markBlocked r now) = held r" "held (markFirst r seq now) = held r"
  "held (r\<lparr>rDuplicated := x\<rparr>) = held r" "held (r\<lparr>rLate := x\<rparr>) = held r" "held (r\<lparr>rSkipped := x\<rparr>) = held r"
  "held (r\<lparr>rNext := n\<rparr>) = held r" "held (r\<lparr>rStarted := b\<rparr>) = held r"
  "held (r\<lparr>rBlockedSince := t\<rparr>) = held r" "held (r\<lparr>rDelivered := x\<rparr>) = held r"
  "held (r\<lparr>rLastRequest := t\<rparr>) = held r" "held (r\<lparr>rRequested := x\<rparr>) = held r"
  "held (hold r seq v now) = insert seq (held r)"
  "held (r\<lparr>rPend := AList.delete n (rPend r)\<rparr>) = held r - {n}"
  by (simp_all add: held_def)

lemma lookup_held: "map_of (rPend r) s = None \<longleftrightarrow> s \<notin> held r"
  by (simp add: held_def lookup_None_iff)

lemma held_empty_iff: "held r = {} \<longleftrightarrow> rPend r = []"
  by (simp add: held_def)

lemma lowest_held: "lowest r = Some l \<Longrightarrow> l \<in> held r"
  using lowest_in [of r l] by (auto simp: lookup_held)

definition ahead :: "'a Reorder \<Rightarrow> bool" where
  "ahead r \<longleftrightarrow> (\<forall>s \<in> held r. 0 < diff s (rNext r))"

lemma ahead_fields [simp]:
  "ahead (bumpMaxSeen r seq) = ahead r" "ahead (markBlocked r now) = ahead r"
  "ahead (r\<lparr>rDuplicated := x\<rparr>) = ahead r" "ahead (r\<lparr>rLate := x\<rparr>) = ahead r"
  "ahead (r\<lparr>rLastRequest := t\<rparr>) = ahead r" "ahead (r\<lparr>rRequested := x\<rparr>) = ahead r"
  "ahead (r\<lparr>rBlockedSince := t\<rparr>) = ahead r"
  by (simp_all add: ahead_def)

lemma drainLoop_ahead:
  assumes "\<forall>s \<in> held r. 0 \<le> diff s (rNext r)"
  shows "ahead (fst (drainLoop r out))"
  using assms
proof (induction r out rule: drainLoop.induct)
  case (1 r out)
  have pos: "0 < diff s (rNext r)" if "s \<in> held r" "s \<noteq> rNext r" for s
    using 1(2) that by (metis diff_eq_0_iff le_less)
  show ?case
  proof (cases "map_of (rPend r) (rNext r)")
    case None
    then have "rNext r \<notin> held r" by (simp add: lookup_held)
    with pos None show ?thesis by (auto simp: drainLoop.simps [of r] ahead_def)
  next
    case (Some p)
    have "\<forall>s \<in> held r - {rNext r}. 0 \<le> diff s (rNext r + 1)"
      using pos by (auto simp: diff_Suc)
    with 1(1) [OF Some] show ?thesis by (simp add: drainLoop.simps [of r] Some)
  qed
qed

lemma drain_ahead:
  "\<forall>s \<in> held r. 0 \<le> diff s (rNext r) \<Longrightarrow> ahead (fst (drain r out wall))"
  using drainLoop_ahead [of r out] by (cases "drainLoop r out") (simp add: drain_def)

text \<open>Advancing to the lowest held number keeps everything ahead.\<close>

lemma lowest_ahead:
  assumes "\<forall>s \<in> held r. 0 \<le> diff s n" and "lowest r = Some l"
  shows "\<forall>s \<in> held r. 0 \<le> diff s l"
proof
  fix s assume s: "s \<in> held r"
  with lowest_held [OF assms(2)] assms(1) have "diff s l = diff s n - diff l n"
    by (intro diff_trans) blast+
  moreover have "diff l n \<le> diff s n"
    using lowest_least [OF _ assms(2), of n] assms(1) s unfolding held_def by blast
  ultimately show "0 \<le> diff s l" by simp
qed

lemma skipToLowest_ahead:
  assumes "ahead r"
  shows "ahead (fst (skipToLowest r now wall))"
proof (cases "lowest r")
  case None
  with assms show ?thesis by (simp add: skipToLowest_def)
next
  case (Some l)
  have "\<forall>s \<in> held r. 0 \<le> diff s (rNext r)" using assms by (auto simp: ahead_def)
  from lowest_ahead [OF this Some] Some show ?thesis
    by (simp add: skipToLowest_def Let_def drain_ahead)
qed

lemma latch_ahead:
  assumes "\<forall>s \<in> held r. 0 \<le> diff s n" and "rPend r \<noteq> []"
  shows "ahead (fst (latch r now wall))"
proof -
  obtain l where l: "lowest r = Some l" using assms(2) by (metis lowest_None_iff not_None_eq)
  from lowest_ahead [OF assms(1) l] l show ?thesis
    by (simp add: latch_def drain_ahead)
qed

lemma Push_ahead:
  assumes "rStarted r" and "ahead r"
  shows "ahead (fst (Push r seq v now wall))"
proof -
  let ?d = "diff seq (rNext r)"
  consider "?d < 0" | "?d = 0" | "0 < ?d" by linarith
  then show ?thesis
  proof cases
    case 1
    with assms show ?thesis by (simp add: Push_def Let_def)
  next
    case 2
    have "\<forall>s \<in> held r. 0 \<le> diff s (rNext r + 1)"
      using assms(2) by (auto simp: ahead_def diff_Suc)
    with assms 2 show ?thesis by (simp add: Push_def Let_def drain_ahead)
  next
    case 3
    with assms(2) have "ahead (hold (bumpMaxSeen r seq) seq v now)"
      by (simp add: ahead_def)
    moreover have "seq \<noteq> rNext r" using 3 by auto
    ultimately show ?thesis using assms 3 by (simp add: Push_def Let_def skipToLowest_ahead)
  qed
qed

lemma drainLoop_started: "rStarted (fst (drainLoop r out)) = rStarted r"
  by (induction r out rule: drainLoop.induct)
    (subst drainLoop.simps, simp split: option.split)

lemma drain_started: "rStarted (fst (drain r out wall)) = rStarted r"
  using drainLoop_started [of r out] by (cases "drainLoop r out") (simp add: drain_def)

lemma Push_started: "rStarted r \<Longrightarrow> rStarted (fst (Push r seq v now wall))"
  by (simp add: Push_def Let_def drain_started skipToLowest_def split: option.split)

lemma Expire_started: "rStarted r \<Longrightarrow> rStarted (fst (Expire r now wall))"
  by (simp add: Expire_def Let_def drain_started skipToLowest_def split: option.split)

lemma rstep_started:
  "x \<noteq> RReset \<Longrightarrow> rStarted r \<Longrightarrow> rStarted (fst (rstep x r))"
  by (cases x) (simp_all add: Push_started Expire_started Missing_def Let_def)

lemma rstep_ahead:
  "x \<noteq> RReset \<Longrightarrow> rStarted r \<Longrightarrow> ahead r \<Longrightarrow> ahead (fst (rstep x r))"
  by (cases x) (simp_all add: Push_ahead Expire_def skipToLowest_ahead Missing_def Let_def)

section \<open>Accounting\<close>

text \<open>
  Where the sequence space would have started: \<open>next\<close> less everything delivered and
  everything skipped. A started reassembler never moves it.
\<close>

definition origin :: "'a Reorder \<Rightarrow> u32" where
  "origin r = rNext r - ucast (rDelivered r) - ucast (rSkipped r)"

lemma origin_fields [simp]:
  "origin (bumpMaxSeen r seq) = origin r" "origin (markBlocked r now) = origin r"
  "origin (r\<lparr>rDuplicated := x\<rparr>) = origin r" "origin (r\<lparr>rLate := x\<rparr>) = origin r"
  "origin (r\<lparr>rLastRequest := t\<rparr>) = origin r" "origin (r\<lparr>rRequested := x\<rparr>) = origin r"
  "origin (r\<lparr>rBlockedSince := t\<rparr>) = origin r" "origin (hold r seq v now) = origin r"
  by (simp_all add: origin_def)

lemma origin_drained: "drained r r' outs \<Longrightarrow> origin r' = origin r"
  using drained_fields [of r r' outs] by (simp add: origin_def ucast64_add)

text \<open>One call moves neither the origin nor the balance between its output and its count.\<close>

definition balanced :: "'a Reorder \<Rightarrow> 'a Reorder \<times> 'a list \<Rightarrow> bool" where
  "balanced r x \<longleftrightarrow> origin (fst x) = origin r \<and> rDelivered (fst x) = rDelivered r + of_nat (length (snd x))"

lemma drain_balanced:
  assumes "distinct (map fst (rPend r))"
  shows "\<exists>r' outs. drain r out wall = (r', out @ outs) \<and> origin r' = origin r
    \<and> rDelivered r' = rDelivered r + of_nat (length outs)"
  using drain_drained [OF assms, of out wall] origin_drained drained_fields by fastforce

lemma skipToLowest_balanced:
  assumes "r_inv r \<or> distinct (map fst (rPend r))" and "ahead r"
  shows "balanced r (skipToLowest r now wall)"
proof (cases "lowest r")
  case None
  then show ?thesis by (simp add: skipToLowest_def balanced_def)
next
  case (Some l)
  let ?r = "r\<lparr>rSkipped := rSkipped r + word_of_int (diff l (rNext r)), rNext := l, rBlockedSince := now\<rparr>"
  have pos: "0 < diff l (rNext r)"
    using lowest_held [OF Some] assms(2) by (simp add: ahead_def)
  have "origin ?r = origin r"
    by (simp add: origin_def ucast64_add of_int_diff_diff)
  moreover have "distinct (map fst (rPend ?r))"
    using assms(1) by (auto simp: r_inv_def)
  ultimately show ?thesis
    using drain_balanced [of ?r "[]" wall] pos
    by (auto simp: skipToLowest_def Some balanced_def)
qed

lemma Push_balanced:
  assumes "r_inv r" and "rStarted r" and "ahead r"
  shows "balanced r (Push r seq v now wall)"
proof -
  let ?d = "diff seq (rNext r)"
  consider "?d < 0" | "?d = 0" | "0 < ?d" by linarith
  then show ?thesis
  proof cases
    case 1
    with assms show ?thesis by (simp add: Push_def Let_def balanced_def)
  next
    case 2
    let ?r = "bumpMaxSeen r seq\<lparr>rNext := rNext r + 1, rDelivered := rDelivered r + 1\<rparr>"
    have "origin ?r = origin r" by (simp add: origin_def ucast64_add)
    moreover have "distinct (map fst (rPend ?r))" using r_invD(1) [OF assms(1)] by simp
    ultimately show ?thesis
      using drain_balanced [of ?r "[v]" wall] assms 2 by (auto simp: Push_def Let_def balanced_def)
  next
    case 3
    let ?r = "markBlocked (hold (bumpMaxSeen r seq) seq v now) now"
    have "distinct (map fst (rPend ?r))" and "ahead ?r"
      using r_invD(1) [OF assms(1)] assms(3) 3 by (simp_all add: ahead_def)
    then have "balanced ?r (skipToLowest ?r now wall)" by (intro skipToLowest_balanced) simp_all
    moreover have "seq \<noteq> rNext r" using 3 by auto
    ultimately show ?thesis
      using assms 3 by (simp add: Push_def Let_def balanced_def)
  qed
qed

lemma Expire_balanced: "r_inv r \<Longrightarrow> rStarted r \<Longrightarrow> ahead r \<Longrightarrow> balanced r (Expire r now wall)"
  using skipToLowest_balanced [of r now wall] by (auto simp: Expire_def balanced_def)

lemma Missing_balanced: "balanced r (fst (Missing r now limit), [])"
  by (simp add: Missing_def Let_def balanced_def origin_def)

lemma rstep_balanced:
  assumes "x \<noteq> RReset" and "r_inv r" and "rStarted r" and "ahead r"
  shows "balanced r (rstep x r)"
  using assms
  by (cases x) (simp_all add: Push_balanced Expire_balanced Missing_balanced)

lemma rrun_balanced:
  assumes "RReset \<notin> set xs" and "r_inv r" and "rStarted r" and "ahead r"
  shows "balanced r (rrun xs r) \<and> ahead (fst (rrun xs r)) \<and> rStarted (fst (rrun xs r))"
  using assms
proof (induction xs arbitrary: r)
  case Nil
  then show ?case by (simp add: balanced_def)
next
  case (Cons x xs)
  obtain r1 o1 where 1: "rstep x r = (r1, o1)" by (metis surj_pair)
  have x: "x \<noteq> RReset" and xs: "RReset \<notin> set xs" using Cons.prems(1) by auto
  note prems = Cons.prems(2-)
  have "r_inv r1" using rstep_inv [OF prems(1), of x] by (simp add: 1)
  moreover have "rStarted r1" using rstep_started [OF x prems(2)] by (simp add: 1)
  moreover have "ahead r1" using rstep_ahead [OF x prems(2,3)] by (simp add: 1)
  moreover have "balanced r (r1, o1)" using rstep_balanced [OF x prems] by (simp add: 1)
  ultimately show ?case using Cons.IH [OF xs, of r1]
    by (cases "rrun xs r1") (simp add: 1 balanced_def add.assoc)
qed

section \<open>Gaps\<close>

text \<open>The positions from \<open>s\<close> to \<open>maxSeen\<close> that are not held, in order.\<close>

definition gaps :: "(u32 \<times> 'a pending) list \<Rightarrow> u32 \<Rightarrow> u32 \<Rightarrow> u32 list" where
  "gaps pend maxSeen s =
     filter (\<lambda>q. map_of pend q = None) (map (\<lambda>i. s + of_nat i) [0..<nat (1 - diff s maxSeen)])"

lemma diff_Suc_left: "diff s m \<le> 0 \<Longrightarrow> diff (s + 1) m = diff s m + 1"
proof -
  assume le: "diff s m \<le> 0"
  have "diff (m + of_int (diff s m + 1)) (m + of_int 0) = diff s m + 1"
    using diff_of_int [of "diff s m + 1" 0 m] diff_range [of s m] le by simp
  moreover have "m + of_int (diff s m + 1) = s + 1"
    by (simp add: of_int_diff_diff)
  ultimately show ?thesis by (simp only: of_int_0 add_0_right)
qed

lemma gaps_step:
  assumes "diff s m \<le> 0"
  shows "gaps pend m s = (if map_of pend s = None then [s] else []) @ gaps pend m (s + 1)"
proof -
  have n: "nat (1 - diff s m) = Suc (nat (1 - diff (s + 1) m))"
    using assms by (simp add: diff_Suc_left)
  have "map (\<lambda>i. s + of_nat i) [0..<Suc k] = s # map (\<lambda>i. s + 1 + of_nat i) [0..<k]" for k
    by (simp add: upt_conv_Cons map_Suc_upt [symmetric] add.assoc del: upt_Suc)
  then show ?thesis by (simp add: gaps_def n)
qed

lemma missingLoop_gaps:
  assumes "int (length out) \<le> limit"
  shows "missingLoop pend m limit s out = take (nat limit) (out @ gaps pend m s)"
  using assms
proof (induction pend m limit s out rule: missingLoop.induct)
  case (1 pend m limit s out)
  show ?case
  proof (cases "diff s m \<le> 0 \<and> int (length out) < limit")
    case True
    with 1 show ?thesis
      by (auto simp: missingLoop.simps [of pend m limit s out] gaps_step [of s m])
  next
    case False
    then consider "0 < diff s m" | "int (length out) = limit" using 1(2) by linarith
    then have "take (nat limit) (out @ gaps pend m s) = out"
      by cases (use 1(2) in \<open>auto simp: gaps_def\<close>)
    moreover have "missingLoop pend m limit s out = out"
      using False by (subst missingLoop.simps) (rule if_not_P)
    ultimately show ?thesis by simp
  qed
qed

section \<open>Runs\<close>

text \<open>The fields no call writes.\<close>

definition r_config :: "'a Reorder \<Rightarrow> int \<times> duration \<times> duration \<times> duration" where
  "r_config r = (rMaxPend r, rRetransmitAfter r, rSkipAfter r, rSettle r)"

lemma r_config_fields [simp]:
  "r_config (bumpMaxSeen r seq) = r_config r" "r_config (markBlocked r now) = r_config r"
  "r_config (markFirst r seq now) = r_config r" "r_config (hold r seq v now) = r_config r"
  by (simp_all add: r_config_def bumpMaxSeen_def markBlocked_def markFirst_def hold_def)

lemma drainLoop_config: "r_config (fst (drainLoop r out)) = r_config r"
  by (induction r out rule: drainLoop.induct)
    (subst drainLoop.simps, simp add: r_config_def split: option.split)

lemma drain_config: "r_config (fst (drain r out wall)) = r_config r"
  using drainLoop_config [of r out] by (cases "drainLoop r out") (simp add: drain_def r_config_def)

lemma skipToLowest_config: "r_config (fst (skipToLowest r now wall)) = r_config r"
  by (simp add: skipToLowest_def Let_def drain_config split: option.split) (simp add: r_config_def)

lemma latch_config: "r_config (fst (latch r now wall)) = r_config r"
  by (simp add: latch_def drain_config split: option.split) (simp add: r_config_def)

lemma rstep_config: "r_config (fst (rstep x r)) = r_config r"
proof (cases x)
  case (RPush seq v now wall)
  then show ?thesis
    by (simp add: Push_def Let_def drain_config skipToLowest_config latch_config) (simp add: r_config_def)
next
  case (RExpire now wall)
  then show ?thesis by (simp add: Expire_def skipToLowest_config latch_config)
qed (simp_all add: Missing_def Let_def Reset_def r_config_def)

text \<open>
  A clock reading is never the zero time. Under that proviso a started reassembler that
  holds anything knows since when it has been blocked, and one that is still settling
  knows when its first packet came.
\<close>

fun clocked :: "'a rop \<Rightarrow> bool" where
  "clocked (RPush seq v now wall) \<longleftrightarrow> now \<noteq> 0 \<and> wall \<noteq> 0"
| "clocked (RExpire now wall) \<longleftrightarrow> now \<noteq> 0 \<and> wall \<noteq> 0"
| "clocked (RMissing now limit) \<longleftrightarrow> now \<noteq> 0"
| "clocked RReset \<longleftrightarrow> True"

definition timed :: "'a Reorder \<Rightarrow> bool" where
  "timed r \<longleftrightarrow> (rStarted r \<and> rPend r \<noteq> [] \<longrightarrow> rBlockedSince r \<noteq> 0)"

lemma timed_fields [simp]:
  "timed (r\<lparr>rDuplicated := x\<rparr>) = timed r" "timed (r\<lparr>rLate := x\<rparr>) = timed r"
  "timed (bumpMaxSeen r seq) = timed r" "timed (r\<lparr>rLastRequest := t, rRequested := x\<rparr>) = timed r"
  by (simp_all add: timed_def)

lemma drain_timed: "wall \<noteq> 0 \<Longrightarrow> timed (fst (drain r out wall))"
  by (cases "drainLoop r out") (simp add: drain_def timed_def)

lemma skipToLowest_timed: "timed r \<Longrightarrow> wall \<noteq> 0 \<Longrightarrow> timed (fst (skipToLowest r now wall))"
  by (simp add: skipToLowest_def Let_def drain_timed split: option.split)

lemma latch_timed: "timed r \<Longrightarrow> wall \<noteq> 0 \<Longrightarrow> timed (fst (latch r now wall))"
  by (simp add: latch_def drain_timed split: option.split)

lemma rstep_timed: "clocked x \<Longrightarrow> timed r \<Longrightarrow> timed (fst (rstep x r))"
proof (cases x)
  case (RPush seq v now wall)
  assume "clocked x" "timed r"
  moreover have "timed (markBlocked (hold r' seq v now) now)" if "now \<noteq> 0" for r' :: "'a Reorder"
    using that by (simp add: timed_def)
  moreover have "timed (hold (bumpMaxSeen (markFirst r seq now) seq) seq v now)" if "\<not> rStarted r"
    using that by (simp add: timed_def)
  moreover have "timed (markFirst r seq now) = timed r" if "\<not> rStarted r"
    using that by (simp add: timed_def)
  ultimately show ?thesis
    using RPush by (cases "rStarted r") (simp_all add: Push_def Let_def drain_timed skipToLowest_timed latch_timed)
qed (simp_all add: Expire_def skipToLowest_timed latch_timed Missing_def Let_def Reset_def timed_def [of "_\<lparr>rStarted := False, rNext := _, rMaxSeen := _, rPend := _, rBlockedSince := _, rLastRequest := _, rFirstSeen := _\<rparr>"])

text \<open>Runs inherit what every step keeps.\<close>

lemma rrun_Cons:
  "fst (rrun (x # xs) r) = fst (rrun xs (fst (rstep x r)))"
  "snd (rrun (x # xs) r) = snd (rstep x r) @ snd (rrun xs (fst (rstep x r)))"
  by (simp_all split: prod.splits)

definition rstep_out :: "'a rop \<Rightarrow> 'a Reorder \<Rightarrow> 'a Reorder outcome" where
  "rstep_out x r = Ret (fst (rstep x r))"

lemma rrun_fold: "fold_outcome rstep_out xs r = Ret (fst (rrun xs r))"
  by (induction xs arbitrary: r) (simp_all add: rstep_out_def split: prod.splits)

interpretation rkeep: kept_by_step rstep_out "\<lambda>r. r_inv r \<and> r_config r = c" for c
  by unfold_locales (auto simp: rstep_out_def rstep_inv rstep_config)

lemma rrun_keeps: "r_inv r \<Longrightarrow> r_inv (fst (rrun xs r)) \<and> r_config (fst (rrun xs r)) = r_config r"
  using rkeep.run_keeps [of r "r_config r" xs "fst (rrun xs r)"] by (simp add: rrun_fold)

lemma rrun_timed: "list_all clocked xs \<Longrightarrow> timed r \<Longrightarrow> timed (fst (rrun xs r))"
  by (induction xs arbitrary: r) (simp_all add: rrun_Cons rstep_timed del: rrun.simps(2))

section \<open>Properties\<close>

text \<open>
  C35: the reassembler's memory is bounded. Whatever packets arrive and whatever the
  clocks say, across resets, a reassembler made with a configuration never holds more
  packets than that configuration's \<open>MaxPending\<close> (4096 when unset), never the same
  sequence number twice, and once started never one that it could have delivered.
\<close>

theorem reorder_bounded:
  fixes cfg :: ReorderConfig and xs :: "'a rop list"
  defines "r \<equiv> fst (rrun xs (NewReorder cfg))"
  shows "int (Pending r) \<le> (if rcMaxPending cfg \<le> 0 then 4096 else rcMaxPending cfg)
    \<and> distinct (map fst (rPend r)) \<and> \<not> (rStarted r \<and> map_of (rPend r) (rNext r) \<noteq> None)"
proof -
  have "rMaxPend (NewReorder cfg :: 'a Reorder) = (if rcMaxPending cfg \<le> 0 then 4096 else rcMaxPending cfg)"
    by (simp add: NewReorder_def Let_def)
  moreover have "r_inv r" "rMaxPend r = rMaxPend (NewReorder cfg :: 'a Reorder)"
    using rrun_keeps [OF r_inv_New, of xs cfg] by (simp_all add: r_def r_config_def)
  ultimately show ?thesis by (auto simp: r_inv_def Pending_def)
qed

text \<open>
  No sequence number is lost from the books. Over any calls but \<open>Reset\<close>, a started
  reassembler that holds only numbers ahead of it moves \<open>next\<close> exactly by what it
  delivered plus what it counted as skipped, the delivered counter moves by the packets it
  returned, and everything it holds still lies ahead.
\<close>

lemma reorder_accounts:
  assumes "r_inv r" and "rStarted r" and "ahead r" and "RReset \<notin> set xs" and "rrun xs r = (r', outs)"
  shows "rNext r' = rNext r + of_nat (length outs) + (ucast (rSkipped r') - ucast (rSkipped r))
    \<and> rDelivered r' = rDelivered r + of_nat (length outs) \<and> rStarted r' \<and> ahead r'"
proof -
  from rrun_balanced [OF assms(4,1-3)]
  have o: "origin r' = origin r" and d: "rDelivered r' = rDelivered r + of_nat (length outs)"
    and "ahead r'" "rStarted r'"
    by (simp_all add: assms(5) balanced_def)
  moreover have "rNext r' = rNext r + of_nat (length outs) + (ucast (rSkipped r') - ucast (rSkipped r))"
    using o unfolding origin_def d by (simp add: ucast64_add algebra_simps)
  ultimately show ?thesis by simp
qed

text \<open>When \<open>Expire\<close> is due: the end of the settle window, or of the wait behind a gap.\<close>

definition due :: "'a Reorder \<Rightarrow> instant" where
  "due r = (if rStarted r then rBlockedSince r + rSkipAfter r else rFirstSeen r + rSettle r)"

lemma Expire_due:
  assumes pend: "rPend r \<noteq> []" and time: "timed r" and now: "due r \<le> now"
    and cfg: "0 \<le> rSettle r" "rSettle r < 2 ^ 63" "0 \<le> rSkipAfter r" "rSkipAfter r < 2 ^ 63"
  shows "Expire r now wall = (if rStarted r then skipToLowest r now wall else latch r now wall)"
proof (cases "rStarted r")
  case True
  moreover have "\<not> timeSub now (rBlockedSince r) < rSkipAfter r"
    using now cfg True by (simp add: timeSub_less_iff due_def)
  moreover have "\<not> IsZero (rBlockedSince r)" using time True pend by (simp add: timed_def IsZero_def)
  ultimately show ?thesis using pend by (simp add: Expire_def)
next
  case False
  have "rSettle r \<le> timeSub now (rFirstSeen r)" using now cfg False by (simp add: timeSub_ge_iff due_def)
  with False pend show ?thesis by (simp add: Expire_def)
qed

lemma Expire_delivers:
  assumes inv: "r_inv r" and pend: "rPend r \<noteq> []" and "timed r" and "due r \<le> now"
    and "0 \<le> rSettle r" "rSettle r < 2 ^ 63" "0 \<le> rSkipAfter r" "rSkipAfter r < 2 ^ 63"
  shows "snd (Expire r now wall) \<noteq> []"
proof -
  obtain l where l: "lowest r = Some l" using pend by (metis lowest_None_iff not_None_eq)
  have "snd (drain r' [] wall) \<noteq> []"
    if "rPend r' = rPend r" "rNext r' = l" for r' :: "'a Reorder"
    using drain_drained [of r' "[]" wall] lowest_in [OF l] r_invD(1) [OF inv] that
    by (auto simp: drained_def)
  then show ?thesis
    unfolding Expire_due [OF assms(2-)] by (simp add: skipToLowest_def latch_def l Let_def)
qed

section \<open>Nothing held is lost\<close>

text \<open>The packets in a map, and what a drain and the calls built on it do to them.\<close>

definition packets :: "(u32 \<times> 'a pending) list \<Rightarrow> 'a multiset" where
  "packets m = mset (map (\<lambda>(s, p). pdVal p) m)"

lemma packets_simps [simp]: "packets [] = {#}" "size (packets m) = length m"
  by (simp_all add: packets_def)

lemma delete_absent: "k \<notin> fst ` set m \<Longrightarrow> AList.delete k m = m"
  by (induction m) auto

lemma packets_delete:
  "distinct (map fst m) \<Longrightarrow> map_of m k = Some p \<Longrightarrow> add_mset (pdVal p) (packets (AList.delete k m)) = packets m"
  by (induction m) (auto simp: packets_def delete_absent)

definition no_loss :: "'a Reorder \<Rightarrow> 'a Reorder \<times> 'a list \<Rightarrow> bool" where
  "no_loss r x \<longleftrightarrow> (\<forall>s p. map_of (rPend r) s = Some p \<longrightarrow> map_of (rPend (fst x)) s = Some p \<or> pdVal p \<in> set (snd x))"

lemma no_loss_same: "rPend r' = rPend r \<Longrightarrow> no_loss r (r', out)"
  by (simp add: no_loss_def)

lemma no_loss_grow:
  "rPend r' = AList.update seq q (rPend r) \<Longrightarrow> map_of (rPend r) seq = None \<Longrightarrow> no_loss r' x \<Longrightarrow> no_loss r x"
  unfolding no_loss_def by (metis fun_upd_apply lookup_update option.distinct(1))

lemma no_loss_cong: "rPend r' = rPend r \<Longrightarrow> no_loss r' x \<Longrightarrow> no_loss r x"
  by (simp add: no_loss_def)

lemma drainLoop_keeps:
  assumes "distinct (map fst (rPend r))"
  shows "packets (rPend (fst (drainLoop r out))) + mset (snd (drainLoop r out)) = packets (rPend r) + mset out
    \<and> no_loss r (drainLoop r out) \<and> set out \<subseteq> set (snd (drainLoop r out))"
  using assms
proof (induction r out rule: drainLoop.induct)
  case (1 r out)
  show ?case
  proof (cases "map_of (rPend r) (rNext r)")
    case None
    then show ?thesis by (simp add: drainLoop.simps [of r] no_loss_def)
  next
    case (Some p)
    let ?r = "r\<lparr>rPend := AList.delete (rNext r) (rPend r), rNext := rNext r + 1, rDelivered := rDelivered r + 1\<rparr>"
    have d: "drainLoop r out = drainLoop ?r (out @ [pdVal p])" by (simp add: drainLoop.simps [of r] Some)
    have IH: "packets (rPend (fst (drainLoop r out))) + mset (snd (drainLoop r out)) = packets (rPend ?r) + mset (out @ [pdVal p])"
      "no_loss ?r (drainLoop r out)" "set (out @ [pdVal p]) \<subseteq> set (snd (drainLoop r out))"
      using 1(1) [OF Some] 1(2) unfolding d by simp_all
    moreover have "packets (rPend ?r) + mset (out @ [pdVal p]) = packets (rPend r) + mset out"
      using packets_delete [OF 1(2) Some] by simp
    moreover have "no_loss r (drainLoop r out)"
      unfolding no_loss_def
    proof (intro allI impI)
      fix s q assume q: "map_of (rPend r) s = Some q"
      show "map_of (rPend (fst (drainLoop r out))) s = Some q \<or> pdVal q \<in> set (snd (drainLoop r out))"
      proof (cases "s = rNext r")
        case True
        with q Some IH(3) show ?thesis by simp
      next
        case False
        then have "map_of (rPend ?r) s = Some q" using q by simp
        with IH(2) show ?thesis unfolding no_loss_def by blast
      qed
    qed
    ultimately show ?thesis by simp
  qed
qed

lemma drain_keeps:
  assumes "distinct (map fst (rPend r))"
  shows "packets (rPend (fst (drain r [] wall))) + mset (snd (drain r [] wall)) = packets (rPend r)"
    and "no_loss r (drain r out wall)"
proof -
  have "fst (drain r o1 wall) = (fst (drainLoop r o1))\<lparr>rBlockedSince := if rPend (fst (drainLoop r o1)) = [] then 0 else wall\<rparr>"
    "snd (drain r o1 wall) = snd (drainLoop r o1)" for o1
    by (cases "drainLoop r o1"; simp add: drain_def)+
  then show "packets (rPend (fst (drain r [] wall))) + mset (snd (drain r [] wall)) = packets (rPend r)"
    "no_loss r (drain r out wall)"
    using drainLoop_keeps [OF assms, of "[]"] drainLoop_keeps [OF assms, of out] by (simp_all add: no_loss_def)
qed

lemma skip_or_latch_keeps:
  assumes "distinct (map fst (rPend r))"
  shows "packets (rPend (fst (skipToLowest r now wall))) + mset (snd (skipToLowest r now wall)) = packets (rPend r)"
    and "packets (rPend (fst (latch r now wall))) + mset (snd (latch r now wall)) = packets (rPend r)"
    and "no_loss r (skipToLowest r now wall)" and "no_loss r (latch r now wall)"
proof -
  have d: "packets (rPend (fst (drain r' [] wall))) + mset (snd (drain r' [] wall)) = packets (rPend r)"
    "no_loss r (drain r' [] wall)" if "rPend r' = rPend r" for r'
    using drain_keeps(1) [of r' wall] no_loss_cong [OF that drain_keeps(2)] assms that by simp_all
  show "packets (rPend (fst (skipToLowest r now wall))) + mset (snd (skipToLowest r now wall)) = packets (rPend r)"
    "packets (rPend (fst (latch r now wall))) + mset (snd (latch r now wall)) = packets (rPend r)"
    "no_loss r (skipToLowest r now wall)" "no_loss r (latch r now wall)"
    by (simp_all add: skipToLowest_def latch_def Let_def d no_loss_same split: option.split)
qed

lemma Push_no_loss:
  assumes "distinct (map fst (rPend r))"
  shows "no_loss r (Push r seq v now wall)"
proof (cases "rStarted r")
  case False
  let ?r = "bumpMaxSeen (markFirst r seq now) seq"
  have "no_loss r x" if "map_of (rPend r) seq = None" "no_loss (hold ?r seq v now) x" for x
    by (rule no_loss_grow [OF _ that]) simp
  moreover have "no_loss (hold ?r seq v now) (latch (hold ?r seq v now) now wall)" "no_loss (hold ?r seq v now) (hold ?r seq v now, [])"
    using assms by (simp_all add: skip_or_latch_keeps no_loss_same)
  moreover have "no_loss r (?r\<lparr>rDuplicated := rDuplicated ?r + 1\<rparr>, [])" by (rule no_loss_same) simp
  ultimately show ?thesis using False by (simp add: Push_def Let_def)
next
  case True
  let ?b = "bumpMaxSeen r seq"
  let ?h = "markBlocked (hold ?b seq v now) now"
  have "no_loss r x" if "map_of (rPend r) seq = None" "no_loss ?h x" for x
    by (rule no_loss_grow [OF _ that]) simp
  moreover have "no_loss ?h (skipToLowest ?h now wall)" "no_loss ?h (?h, [])"
    using assms by (simp_all add: skip_or_latch_keeps no_loss_same)
  moreover have "no_loss r (?b\<lparr>rDuplicated := rDuplicated ?b + 1\<rparr>, [])" "no_loss r (?b\<lparr>rLate := rLate ?b + 1\<rparr>, [])"
    by (rule no_loss_same, simp)+
  moreover have "no_loss r (drain (bumpMaxSeen r q\<lparr>rNext := rNext r + 1, rDelivered := rDelivered r + 1\<rparr>) [v] wall)" for q
    using assms by (intro no_loss_cong [OF _ drain_keeps(2)]) simp_all
  ultimately show ?thesis using True by (simp add: Push_def Let_def)
qed

lemma rstep_no_loss:
  assumes "distinct (map fst (rPend r))" and "x \<noteq> RReset"
  shows "no_loss r (rstep x r)"
  using assms
  by (cases x) (auto simp: Push_no_loss Expire_def Missing_def Let_def skip_or_latch_keeps intro: no_loss_same)

lemma rrun_no_loss: "r_inv r \<Longrightarrow> RReset \<notin> set xs \<Longrightarrow> no_loss r (rrun xs r)"
proof (induction xs arbitrary: r)
  case (Cons x xs)
  have "no_loss r (rstep x r)" using Cons.prems r_invD(1) by (intro rstep_no_loss) auto
  moreover have "no_loss (fst (rstep x r)) (rrun xs (fst (rstep x r)))" using Cons by (simp add: rstep_inv)
  ultimately show ?case unfolding no_loss_def rrun_Cons set_append by blast
qed (simp add: no_loss_def)

section \<open>Nothing held stays for ever\<close>

text \<open>
  Calls of \<open>Expire\<close>, at the instants \<open>now\<close> with \<open>wall\<close> the reading of \<open>drain\<close>, of which the
  first is not before \<open>t\<close> and each other one at least \<open>d\<close> after the reading of the one before.
\<close>

fun patient :: "duration \<Rightarrow> instant \<Rightarrow> (instant \<times> instant) list \<Rightarrow> bool" where
  "patient d t [] = True"
| "patient d t ((now, wall) # ts) = (t \<le> now \<and> wall \<noteq> 0 \<and> patient d (wall + d) ts)"

definition expires :: "(instant \<times> instant) list \<Rightarrow> 'a rop list" where
  "expires ts = map (\<lambda>(now, wall). RExpire now wall) ts"

lemma drain_blocked: "rPend (fst (drain r out wall)) \<noteq> [] \<Longrightarrow> rBlockedSince (fst (drain r out wall)) = wall"
  by (cases "drainLoop r out") (simp add: drain_def split: if_splits)

lemma Expire_one:
  assumes "r_inv r" and pend: "rPend r \<noteq> []" and "timed r" and "due r \<le> now" and wall: "wall \<noteq> 0"
    and "0 \<le> rSettle r" "rSettle r < 2 ^ 63" "0 \<le> rSkipAfter r" "rSkipAfter r < 2 ^ 63"
    and r': "Expire r now wall = (r', outs)"
  shows "packets (rPend r') + mset outs = packets (rPend r) \<and> outs \<noteq> [] \<and> timed r'
    \<and> (rPend r' \<noteq> [] \<longrightarrow> due r' = wall + rSkipAfter r)"
proof -
  note e = Expire_due [OF assms(2-4,6-9), of wall]
  obtain l where l: "lowest r = Some l" using pend by (metis lowest_None_iff not_None_eq)
  have "rSkipAfter (fst (Expire r now wall)) = rSkipAfter r"
    using rstep_config [of "RExpire now wall" r] by (simp add: r_config_def)
  moreover have "rPend (fst (Expire r now wall)) \<noteq> [] \<longrightarrow>
      rStarted (fst (Expire r now wall)) \<and> rBlockedSince (fst (Expire r now wall)) = wall"
    unfolding e by (simp add: skipToLowest_def latch_def l Let_def drain_started drain_blocked)
  moreover have "timed (fst (Expire r now wall))"
    unfolding e using assms(3) wall by (simp add: skipToLowest_timed latch_timed)
  moreover have "packets (rPend (fst (Expire r now wall))) + mset (snd (Expire r now wall)) = packets (rPend r)"
    unfolding e using skip_or_latch_keeps(1,2) [OF r_invD(1) [OF assms(1)]] by simp
  moreover have "snd (Expire r now wall) \<noteq> []" using assms(1-4,6-9) by (rule Expire_delivers)
  ultimately show ?thesis by (simp add: r' due_def)
qed

lemma expires_empty: "rPend r = [] \<Longrightarrow> rrun (expires ts) r = (r, [])"
  by (induction ts) (auto simp: expires_def Expire_def)

lemma patient_delivers_all:
  assumes "r_inv r" and "timed r" and "rPend r = [] \<or> due r = t" and "patient (rSkipAfter r) t ts" and "length (rPend r) \<le> length ts"
    and "0 \<le> rSettle r" "rSettle r < 2 ^ 63" "0 \<le> rSkipAfter r" "rSkipAfter r < 2 ^ 63"
  shows "rPend (fst (rrun (expires ts) r)) = [] \<and> mset (snd (rrun (expires ts) r)) = packets (rPend r)"
  using assms
proof (induction ts arbitrary: r t)
  case Nil
  then show ?case by (simp add: expires_def)
next
  case (Cons nw ts)
  obtain now wall where nw: "nw = (now, wall)" by (cases nw)
  show ?case
  proof (cases "rPend r = []")
    case True
    then show ?thesis by (simp add: expires_empty)
  next
    case False
    obtain r1 o1 where e: "Expire r now wall = (r1, o1)" by (metis surj_pair)
    have d: "due r \<le> now" "wall \<noteq> 0" "patient (rSkipAfter r) (wall + rSkipAfter r) ts"
      using Cons.prems(3,4) False by (auto simp: nw)
    note one = Expire_one [OF Cons.prems(1) False Cons.prems(2) d(1,2) Cons.prems(6-9) e]
    have c: "rSkipAfter r1 = rSkipAfter r" "rSettle r1 = rSettle r"
      using rstep_config [of "RExpire now wall" r] by (simp_all add: e r_config_def)
    have "size (packets (rPend r1) + mset o1) = size (packets (rPend r))" using one by simp
    then have "length (rPend r1) + length o1 = length (rPend r)" by simp
    moreover have "0 < length o1" using one by simp
    moreover have "length (rPend r) \<le> length ts + 1" using Cons.prems(5) by simp
    ultimately have "length (rPend r1) \<le> length ts" by linarith
    moreover have "r_inv r1" using Expire_inv [OF Cons.prems(1), of now wall] by (simp add: e)
    ultimately have "rPend (fst (rrun (expires ts) r1)) = [] \<and> mset (snd (rrun (expires ts) r1)) = packets (rPend r1)"
      using one Cons.prems(6-9) d(3) by (intro Cons.IH [of r1 "wall + rSkipAfter r"]) (auto simp: c)
    moreover have "rrun (expires (nw # ts)) r = (fst (rrun (expires ts) r1), o1 @ snd (rrun (expires ts) r1))"
      by (simp add: expires_def nw e split: prod.split)
    moreover have "packets (rPend r) = packets (rPend r1) + mset o1" using one by simp
    ultimately show ?thesis by simp
  qed
qed

definition cfg_ok :: "ReorderConfig \<Rightarrow> bool" where
  "cfg_ok cfg \<longleftrightarrow> rcSettle cfg < 2 ^ 63 \<and> rcSkipAfter cfg < 2 ^ 63"

lemma NewReorder_durations:
  assumes "cfg_ok cfg"
  shows "0 \<le> rSettle (NewReorder cfg)" "rSettle (NewReorder cfg) < 2 ^ 63"
    "0 \<le> rSkipAfter (NewReorder cfg)" "rSkipAfter (NewReorder cfg) < 2 ^ 63"
  using assms by (simp_all add: cfg_ok_def NewReorder_def Let_def Millisecond_def)

text \<open>
  C36: a held packet is never lost and never stuck. Take the state after any run with working
  clocks, whatever was pushed. Whatever calls but \<open>Reset\<close> follow, every packet that is held
  is still held, under its number, or has been returned. And if only \<open>Expire\<close> is called, the
  first time when it is due and then each time \<open>SkipAfter\<close> or more after the reading of the
  last drain, then as many calls as packets are held return all of them, each exactly once,
  and leave nothing: no packet that was lost on the way stalls the tunnel for ever.
\<close>

theorem reorder_never_stalls:
  fixes xs :: "'a rop list"
  assumes "cfg_ok cfg" and "list_all clocked xs" and "r = fst (rrun xs (NewReorder cfg))"
  shows "(\<forall>ys s p. RReset \<notin> set ys \<and> map_of (rPend r) s = Some p \<longrightarrow>
        map_of (rPend (fst (rrun ys r))) s = Some p \<or> pdVal p \<in> set (snd (rrun ys r)))
    \<and> (\<forall>ts. patient (rSkipAfter r) (due r) ts \<and> Pending r \<le> length ts \<longrightarrow>
        Pending (fst (rrun (expires ts) r)) = 0
        \<and> mset (snd (rrun (expires ts) r)) = mset (map (\<lambda>(s, p). pdVal p) (rPend r)))"
proof -
  let ?n = "NewReorder cfg :: 'a Reorder"
  have inv: "r_inv r" and c: "r_config r = r_config ?n" unfolding assms(3) using rrun_keeps [OF r_inv_New] by blast+
  have "timed ?n" by (simp add: timed_def NewReorder_def Let_def)
  then have "timed r" unfolding assms(3) by (rule rrun_timed [OF assms(2)])
  moreover have "rSettle r = rSettle ?n" "rSkipAfter r = rSkipAfter ?n" using c by (simp_all add: r_config_def)
  moreover note NewReorder_durations [OF assms(1)]
  ultimately have "rPend (fst (rrun (expires ts) r)) = [] \<and> mset (snd (rrun (expires ts) r)) = packets (rPend r)"
    if "patient (rSkipAfter r) (due r) ts" "length (rPend r) \<le> length ts" for ts
    using inv that by (intro patient_delivers_all [of r "due r"]) simp_all
  then show ?thesis
    using rrun_no_loss [OF inv] unfolding no_loss_def Pending_def packets_def by blast
qed

text \<open>Of the packets 7, 9 and 8 two are held behind 8 that was lost: both come out.\<close>

lemma reorder_never_stalls_witness:
  "\<exists>r. r = fst (rrun [RPush 7 (10 :: nat) 5 5, RPush 9 30 6 6, RPush 12 60 7 7, RExpire (10 ^ 9) (10 ^ 9)]
       (NewReorder \<lparr>rcMaxPending = 0, rcRetransmitAfter = 0, rcSkipAfter = 0, rcSettle = - 1\<rparr>))
     \<and> rPend r = [(9, \<lparr>pdVal = 30, pdAt = 6\<rparr>), (12, \<lparr>pdVal = 60, pdAt = 7\<rparr>)]
     \<and> Pending (fst (rrun (expires [(2 * 10 ^ 9, 2 * 10 ^ 9), (4 * 10 ^ 9, 4 * 10 ^ 9)]) r)) = 0
     \<and> mset (snd (rrun (expires [(2 * 10 ^ 9, 2 * 10 ^ 9), (4 * 10 ^ 9, 4 * 10 ^ 9)]) r)) = mset [30, 60]"
proof -
  let ?cfg = "\<lparr>rcMaxPending = 0, rcRetransmitAfter = 0, rcSkipAfter = 0, rcSettle = - 1\<rparr>"
  let ?xs = "[RPush 7 (10 :: nat) 5 5, RPush 9 30 6 6, RPush 12 60 7 7, RExpire (10 ^ 9) (10 ^ 9)]"
  let ?ts = "[(2 * 10 ^ 9, 2 * 10 ^ 9), (4 * 10 ^ 9, 4 * 10 ^ 9)] :: (instant \<times> instant) list"
  obtain r where def: "r = fst (rrun ?xs (NewReorder ?cfg))" by blast
  have r: "rPend r = [(9, \<lparr>pdVal = 30, pdAt = 6\<rparr>), (12, \<lparr>pdVal = 60, pdAt = 7\<rparr>)]" "rStarted r" "rBlockedSince r = 6"
      "rSkipAfter r = 1500 * Millisecond"
    by (simp_all add: def NewReorder_def Let_def Push_def Expire_def latch_def lowest_def drain_def drainLoop.simps diff_def
        timeSub_def markFirst_def markBlocked_def bumpMaxSeen_def hold_def IsZero_def Millisecond_def)
  have p: "patient (rSkipAfter r) (due r) ?ts \<and> Pending r \<le> length ?ts"
    by (simp add: due_def r Millisecond_def Pending_def)
  have "cfg_ok ?cfg" "list_all clocked ?xs" by (simp_all add: cfg_ok_def)
  from mp [OF spec [OF conjunct2 [OF reorder_never_stalls [OF this def]]] p] have "Pending (fst (rrun (expires ?ts) r)) = 0
      \<and> mset (snd (rrun (expires ?ts) r)) = mset (map (\<lambda>(s, p). pdVal p) (rPend r))" .
  then show ?thesis using r(1) def by (intro exI [of _ r]) simp
qed

text \<open>
  Giving up on a gap goes to the nearest packet and no further. When the gap of a
  started reassembler has blocked for \<open>SkipAfter\<close>, \<open>Expire\<close> returns first the held packet
  nearest ahead of \<open>next\<close>, then whatever is contiguous with it, and counts exactly the
  numbers in front of it as skipped; before that moment \<open>Expire\<close> changes nothing.
\<close>

lemma Expire_nearest:
  assumes "r_inv r" and "rStarted r" and "ahead r" and "rPend r \<noteq> []" and "rBlockedSince r \<noteq> 0"
    and "0 \<le> rSkipAfter r" and "rSkipAfter r < 2 ^ 63"
  shows "if now - rBlockedSince r < rSkipAfter r then Expire r now wall = (r, [])
    else \<exists>l p rest. map_of (rPend r) l = Some p
      \<and> list_all (\<lambda>s. diff l (rNext r) \<le> diff s (rNext r)) (map fst (rPend r))
      \<and> snd (Expire r now wall) = pdVal p # rest
      \<and> rSkipped (fst (Expire r now wall)) = rSkipped r + word_of_int (diff l (rNext r))
      \<and> rNext (fst (Expire r now wall)) = l + 1 + of_nat (length rest)"
proof (cases "now - rBlockedSince r < rSkipAfter r")
  case True
  with assms show ?thesis by (simp add: Expire_def timeSub_less_iff)
next
  case False
  obtain l where l: "lowest r = Some l" using assms(4) by (metis lowest_None_iff not_None_eq)
  from lowest_in [OF l] obtain p where p: "map_of (rPend r) l = Some p" by auto
  have pos: "0 < diff l (rNext r)" using lowest_held [OF l] assms(3) by (simp add: ahead_def)
  have "\<forall>s \<in> fst ` set (rPend r). 0 \<le> diff s (rNext r)"
    using assms(3) unfolding ahead_def held_def by fastforce
  then have near: "list_all (\<lambda>s. diff l (rNext r) \<le> diff s (rNext r)) (map fst (rPend r))"
    using lowest_least [OF _ l, of "rNext r"] by (simp add: list_all_iff)
  let ?r = "r\<lparr>rSkipped := rSkipped r + word_of_int (diff l (rNext r)), rNext := l, rBlockedSince := now\<rparr>"
  obtain r' outs where d: "drain ?r [] wall = (r'\<lparr>rBlockedSince := if rPend r' = [] then 0 else wall\<rparr>, outs)"
    and r': "drained ?r r' outs"
    using drain_drained [of ?r "[]" wall] r_invD(1) [OF assms(1)] by auto
  have e: "Expire r now wall = drain ?r [] wall"
    using assms False pos by (simp add: Expire_def timeSub_less_iff IsZero_def skipToLowest_def l)
  have "outs \<noteq> []" "hd outs = pdVal p" using r' p by (simp_all add: drained_def)
  then obtain rest where "outs = pdVal p # rest" by (cases outs) simp_all
  moreover have "rSkipped r' = rSkipped ?r" "rNext r' = l + of_nat (length outs)"
    using drained_fields [OF r'] by simp_all
  ultimately show ?thesis using False near p by (simp add: e d add.assoc)
qed

text \<open>A reassembler across the wrap: next is \<open>2^32 - 1\<close>, and 0 and 2 have come.\<close>

definition gapped :: "nat Reorder" where
  "gapped = \<lparr>rNext = 4294967295, rStarted = True, rSettle = 0, rFirstSeen = 1,
       rPend = [(2, \<lparr>pdVal = 10, pdAt = 1\<rparr>), (0, \<lparr>pdVal = 20, pdAt = 1\<rparr>)], rMaxPend = 10,
       rRetransmitAfter = 5, rSkipAfter = 9, rBlockedSince = 1, rLastRequest = 0, rDelivered = 0,
       rDuplicated = 0, rLate = 0, rSkipped = 0, rRequested = 0, rMaxSeen = 2\<rparr>"

lemma gapped_ok: "r_inv gapped" "ahead gapped"
  by (simp_all add: gapped_def r_inv_def ahead_def held_def diff_def)

lemma gapped_fields:
  "rStarted gapped" "rPend gapped \<noteq> []" "rBlockedSince gapped = 1" "rSkipAfter gapped = 9"
  "rRetransmitAfter gapped = 5" "rNext gapped = 4294967295" "rMaxSeen gapped = 2" "rLastRequest gapped = 0"
  by (simp_all add: gapped_def)

text \<open>Which positions the gap list names.\<close>

lemma gaps_iff:
  assumes "diff n m \<le> 0" and "- (2 ^ 31) < diff n m"
  shows "s \<in> set (gaps pend m n) \<longleftrightarrow> map_of pend s = None \<and> 0 \<le> diff s n \<and> diff s n \<le> - diff n m"
proof -
  have b: "- diff n m < 2 ^ 31" using assms by simp
  have "(\<exists>i < nat (1 - diff n m). s = n + of_nat i) \<longleftrightarrow> 0 \<le> diff s n \<and> diff s n \<le> - diff n m"
  proof
    assume "\<exists>i < nat (1 - diff n m). s = n + of_nat i"
    then obtain i where i: "i < nat (1 - diff n m)" "s = n + of_nat i" by blast
    then have "diff s n = int i"
      using diff_of_int [of "int i" 0 n] b by simp
    with i(1) show "0 \<le> diff s n \<and> diff s n \<le> - diff n m" by simp
  next
    assume d: "0 \<le> diff s n \<and> diff s n \<le> - diff n m"
    then have "s = n + of_nat (nat (diff s n))"
      using diff_eq_of_int [of s n] by simp
    moreover have "nat (diff s n) < nat (1 - diff n m)" using d by simp
    ultimately show "\<exists>i < nat (1 - diff n m). s = n + of_nat i" by blast
  qed
  then show ?thesis by (auto simp: gaps_def)
qed

definition asks :: "'a Reorder \<Rightarrow> instant \<Rightarrow> bool" where
  "asks r now \<longleftrightarrow> rStarted r \<and> rPend r \<noteq> [] \<and> rBlockedSince r \<noteq> 0
     \<and> rRetransmitAfter r \<le> now - rBlockedSince r
     \<and> (rLastRequest r = 0 \<or> rRetransmitAfter r \<le> now - rLastRequest r)"

lemma Missing_cases:
  assumes "0 \<le> rRetransmitAfter r" and "rRetransmitAfter r < 2 ^ 63" and "0 \<le> limit"
  shows "Missing r now limit =
    (if asks r now
     then (r\<lparr>rLastRequest := now,
             rRequested := rRequested r + of_nat (length (take (nat limit) (gaps (rPend r) (rMaxSeen r) (rNext r))))\<rparr>,
           take (nat limit) (gaps (rPend r) (rMaxSeen r) (rNext r)))
     else (r, []))"
  using assms by (auto simp: Missing_def asks_def IsZero_def timeSub_less_iff missingLoop_gaps)

text \<open>
  Retransmission requests name exactly the gaps, and no storm of them. A request is
  an ascending run of numbers, none held, each between \<open>next\<close> and \<open>MaxSeen\<close>, at most \<open>limit\<close>
  of them and all of the gaps when they fit; and after a request at \<open>now\<close> the next one
  within \<open>RetransmitAfter\<close> is empty.
\<close>

lemma Missing_exact:
  assumes "0 \<le> rRetransmitAfter r" and "rRetransmitAfter r < 2 ^ 63" and "0 \<le> limit"
    and "diff (rNext r) (rMaxSeen r) \<le> 0" and "- (2 ^ 31) < diff (rNext r) (rMaxSeen r)"
    and "Missing r now limit = (r', asked)" and "asked \<noteq> []" and "now \<noteq> 0" and "later - now < rRetransmitAfter r"
  shows "int (length asked) \<le> limit
    \<and> (\<forall>s \<in> set asked. map_of (rPend r) s = None \<and> 0 \<le> diff s (rNext r) \<and> diff s (rNext r) \<le> - diff (rNext r) (rMaxSeen r))
    \<and> (int (length asked) < limit \<longrightarrow>
         (\<forall>s. map_of (rPend r) s = None \<and> 0 \<le> diff s (rNext r) \<and> diff s (rNext r) \<le> - diff (rNext r) (rMaxSeen r) \<longrightarrow> s \<in> set asked))
    \<and> Missing r' later limit = (r', [])"
proof -
  let ?g = "gaps (rPend r) (rMaxSeen r) (rNext r)"
  have asks: "asks r now" and asked: "asked = take (nat limit) ?g"
    and r': "r' = r\<lparr>rLastRequest := now, rRequested := rRequested r + of_nat (length asked)\<rparr>"
    using assms(6,7) Missing_cases [OF assms(1-3), of now] by (auto split: if_splits)
  have "\<not> asks r' later" using assms(8,9) by (auto simp: asks_def r')
  then have "Missing r' later limit = (r', [])"
    using Missing_cases [of r' limit later] assms(1-3) by (simp add: r')
  moreover have "set asked = set ?g" if "int (length asked) < limit"
    using that by (simp add: asked)
  moreover have "set asked \<subseteq> set ?g" by (simp add: asked set_take_subset)
  moreover have "int (length asked) \<le> limit" using assms(3) by (simp add: asked)
  ultimately show ?thesis using gaps_iff [OF assms(4,5), of _ "rPend r"] by blast
qed

text \<open>
  One stray packet silences retransmission. \<open>Push\<close> raises \<open>MaxSeen\<close> before it looks
  whether the packet is late; a number \<open>2^31 - 1\<close> past \<open>MaxSeen\<close>, when \<open>MaxSeen\<close> is at least two ahead of
  \<open>next\<close>, counts as late and is dropped, but \<open>next\<close> then lies on the far side of \<open>MaxSeen\<close>,
  and until \<open>next\<close> moves no gap is ever requested.
\<close>

lemma MaxSeen_poisoned:
  assumes "rStarted r" and "1 < diff (rMaxSeen r) (rNext r)"
  shows "let r' = fst (Push r (rMaxSeen r + 2147483647) v now wall) in
    snd (Push r (rMaxSeen r + 2147483647) v now wall) = [] \<and> rPend r' = rPend r \<and> rNext r' = rNext r
    \<and> rLate r' = rLate r + 1 \<and> snd (Missing r' t limit) = []"
proof -
  let ?s = "rMaxSeen r + 2147483647" and ?x = "diff (rMaxSeen r) (rNext r)"
  have s: "?s = rNext r + of_int (?x + 2147483647)" "rMaxSeen r = rNext r + of_int ?x"
    using diff_eq_of_int [of "rMaxSeen r" "rNext r"] by simp_all
  have wrap: "(of_int (i - 4294967296) :: u32) = of_int i" for i
    by (simp add: take_bit_eq_mod flip: word_of_int_eq_iff)
  have at: "diff b (rNext r) = k" "diff (rNext r) b = - k"
    if "b = rNext r + of_int k" "- (2 ^ 31) < k" "k < 2 ^ 31" for b k
    unfolding that(1) using diff_of_int [of k 0 "rNext r"] diff_of_int [of 0 k "rNext r"] that(2,3)
    by (simp_all only: of_int_0 add_0_right)
  let ?k = "?x + 2147483647 - 4294967296"
  have "?s = rNext r + of_int ?k" using s by (simp only: wrap)
  from at [OF this] have "diff ?s (rNext r) = ?k" "diff (rNext r) ?s = - ?k"
    using assms(2) diff_range [of "rMaxSeen r" "rNext r"] by simp_all
  then have late: "diff ?s (rNext r) < 0" and beyond: "0 < diff (rNext r) ?s"
    using assms(2) diff_range [of "rMaxSeen r" "rNext r"] by simp_all
  have new: "diff ?s (rMaxSeen r) > 0" by (simp add: diff_def)
  have none: "missingLoop pend ?s limit (rNext r) [] = []" for pend :: "(u32 \<times> 'a pending) list"
    using beyond by (subst missingLoop.simps) simp
  have p: "Push r ?s v now wall = (r\<lparr>rMaxSeen := ?s, rLate := rLate r + 1\<rparr>, [])"
    using assms(1) late new by (simp add: Push_def Let_def bumpMaxSeen_def)
  show ?thesis by (simp add: p Let_def Missing_def none)
qed

end
