(* ===== verification/Reorder_Spec.thy ===== *)
theory Reorder_Spec
  imports Reorder_Window
begin

text \<open>
  What the reassembler promises, over unbounded positions instead of 32-bit sequence
  numbers, and the proof that \<open>Reorder\<close> implements it: the abstract machine has no clock,
  no counter and no wrap-around, and every call of a started reassembler is one or two of
  its steps. Order, uniqueness and completeness of delivery are proved once, over the
  abstract machine, and carried over.
\<close>

section \<open>The abstract machine\<close>

record 'a window =
  wNext :: int
  wHeld :: "(int \<times> 'a) list"

function wdrain :: "'a window \<Rightarrow> 'a window \<times> (int \<times> 'a) list" where
  "wdrain w =
     (case map_of (wHeld w) (wNext w) of
        None \<Rightarrow> (w, [])
      | Some v \<Rightarrow> case wdrain (w\<lparr>wHeld := AList.delete (wNext w) (wHeld w), wNext := wNext w + 1\<rparr>) of
          (w', out) \<Rightarrow> (w', (wNext w, v) # out))"
  by pat_completeness auto
termination
  by (relation "measure (\<lambda>w. length (wHeld w))") (auto simp: length_delete_less)

declare wdrain.simps [simp del]

datatype 'a wop = WPush int 'a | WSkip

fun wstep :: "'a wop \<Rightarrow> 'a window \<Rightarrow> 'a window \<times> (int \<times> 'a) list" where
  "wstep (WPush k v) w =
     (if k < wNext w \<or> map_of (wHeld w) k \<noteq> None then (w, [])
      else wdrain (w\<lparr>wHeld := wHeld w @ [(k, v)]\<rparr>))"
| "wstep WSkip w =
     (if wHeld w = [] then (w, []) else wdrain (w\<lparr>wNext := Min (fst ` set (wHeld w))\<rparr>))"

fun wrun :: "'a wop list \<Rightarrow> 'a window \<Rightarrow> 'a window \<times> (int \<times> 'a) list" where
  "wrun [] w = (w, [])"
| "wrun (x # xs) w = (case wstep x w of (w1, o1) \<Rightarrow> case wrun xs w1 of (w2, o2) \<Rightarrow> (w2, o1 @ o2))"

text \<open>What was offered, in order.\<close>

fun offers :: "'a wop list \<Rightarrow> (int \<times> 'a) list" where
  "offers [] = []"
| "offers (WPush k v # xs) = (k, v) # offers xs"
| "offers (WSkip # xs) = offers xs"

lemma wrun_append:
  "wrun (xs @ ys) w = (case wrun xs w of (w1, o1) \<Rightarrow> case wrun ys w1 of (w2, o2) \<Rightarrow> (w2, o1 @ o2))"
  by (induction xs arbitrary: w) (simp_all split: prod.splits)

lemma offers_append: "offers (xs @ ys) = offers xs @ offers ys"
  by (induction xs rule: offers.induct) simp_all

definition w_ok :: "'a window \<Rightarrow> bool" where
  "w_ok w \<longleftrightarrow> distinct (map fst (wHeld w)) \<and> (\<forall>k \<in> fst ` set (wHeld w). wNext w < k)"

text \<open>
  The whole story of one drain: it delivers a run of consecutive positions, keeps the rest,
  and ends at a position that is not held.
\<close>

definition wdrained :: "'a window \<Rightarrow> 'a window \<Rightarrow> (int \<times> 'a) list \<Rightarrow> bool" where
  "wdrained w w' out \<longleftrightarrow> wNext w \<le> wNext w' \<and> map fst out = [wNext w..wNext w' - 1]
     \<and> (\<forall>(k, v) \<in> set out. map_of (wHeld w) k = Some v)
     \<and> (\<forall>k. map_of (wHeld w') k = (if wNext w' \<le> k then map_of (wHeld w) k else None)) \<and> w_ok w'"

lemma wdrain_drained:
  assumes "distinct (map fst (wHeld w))" and "\<forall>k \<in> fst ` set (wHeld w). wNext w \<le> k"
    and "wdrain w = (w', out)"
  shows "wdrained w w' out"
  using assms
proof (induction w arbitrary: w' out rule: wdrain.induct)
  case (1 w)
  show ?case
  proof (cases "map_of (wHeld w) (wNext w)")
    case None
    then have "wNext w \<notin> fst ` set (wHeld w)" by (simp add: lookup_None_iff)
    with 1(3) have gt: "\<forall>k \<in> fst ` set (wHeld w). wNext w < k" by force
    then have "map_of (wHeld w) k = None" if "\<not> wNext w \<le> k" for k
      using that unfolding lookup_None_iff by force
    with None gt 1(2,4) show ?thesis
      by (auto simp: wdrained_def w_ok_def wdrain.simps [of w])
  next
    case (Some v)
    let ?w = "w\<lparr>wHeld := AList.delete (wNext w) (wHeld w), wNext := wNext w + 1\<rparr>"
    obtain out' where d: "wdrain ?w = (w', out')" and out: "out = (wNext w, v) # out'"
      using 1(4) Some by (auto simp: wdrain.simps [of w] split: prod.splits)
    have "\<forall>k \<in> fst ` set (wHeld ?w). wNext ?w \<le> k"
      using 1(3) by (auto simp: order.strict_iff_order)
    with 1(1) [OF Some _ _ d] 1(2) have IH: "wdrained ?w w' out'"
      by (simp add: distinct_delete)
    then have le: "wNext w + 1 \<le> wNext w'" and fst: "map fst out' = [wNext w + 1..wNext w' - 1]"
      and ok: "w_ok w'"
      and vals: "\<forall>(k, v) \<in> set out'. map_of (AList.delete (wNext w) (wHeld w)) k = Some v"
      and held: "\<forall>k. map_of (wHeld w') k = (if wNext w' \<le> k then map_of (AList.delete (wNext w) (wHeld w)) k else None)"
      by (simp_all add: wdrained_def)
    have "map fst out = [wNext w..wNext w' - 1]"
      using le by (simp add: out fst upto_rec1)
    moreover have "\<forall>(k, v) \<in> set out. map_of (wHeld w) k = Some v"
      using vals Some by (auto simp: out lookup_delete split: if_splits)
    moreover have "\<forall>k. map_of (wHeld w') k = (if wNext w' \<le> k then map_of (wHeld w) k else None)"
      using held le by (auto simp: lookup_delete)
    ultimately show ?thesis using le ok by (simp add: wdrained_def)
  qed
qed

text \<open>
  The contract of a run. Positions come out in strictly increasing order, each with the
  first value offered for it; what has not been passed is held with the first value
  offered; and when nothing was skipped, the positions that came out are consecutive.
\<close>

definition wran :: "'a window \<Rightarrow> 'a wop list \<Rightarrow> 'a window \<Rightarrow> (int \<times> 'a) list \<Rightarrow> bool" where
  "wran w xs w' out \<longleftrightarrow> wNext w \<le> wNext w' \<and> sorted_wrt (<) (map fst out)
     \<and> (\<forall>(k, v) \<in> set out. wNext w \<le> k \<and> k < wNext w' \<and> map_of (wHeld w @ offers xs) k = Some v)
     \<and> (\<forall>k \<ge> wNext w'. map_of (wHeld w') k = map_of (wHeld w @ offers xs) k) \<and> w_ok w'
     \<and> (WSkip \<notin> set xs \<longrightarrow> map fst out = [wNext w..wNext w' - 1])"

lemma wdrained_wran:
  assumes d: "wdrained w1 w' out" and "wNext w \<le> wNext w1"
    and held: "\<forall>k \<ge> wNext w1. map_of (wHeld w1) k = map_of (wHeld w @ offers [x]) k"
    and "x = WSkip \<or> wNext w1 = wNext w"
  shows "wran w [x] w' out"
proof -
  have range: "wNext w1 \<le> k \<and> k < wNext w' \<and> map_of (wHeld w @ offers [x]) k = Some v" if "(k, v) \<in> set out" for k v
  proof -
    have "k \<in> set (map fst out)" using that by force
    then have "wNext w1 \<le> k \<and> k < wNext w'" using d by (simp add: wdrained_def del: set_map)
    moreover have "map_of (wHeld w1) k = Some v" using d that by (auto simp: wdrained_def)
    ultimately show ?thesis using held by metis
  qed
  then have "\<forall>(k, v) \<in> set out. wNext w \<le> k \<and> k < wNext w' \<and> map_of (wHeld w @ offers [x]) k = Some v"
    using assms(2) by fastforce
  moreover have "sorted_wrt (<) (map fst out)" using d by (simp add: wdrained_def)
  moreover have "wNext w \<le> wNext w'" using d assms(2) by (simp add: wdrained_def)
  moreover have "\<forall>k \<ge> wNext w'. map_of (wHeld w') k = map_of (wHeld w @ offers [x]) k"
    using d held by (simp add: wdrained_def)
  ultimately show ?thesis using d assms(4) by (auto simp: wran_def wdrained_def)
qed

lemma wstep_wran:
  assumes ok: "w_ok w" and "wstep x w = (w', out)"
  shows "wran w [x] w' out"
proof (cases x)
  case (WPush k v)
  show ?thesis
  proof (cases "k < wNext w \<or> map_of (wHeld w) k \<noteq> None")
    case True
    then have "map_of (wHeld w @ [(k, v)]) q = map_of (wHeld w) q" if "wNext w \<le> q" for q
      using that by (auto simp: map_add_def split: option.split)
    with True ok assms(2) WPush show ?thesis by (auto simp: wran_def)
  next
    case False
    let ?w = "w\<lparr>wHeld := wHeld w @ [(k, v)]\<rparr>"
    have "wdrain ?w = (w', out)" using assms(2) WPush False by simp
    moreover have "k \<notin> fst ` set (wHeld w)" using False by (simp add: lookup_None_iff)
    ultimately have "wdrained ?w w' out"
      using ok False by (intro wdrain_drained) (auto simp: w_ok_def)
    then show ?thesis by (rule wdrained_wran) (simp_all add: WPush)
  qed
next
  case WSkip
  show ?thesis
  proof (cases "wHeld w = []")
    case True
    with ok assms(2) WSkip show ?thesis by (simp add: wran_def)
  next
    case False
    let ?K = "fst ` set (wHeld w)" and ?w = "w\<lparr>wNext := Min (fst ` set (wHeld w))\<rparr>"
    have ne: "finite ?K" "?K \<noteq> {}" using False by simp_all
    have "wNext w < Min ?K" using ok Min_in [OF ne] by (auto simp: w_ok_def)
    have "wdrain ?w = (w', out)" using assms(2) WSkip False by simp
    then have "wdrained ?w w' out"
      using ok Min_le [OF ne(1)] by (intro wdrain_drained) (auto simp: w_ok_def)
    then show ?thesis
      by (rule wdrained_wran) (use \<open>wNext w < Min ?K\<close> in \<open>simp_all add: WSkip\<close>)
  qed
qed

lemma delete_append_self: "AList.delete k (m @ [(k, v)]) = AList.delete k m"
  by (induction m) auto

lemma upto_join:
  assumes "a \<le> b" and "b \<le> c"
  shows "[a..b - 1] @ [b..c - 1] = [a..c - 1 :: int]"
proof (cases "a = b")
  case False
  have "[a..c - 1] = [a..b - 1] @ [b - 1 + 1..c - 1]"
    by (rule upto_split2) (use assms False in linarith)+
  then show ?thesis unfolding diff_add_cancel by (rule sym)
qed (simp only: upto_empty diff_less_eq less_add_one append_Nil)

lemma wran_trans:
  assumes 1: "wran w xs w1 o1" and 2: "wran w1 ys w2 o2"
  shows "wran w (xs @ ys) w2 (o1 @ o2)"
proof -
  have le: "wNext w \<le> wNext w1" "wNext w1 \<le> wNext w2" using 1 2 by (simp_all add: wran_def)
  have held: "map_of (wHeld w1 @ offers ys) k = map_of (wHeld w @ offers (xs @ ys)) k" if "wNext w1 \<le> k" for k
    using 1 that by (simp add: wran_def offers_append map_add_def split: option.split)
  have keys: "k < wNext w1" if "k \<in> fst ` set o1" for k using 1 that by (auto simp: wran_def)
  have keys2: "wNext w1 \<le> k" if "k \<in> fst ` set o2" for k using 2 that by (auto simp: wran_def)
  have "k < k'" if "k \<in> fst ` set o1" "k' \<in> fst ` set o2" for k k'
    using keys [OF that(1)] keys2 [OF that(2)] by simp
  moreover have "sorted_wrt (<) (map fst o1)" "sorted_wrt (<) (map fst o2)"
    using 1 2 by (simp_all add: wran_def)
  ultimately have "sorted_wrt (<) (map fst (o1 @ o2))"
    by (simp add: sorted_wrt_append)
  moreover have "wNext w \<le> k \<and> k < wNext w2 \<and> map_of (wHeld w @ offers (xs @ ys)) k = Some v"
    if "(k, v) \<in> set (o1 @ o2)" for k v
  proof (cases "(k, v) \<in> set o1")
    case True
    with 1 have "wNext w \<le> k" "k < wNext w1" "map_of (wHeld w @ offers xs) k = Some v"
      by (auto simp: wran_def)
    with le show ?thesis by (auto simp: offers_append map_add_def split: option.splits)
  next
    case False
    with that have "(k, v) \<in> set o2" by simp
    with 2 have "wNext w1 \<le> k" "k < wNext w2" "map_of (wHeld w1 @ offers ys) k = Some v"
      by (auto simp: wran_def)
    with held [of k] le show ?thesis by simp
  qed
  moreover have "\<forall>k \<ge> wNext w2. map_of (wHeld w2) k = map_of (wHeld w @ offers (xs @ ys)) k"
    using 2 held le by (simp add: wran_def)
  moreover have "map fst (o1 @ o2) = [wNext w..wNext w2 - 1]" if "WSkip \<notin> set (xs @ ys)"
    using 1 2 that le by (simp add: wran_def upto_join)
  ultimately show ?thesis using le 2 by (auto simp: wran_def)
qed

lemma wrun_wran: "w_ok w \<Longrightarrow> wrun xs w = (w', out) \<Longrightarrow> wran w xs w' out"
proof (induction xs arbitrary: w out)
  case Nil
  then show ?case by (simp add: wran_def)
next
  case (Cons x xs)
  obtain w1 o1 where 1: "wstep x w = (w1, o1)" by (metis surj_pair)
  obtain o2 where 2: "wrun xs w1 = (w', o2)" "out = o1 @ o2"
    using Cons.prems(2) by (auto simp: 1 split: prod.splits)
  have s: "wran w [x] w1 o1" using Cons.prems(1) 1 by (rule wstep_wran)
  then have "wran w1 xs w' o2" using 2(1) by (intro Cons.IH) (simp_all add: wran_def)
  from wran_trans [OF s this] show ?case by (simp add: 2(2))
qed

section \<open>Reorder implements it\<close>

text \<open>
  A state of the reassembler seen from position \<open>n\<close>, the position of \<open>next\<close>: each held
  number stands at its signed distance from \<open>next\<close>.
\<close>

definition place :: "int \<Rightarrow> 'a Reorder \<Rightarrow> u32 \<Rightarrow> int" where
  "place n r s = n + diff s (rNext r)"

definition view :: "int \<Rightarrow> 'a Reorder \<Rightarrow> 'a window" where
  "view n r = \<lparr>wNext = n, wHeld = map (\<lambda>(s, p). (place n r s, pdVal p)) (rPend r)\<rparr>"

lemma view_fields [simp]: "wNext (view n r) = n"
  "wHeld (view n r) = map (\<lambda>(s, p). (place n r s, pdVal p)) (rPend r)"
  by (simp_all add: view_def)

lemma place_next [simp]: "place n r (rNext r) = n"
  by (simp add: place_def)

lemma place_inj: "place n r s = place n r t \<longleftrightarrow> s = t"
  using diff_eq_of_int [of s "rNext r"] diff_eq_of_int [of t "rNext r"] by (auto simp: place_def)

lemma seq_of_place: "s = rNext r + of_int (place n r s - n)"
  using diff_eq_of_int [of s "rNext r"] by (simp add: place_def)

lemma of_int_place: "(of_int (place n r s) :: u32) = of_int n + (s - rNext r)"
  by (simp add: place_def of_int_diff_diff)

lemma lookup_rename:
  assumes "inj f"
  shows "map_of (map (\<lambda>(s, p). (f s, g p)) m) (f k) = map_option g (map_of m k)"
    and "AList.delete (f k) (map (\<lambda>(s, p). (f s, g p)) m) = map (\<lambda>(s, p). (f s, g p)) (AList.delete k m)"
  using assms by (induction m) (auto simp: inj_eq)

lemma inj_place: "inj (place n r)"
  by (simp add: inj_def place_inj)

lemma lookup_view: "map_of (wHeld (view n r)) (place n r s) = map_option pdVal (map_of (rPend r) s)"
  by (simp add: lookup_rename inj_place)

lemma lookup_view_next: "map_of (wHeld (view n r)) n = map_option pdVal (map_of (rPend r) (rNext r))"
  using lookup_view [of n r "rNext r"] by simp

text \<open>Moving past \<open>next\<close> leaves every held packet in its place.\<close>

lemma view_advance:
  assumes "\<forall>s \<in> held r. 0 \<le> diff s (rNext r)" and "rPend r' = AList.delete (rNext r) (rPend r)"
    and "rNext r' = rNext r + 1"
  shows "view (n + 1) r' = (view n r)\<lparr>wNext := n + 1, wHeld := AList.delete n (wHeld (view n r))\<rparr>"
proof -
  have same: "place (n + 1) r' s = place n r s" if "s \<in> held r" "s \<noteq> rNext r" for s
  proof -
    have "0 < diff s (rNext r)" using assms(1) that by (metis diff_eq_0_iff le_less)
    then show ?thesis by (simp add: place_def assms(3) diff_Suc)
  qed
  have "map (\<lambda>(s, p). (place (n + 1) r' s, pdVal p)) (rPend r')
      = map (\<lambda>(s, p). (place n r s, pdVal p)) (AList.delete (rNext r) (rPend r))"
  proof (rule map_cong)
    show "rPend r' = AList.delete (rNext r) (rPend r)" by (rule assms(2))
    fix x assume x: "x \<in> set (AList.delete (rNext r) (rPend r))"
    then have "fst x \<in> fst ` set (rPend r) - {rNext r}" by (metis keys_delete image_eqI)
    then show "(case x of (s, p) \<Rightarrow> (place (n + 1) r' s, pdVal p)) = (case x of (s, p) \<Rightarrow> (place n r s, pdVal p))"
      using same [of "fst x"] by (cases x) (simp add: held_def)
  qed
  also have "\<dots> = AList.delete n (map (\<lambda>(s, p). (place n r s, pdVal p)) (rPend r))"
    using lookup_rename(2) [OF inj_place, of n r "rNext r" pdVal "rPend r"] by simp
  finally show ?thesis by (simp add: view_def)
qed

lemma drainLoop_refines:
  assumes "\<forall>s \<in> held r. 0 \<le> diff s (rNext r)"
  shows "\<exists>w tagged. wdrain (view n r) = (w, tagged) \<and> snd (drainLoop r out) = out @ map snd tagged
    \<and> w = view (wNext w) (fst (drainLoop r out))
    \<and> rNext (fst (drainLoop r out)) = rNext r + of_int (wNext w - n)"
  using assms
proof (induction r out arbitrary: n rule: drainLoop.induct)
  case (1 r out)
  show ?case
  proof (cases "map_of (rPend r) (rNext r)")
    case None
    then have "map_of (wHeld (view n r)) n = None" unfolding lookup_view_next by simp
    then have "wdrain (view n r) = (view n r, [])" by (subst wdrain.simps) (simp only: view_fields, simp)
    then show ?thesis by (simp add: drainLoop.simps [of r] None)
  next
    case (Some p)
    let ?r = "r\<lparr>rPend := AList.delete (rNext r) (rPend r), rNext := rNext r + 1, rDelivered := rDelivered r + 1\<rparr>"
    have "0 \<le> diff s (rNext ?r)" if "s \<in> held ?r" for s
    proof -
      have "s \<in> held r" "s \<noteq> rNext r" using that by (auto simp: held_def)
      then have "0 < diff s (rNext r)" using 1(2) by (metis diff_eq_0_iff le_less)
      then show ?thesis by (simp add: diff_Suc)
    qed
    with 1(1) [OF Some, of "n + 1"] obtain w tagged where
      d: "wdrain (view (n + 1) ?r) = (w, tagged)"
        "snd (drainLoop ?r (out @ [pdVal p])) = (out @ [pdVal p]) @ map snd tagged"
        "w = view (wNext w) (fst (drainLoop ?r (out @ [pdVal p])))"
        "rNext (fst (drainLoop ?r (out @ [pdVal p]))) = rNext ?r + of_int (wNext w - (n + 1))"
      by blast
    have at: "map_of (wHeld (view n r)) n = Some (pdVal p)" unfolding lookup_view_next Some by simp
    have "view (n + 1) ?r = (view n r)\<lparr>wNext := n + 1, wHeld := AList.delete n (wHeld (view n r))\<rparr>"
      using 1(2) by (intro view_advance) simp_all
    then have "wdrain (view n r) = (w, (n, pdVal p) # tagged)"
      using d(1) at by (subst wdrain.simps) (simp add: view_def)
    then show ?thesis using d(2-) by (simp add: drainLoop.simps [of r] Some)
  qed
qed

text \<open>
  One call against abstract steps: the abstract machine ends in the view of the new
  state, and gives the same packets, tagged with their positions.
\<close>

definition refines :: "int \<Rightarrow> 'a Reorder \<Rightarrow> 'a wop list \<Rightarrow> 'a Reorder \<times> 'a list \<Rightarrow> bool" where
  "refines n r xs x \<longleftrightarrow> (case wrun xs (view n r) of (w, tagged) \<Rightarrow>
     snd x = map snd tagged \<and> w = view (wNext w) (fst x) \<and> rNext (fst x) = rNext r + of_int (wNext w - n))"

lemma refinesI:
  assumes "wrun xs (view n r) = (view n' r', tagged)" and "outs = map snd tagged"
    and "rNext r' = rNext r + of_int (n' - n)"
  shows "refines n r xs (r', outs)"
  using assms by (simp add: refines_def)

lemma view_cong: "rPend r' = rPend r \<Longrightarrow> rNext r' = rNext r \<Longrightarrow> view n r' = view n r"
  by (simp add: view_def place_def)

lemma drain_refines:
  assumes "\<forall>s \<in> held r. 0 \<le> diff s (rNext r)"
  shows "\<exists>n' tagged r'. drain r out wall = (r', out @ map snd tagged)
    \<and> wdrain (view n r) = (view n' r', tagged) \<and> rNext r' = rNext r + of_int (n' - n)"
proof -
  obtain w tagged where d: "wdrain (view n r) = (w, tagged)" "snd (drainLoop r out) = out @ map snd tagged"
    "w = view (wNext w) (fst (drainLoop r out))" "rNext (fst (drainLoop r out)) = rNext r + of_int (wNext w - n)"
    using drainLoop_refines [OF assms] by metis
  obtain r1 where r1: "drainLoop r out = (r1, out @ map snd tagged)" using d(2) by (metis prod.collapse)
  let ?r = "if rPend r1 = [] then r1\<lparr>rBlockedSince := 0\<rparr> else r1\<lparr>rBlockedSince := wall\<rparr>"
  have "view (wNext w) ?r = view (wNext w) r1" by (rule view_cong) simp_all
  then have "w = view (wNext w) ?r" using d(3) by (simp only: r1 fst_conv)
  with d(1) have "wdrain (view n r) = (view (wNext w) ?r, tagged)" by simp
  moreover have "drain r out wall = (?r, out @ map snd tagged)" by (simp add: drain_def r1)
  moreover have "rNext ?r = rNext r + of_int (wNext w - n)" using d(4) by (simp add: r1)
  ultimately show ?thesis by blast
qed

lemma held_memI: "(s, p) \<in> set (rPend r) \<Longrightarrow> s \<in> held r"
  unfolding held_def by force

lemma skipToLowest_refines:
  assumes "ahead r"
  shows "refines n r [WSkip] (skipToLowest r now wall)"
proof (cases "lowest r")
  case None
  then have "rPend r = []" by (simp add: lowest_None_iff)
  with None show ?thesis by (simp add: refines_def skipToLowest_def)
next
  case (Some l)
  then have ne: "rPend r \<noteq> []" by (metis lowest_None_iff option.distinct(1))
  have l: "l \<in> fst ` set (rPend r)" using lowest_held [OF Some] by (simp add: held_def)
  have nonneg: "\<forall>s \<in> held r. 0 \<le> diff s (rNext r)" using assms by (auto simp: ahead_def)
  have least: "diff l (rNext r) \<le> diff s (rNext r)" if "s \<in> fst ` set (rPend r)" for s
    using lowest_least [OF _ Some, of "rNext r"] nonneg that unfolding held_def by blast
  have keys: "fst ` set (wHeld (view n r)) = place n r ` (fst ` set (rPend r))"
    by (force simp: image_iff split: prod.splits)
  have "Min (fst ` set (wHeld (view n r))) = place n r l"
    unfolding keys
  proof (rule Min_eqI)
    show "place n r l \<le> k" if "k \<in> place n r ` (fst ` set (rPend r))" for k
    proof -
      from that obtain s where "s \<in> fst ` set (rPend r)" "k = place n r s" by blast
      with least [of s] show ?thesis by (simp add: place_def)
    qed
    show "place n r l \<in> place n r ` (fst ` set (rPend r))" using l by (rule imageI)
  qed simp
  let ?r = "r\<lparr>rSkipped := rSkipped r + word_of_int (diff l (rNext r)), rNext := l, rBlockedSince := now\<rparr>"
  have skip: "skipToLowest r now wall = drain ?r [] wall"
    using lowest_held [OF Some] assms by (simp add: skipToLowest_def Some ahead_def)
  have near: "\<forall>s \<in> held r. 0 \<le> diff s l" using nonneg Some by (rule lowest_ahead)
  have "place (place n r l) ?r s = place n r s" if "s \<in> held r" for s
    using diff_trans [of s "rNext r" l] nonneg lowest_held [OF Some] that by (simp add: place_def)
  then have "view (place n r l) ?r = (view n r)\<lparr>wNext := place n r l\<rparr>"
    by (auto simp: view_def dest: held_memI)
  moreover have "wHeld (view n r) \<noteq> []" using ne by simp
  ultimately have abs: "wrun [WSkip] (view n r) = wdrain (view (place n r l) ?r)"
    using \<open>Min _ = _\<close> by (cases "wdrain (view (place n r l) ?r)") simp
  obtain n' tagged r' where d: "drain ?r [] wall = (r', map snd tagged)"
    "wdrain (view (place n r l) ?r) = (view n' r', tagged)" "rNext r' = l + of_int (n' - place n r l)"
    using drain_refines [of ?r "[]" wall "place n r l"] near by auto
  show ?thesis unfolding skip d(1)
  proof (rule refinesI)
    show "wrun [WSkip] (view n r) = (view n' r', tagged)" by (simp only: abs d(2))
    show "rNext r' = rNext r + of_int (n' - n)"
      using d(3) by (simp add: of_int_place)
  qed simp
qed

text \<open>The abstract steps of one call, and of a run.\<close>

fun wops :: "int \<Rightarrow> 'a Reorder \<Rightarrow> 'a rop \<Rightarrow> 'a wop list" where
  "wops n r (RPush seq v now wall) =
     WPush (place n r seq) v #
       (if 0 < diff seq (rNext r) \<and> map_of (rPend r) seq = None \<and> int (length (rPend r)) + 1 > rMaxPend r
        then [WSkip] else [])"
| "wops n r (RExpire now wall) =
     (if rPend r \<noteq> [] \<and> rBlockedSince r \<noteq> 0 \<and> \<not> timeSub now (rBlockedSince r) < rSkipAfter r
      then [WSkip] else [])"
| "wops n r (RMissing now limit) = []"
| "wops n r RReset = []"

fun script :: "int \<Rightarrow> 'a Reorder \<Rightarrow> 'a rop list \<Rightarrow> 'a wop list" where
  "script n r [] = []"
| "script n r (x # xs) =
     wops n r x @ script (wNext (fst (wrun (wops n r x) (view n r)))) (fst (rstep x r)) xs"

lemma refines_append:
  assumes "refines n r xs (r1, o1)" and "refines (wNext (fst (wrun xs (view n r)))) r1 ys (r2, o2)"
  shows "refines n r (xs @ ys) (r2, o1 @ o2)"
  using assms by (auto simp: refines_def wrun_append split: prod.splits)

lemma view_snoc:
  assumes "rPend r' = rPend r @ [(s, p)]" and "rNext r' = rNext r"
  shows "view n r' = (view n r)\<lparr>wHeld := wHeld (view n r) @ [(place n r s, pdVal p)]\<rparr>"
  using assms by (simp add: view_def place_def)

lemma update_new: "map_of m k = None \<Longrightarrow> AList.update k v m = m @ [(k, v)]"
  by (induction m) (auto split: if_splits)

lemma wdrain_hit:
  assumes "map_of (wHeld w) (wNext w) = None"
  shows "wdrain (w\<lparr>wHeld := wHeld w @ [(wNext w, v)]\<rparr>)
    = (case wdrain (w\<lparr>wNext := wNext w + 1\<rparr>) of (w', out) \<Rightarrow> (w', (wNext w, v) # out))"
proof (cases w)
  case (fields n h)
  then have "AList.delete n h = h" using assms by (intro delete_absent) (simp add: lookup_None_iff del: set_map)
  moreover have "map_of (h @ [(n, v)]) n = Some v" using assms fields by (simp add: map_add_def)
  ultimately show ?thesis
    unfolding fields by (subst wdrain.simps) (simp add: delete_append_self del: map_of_append)
qed

lemma wdrain_miss: "map_of (wHeld w) (wNext w) = None \<Longrightarrow> wdrain w = (w, [])"
  by (simp add: wdrain.simps)

lemma Push_refines:
  assumes "rStarted r" and "ahead r"
  shows "refines n r (wops n r (RPush seq v now wall)) (Push r seq v now wall)"
proof -
  let ?d = "diff seq (rNext r)"
  let ?b = "bumpMaxSeen r seq"
  consider "?d < 0" | "seq = rNext r" | "0 < ?d" "map_of (rPend r) seq \<noteq> None"
    | "0 < ?d" "map_of (rPend r) seq = None" by (metis diff_eq_0_iff linorder_less_linear)
  then show ?thesis
  proof cases
    case 1
    have "view n (?b\<lparr>rLate := rLate ?b + 1\<rparr>) = view n r" by (rule view_cong) simp_all
    moreover have "place n r seq < n" using 1 by (simp add: place_def)
    ultimately show ?thesis using 1 assms by (simp add: refines_def Push_def Let_def)
  next
    case 2
    let ?r = "?b\<lparr>rNext := rNext r + 1, rDelivered := rDelivered r + 1\<rparr>"
    have seq: "rNext r \<notin> held r" using assms(2) by (auto simp: ahead_def)
    have "\<forall>s \<in> held ?r. 0 \<le> diff s (rNext ?r)"
      using assms(2) by (simp add: ahead_def diff_Suc)
    from drain_refines [OF this, of "[v]" wall "n + 1"] obtain n' tagged r' where
      d: "drain ?r [v] wall = (r', v # map snd tagged)" "wdrain (view (n + 1) ?r) = (view n' r', tagged)"
        "rNext r' = rNext r + 1 + of_int (n' - (n + 1))" by auto
    have none: "map_of (wHeld (view n r)) n = None"
      unfolding lookup_view_next using seq by (simp add: lookup_held [symmetric])
    let ?w = "(view n r)\<lparr>wHeld := wHeld (view n r) @ [(n, v)]\<rparr>"
    have del: "AList.delete n (wHeld (view n r)) = wHeld (view n r)"
      using none by (intro delete_absent) (metis lookup_None_iff)
    have pend: "AList.delete (rNext r) (rPend r) = rPend r"
      using seq unfolding held_def by (rule delete_absent)
    have "view (n + 1) ?r = (view n r)\<lparr>wNext := n + 1, wHeld := AList.delete n (wHeld (view n r))\<rparr>"
      using assms(2) by (intro view_advance) (auto simp: ahead_def pend)
    then have "view (n + 1) ?r = (view n r)\<lparr>wNext := n + 1\<rparr>"
      unfolding del by (simp add: view_def)
    then have "wdrain ?w = (view n' r', (n, v) # tagged)"
      using d(2) none wdrain_hit [of "view n r" v] by (simp del: view_fields(2))
    then have "wrun [WPush n v] (view n r) = (view n' r', (n, v) # tagged)"
      using none by (simp del: view_fields(2))
    moreover have "Push r seq v now wall = (r', v # map snd tagged)"
      using 2 assms(1) d(1) by (simp add: Push_def Let_def)
    moreover have "wops n r (RPush seq v now wall) = [WPush n v]" using 2 by simp
    ultimately show ?thesis using d(3) by (simp add: refines_def)
  next
    case 3
    have "view n (?b\<lparr>rDuplicated := rDuplicated ?b + 1\<rparr>) = view n r" by (rule view_cong) simp_all
    moreover have "map_of (wHeld (view n r)) (place n r seq) \<noteq> None" using 3 by (simp only: lookup_view) simp
    ultimately show ?thesis using 3 assms(1)
      by (auto simp: refines_def Push_def Let_def simp del: view_fields(2))
  next
    case 4
    let ?p = "\<lparr>pdVal = v, pdAt = now\<rparr>"
    let ?h = "markBlocked (hold ?b seq v now) now"
    let ?w = "(view n r)\<lparr>wHeld := wHeld (view n r) @ [(place n r seq, v)]\<rparr>"
    have pend: "rPend ?h = rPend r @ [(seq, ?p)]" using 4(2) by (simp add: update_new)
    then have h: "view n ?h = ?w" using view_snoc [of ?h r seq ?p n] by simp
    have ne: "place n r seq \<noteq> n" using 4(1) by (auto simp: place_def)
    have "rNext r \<notin> held r" using assms(2) by (auto simp: ahead_def)
    then have "map_of (wHeld (view n r)) n = None"
      unfolding lookup_view_next by (simp add: lookup_held [symmetric])
    then have "wdrain ?w = (?w, [])" using ne by (intro wdrain_miss) (simp del: view_fields(2))
    moreover have "map_of (wHeld (view n r)) (place n r seq) = None" using 4(2) by (simp only: lookup_view) simp
    moreover have "n < place n r seq" using 4(1) by (simp add: place_def)
    ultimately have step: "wrun [WPush (place n r seq) v] (view n r) = (view n ?h, [])"
      by (simp add: h del: view_fields(2))
    then have one: "refines n r [WPush (place n r seq) v] (?h, [])"
      by (rule refinesI) simp_all
    have far: "seq \<noteq> rNext r" "\<not> diff seq (rNext r) < 0" using 4(1) by auto
    show ?thesis
    proof (cases "int (length (rPend r)) + 1 > rMaxPend r")
      case True
      have "ahead ?h" using assms(2) 4(1) by (simp add: ahead_def)
      then have "refines n ?h [WSkip] (skipToLowest ?h now wall)" by (rule skipToLowest_refines)
      moreover have "wNext (fst (wrun [WPush (place n r seq) v] (view n r))) = n"
        unfolding step by simp
      moreover have "Push r seq v now wall = skipToLowest ?h now wall"
        using True far 4(2) assms(1) pend by (simp add: Push_def Let_def)
      ultimately show ?thesis
        using refines_append [OF one] True 4 by (cases "skipToLowest ?h now wall") fastforce
    next
      case False
      then have "Push r seq v now wall = (?h, [])"
        using far 4(2) assms(1) pend by (simp add: Push_def Let_def)
      with one False show ?thesis by simp
    qed
  qed
qed

lemma rstep_refines:
  assumes "x \<noteq> RReset" and "rStarted r" and "ahead r"
  shows "refines n r (wops n r x) (rstep x r)"
proof (cases x)
  case (RPush seq v now wall)
  then show ?thesis using Push_refines [OF assms(2,3)] by simp
next
  case (RExpire now wall)
  have stay: "refines n r [] (r, [])" by (simp add: refines_def)
  show ?thesis
    using skipToLowest_refines [OF assms(3), of n now wall] stay assms(2) RExpire
    by (simp add: Expire_def IsZero_def)
next
  case (RMissing now limit)
  have "rNext (fst (Missing r now limit)) = rNext r" "rPend (fst (Missing r now limit)) = rPend r"
    by (simp_all add: Missing_def Let_def)
  then show ?thesis using RMissing view_cong [of "fst (Missing r now limit)" r n]
    by (simp add: refines_def)
qed (use assms in simp)

lemma rrun_refines:
  assumes "RReset \<notin> set xs" and "rStarted r" and "ahead r"
  shows "refines n r (script n r xs) (rrun xs r)"
  using assms
proof (induction xs arbitrary: r n)
  case Nil
  then show ?case by (simp add: refines_def)
next
  case (Cons x xs)
  obtain r1 o1 where 1: "rstep x r = (r1, o1)" by (metis surj_pair)
  obtain r2 o2 where 2: "rrun xs r1 = (r2, o2)" by (metis surj_pair)
  have x: "x \<noteq> RReset" and xs: "RReset \<notin> set xs" using Cons.prems(1) by auto
  have "refines n r (wops n r x) (r1, o1)" using rstep_refines [OF x Cons.prems(2,3)] by (simp add: 1)
  moreover have "rStarted r1" "ahead r1"
    using rstep_started [OF x Cons.prems(2)] rstep_ahead [OF x Cons.prems(2,3)] by (simp_all add: 1)
  ultimately show ?case
    using Cons.IH [OF xs, of r1] refines_append [of n r "wops n r x" r1 o1] by (simp add: 1 2)
qed

lemma distinct_view:
  assumes "distinct (map fst (rPend r))"
  shows "distinct (map fst (wHeld (view n r)))"
proof -
  have "inj_on (place n r) A" for A by (simp add: inj_on_def place_inj)
  then have "distinct (map (place n r) (map fst (rPend r)))"
    using assms unfolding distinct_map by blast
  moreover have "map fst (wHeld (view n r)) = map (place n r) (map fst (rPend r))"
    by (simp add: comp_def case_prod_beta)
  ultimately show ?thesis by presburger
qed

lemma view_ok:
  assumes "distinct (map fst (rPend r))" and "ahead r"
  shows "w_ok (view n r)"
proof -
  have "n < place n r s" if "s \<in> held r" for s
    using assms(2) that by (simp add: ahead_def place_def)
  then have "\<forall>k \<in> fst ` set (wHeld (view n r)). wNext (view n r) < k"
    by (auto dest: held_memI)
  with distinct_view [OF assms(1)] show ?thesis unfolding w_ok_def by blast
qed

section \<open>Consequences for the code\<close>

fun pushes :: "'a rop list \<Rightarrow> (u32 \<times> 'a) list" where
  "pushes [] = []"
| "pushes (RPush seq v now wall # xs) = (seq, v) # pushes xs"
| "pushes (_ # xs) = pushes xs"

text \<open>
  C7: the 32-bit reassembler implements the unbounded one. Over any calls but \<open>Reset\<close>,
  whatever the numbers pushed, a started \<open>Reorder\<close> that holds only numbers ahead of it
  returns the packets that the abstract machine returns on the script of the run, and ends
  in a state whose view is the abstract machine's state.
\<close>

theorem reorder_refines:
  assumes "rStarted r" and "ahead r" and "RReset \<notin> set xs"
  shows "snd (rrun xs r) = map snd (snd (wrun (script n r xs) (view n r)))
    \<and> fst (wrun (script n r xs) (view n r))
        = view (wNext (fst (wrun (script n r xs) (view n r)))) (fst (rrun xs r))"
  using rrun_refines [OF assms(3,1,2), of n] by (auto simp: refines_def split: prod.splits)

lemma reorder_refines_witness:
  "snd (rrun [RPush 4294967295 30 6 6, RExpire 20 20] gapped)
     = map snd (snd (wrun (script 7 gapped [RPush 4294967295 30 6 6, RExpire 20 20]) (view 7 gapped)))"
  using reorder_refines [of gapped "[RPush 4294967295 30 6 6, RExpire 20 20]" 7] by (simp add: gapped_ok gapped_fields)

section \<open>Order\<close>

text \<open>The abstract machine never gets past the last position it was offered.\<close>

lemma wdrained_bound:
  assumes "wdrained w w' out" and "wNext w \<le> B" and "\<forall>k \<in> fst ` set (wHeld w). k < B"
  shows "wNext w' \<le> B"
proof (cases "wNext w' = wNext w")
  case False
  then have "wNext w' - 1 \<in> set (map fst out)" using assms(1) by (simp add: wdrained_def del: set_map)
  then obtain v where "(wNext w' - 1, v) \<in> set out" by auto
  then have "map_of (wHeld w) (wNext w' - 1) = Some v" using assms(1) by (auto simp: wdrained_def)
  then have "wNext w' - 1 \<in> fst ` set (wHeld w)" by (force dest: map_of_SomeD)
  with assms(3) have "wNext w' - 1 < B" by blast
  then show ?thesis by simp
qed (use assms(2) in simp)

lemma wstep_bound:
  assumes ok: "w_ok w" and step: "wstep x w = (w', out)" and "wNext w \<le> B"
    and B: "\<forall>k \<in> fst ` set (wHeld w @ offers [x]). k < B"
  shows "wNext w' \<le> B"
proof (cases x)
  case (WPush k v)
  show ?thesis
  proof (cases "k < wNext w \<or> map_of (wHeld w) k \<noteq> None")
    case True
    then have "w' = w" using step WPush by simp
    with assms(3) show ?thesis by simp
  next
    case False
    let ?w = "w\<lparr>wHeld := wHeld w @ [(k, v)]\<rparr>"
    have "k \<notin> fst ` set (wHeld w)" using False by (simp add: lookup_None_iff)
    moreover have "wdrain ?w = (w', out)" using step WPush False by simp
    ultimately have "wdrained ?w w' out"
      using ok False by (intro wdrain_drained) (auto simp: w_ok_def)
    moreover have "\<forall>k \<in> fst ` set (wHeld ?w). k < B" using B by (simp add: WPush)
    ultimately show ?thesis using wdrained_bound [of ?w w' out B] assms(3) by simp
  qed
next
  case WSkip
  show ?thesis
  proof (cases "wHeld w = []")
    case False
    let ?K = "fst ` set (wHeld w)" and ?w = "w\<lparr>wNext := Min (fst ` set (wHeld w))\<rparr>"
    have ne: "finite ?K" "?K \<noteq> {}" using False by simp_all
    have "wdrain ?w = (w', out)" using step WSkip False by simp
    then have "wdrained ?w w' out"
      using ok Min_le [OF ne(1)] by (intro wdrain_drained) (auto simp: w_ok_def)
    moreover have K: "\<forall>k \<in> ?K. k < B" using B by simp
    moreover have "Min ?K < B" using K Min_in [OF ne] by blast
    ultimately show ?thesis using wdrained_bound [of ?w w' out B] by simp
  qed (use step WSkip assms(3) in simp)
qed

lemma wranD:
  assumes "wran w xs w' out"
  shows "wNext w \<le> wNext w'" and "sorted_wrt (\<lambda>x y. fst x < fst y) out"
    and "(k, v) \<in> set out \<Longrightarrow> wNext w \<le> k \<and> k < wNext w' \<and> map_of (wHeld w @ offers xs) k = Some v"
    and "wNext w' \<le> k \<Longrightarrow> map_of (wHeld w') k = map_of (wHeld w @ offers xs) k"
  using assms unfolding wran_def sorted_wrt_map by blast+

lemma wran_keys:
  assumes "wran w xs w' out"
  shows "fst ` set (wHeld w') \<subseteq> fst ` set (wHeld w @ offers xs)"
proof
  fix k assume k: "k \<in> fst ` set (wHeld w')"
  then have "wNext w' < k" using assms unfolding wran_def w_ok_def by blast
  then have "map_of (wHeld w') k = map_of (wHeld w @ offers xs) k" using assms by (simp add: wran_def)
  with k show "k \<in> fst ` set (wHeld w @ offers xs)" using lookup_None_iff by metis
qed

lemma wrun_bound:
  assumes "w_ok w" and "wrun xs w = (w', out)" and "wNext w \<le> B" and "\<forall>k \<in> fst ` set (wHeld w @ offers xs). k < B"
  shows "wNext w' \<le> B \<and> (\<forall>k \<in> fst ` set (wHeld w'). k < B)"
proof -
  have "wNext w' \<le> B" using assms
  proof (induction xs arbitrary: w out)
    case (Cons x xs)
    obtain w1 o1 where 1: "wstep x w = (w1, o1)" by (metis surj_pair)
    obtain o2 where 2: "wrun xs w1 = (w', o2)" using Cons.prems(2) by (auto simp: 1 split: prod.splits)
    have r: "wran w [x] w1 o1" using Cons.prems(1) 1 by (rule wstep_wran)
    have o: "offers (x # xs) = offers [x] @ offers xs" using offers_append [of "[x]" xs] by simp
    have "wNext w1 \<le> B"
      using wstep_bound [OF Cons.prems(1) 1 Cons.prems(3)] Cons.prems(4) unfolding o by auto
    moreover have "\<forall>k \<in> fst ` set (wHeld w1 @ offers xs). k < B"
      using wran_keys [OF r] Cons.prems(4) unfolding o set_append image_Un by blast
    moreover have "w_ok w1" using r by (simp add: wran_def)
    ultimately show ?case using 2 by (intro Cons.IH) simp_all
  qed simp
  moreover have "\<forall>k \<in> fst ` set (wHeld w'). k < B"
    using wran_keys [OF wrun_wran [OF assms(1,2)]] assms(4) by blast
  ultimately show ?thesis by blast
qed

text \<open>
  A stretch of the stream: numbers less than a quarter of the number space away from \<open>b\<close>. While
  \<open>next\<close> moves through it, the place of a number is its distance from \<open>b\<close>.
\<close>

definition near :: "u32 \<Rightarrow> u32 \<Rightarrow> bool" where
  "near b s \<longleftrightarrow> - (2 ^ 30) \<le> diff s b \<and> diff s b < 2 ^ 30"

lemma place_near:
  assumes "near b s" and "rNext r = b + of_int n" and "0 \<le> n" "n \<le> 2 ^ 30"
  shows "place n r s = diff s b"
proof -
  have "diff s (rNext r) = diff (b + of_int (diff s b)) (b + of_int n)"
    unfolding assms(2) by (simp flip: diff_eq_of_int)
  also have "\<dots> = diff s b - n" using assms by (intro diff_of_int) (auto simp: near_def)
  finally show ?thesis by (simp add: place_def)
qed

lemma offers_wops_near:
  "list_all (\<lambda>(s, v). near b s) (pushes [x]) \<Longrightarrow> rNext r = b + of_int n \<Longrightarrow> 0 \<le> n \<Longrightarrow> n \<le> 2 ^ 30
    \<Longrightarrow> offers (wops n r x) = map (\<lambda>(s, v). (diff s b, v)) (pushes [x])"
  by (cases x) (auto simp: place_near)

lemma pushes_Cons: "pushes (x # xs) = pushes [x] @ pushes xs"
  by (cases x) simp_all

lemma offers_script_near:
  assumes "RReset \<notin> set xs" and "r_inv r" and "rStarted r" and "ahead r" and "list_all (\<lambda>(s, v). near b s) (pushes xs)"
    and "rNext r = b + of_int n" and "0 \<le> n" "n \<le> 2 ^ 30" and "\<forall>k \<in> fst ` set (wHeld (view n r)). k < 2 ^ 30"
  shows "offers (script n r xs) = map (\<lambda>(s, v). (diff s b, v)) (pushes xs)"
  using assms
proof (induction xs arbitrary: n r)
  case (Cons x xs)
  have x: "x \<noteq> RReset" and xs: "RReset \<notin> set xs" using Cons.prems(1) by auto
  have near: "list_all (\<lambda>(s, v). near b s) (pushes [x])" "list_all (\<lambda>(s, v). near b s) (pushes xs)"
    using Cons.prems(5) unfolding pushes_Cons [of x xs] by simp_all
  note o = offers_wops_near [OF near(1) Cons.prems(6-8)]
  obtain w tagged where run: "wrun (wops n r x) (view n r) = (w, tagged)" by (metis surj_pair)
  let ?r = "fst (rstep x r)"
  have w: "w = view (wNext w) ?r" "rNext ?r = rNext r + of_int (wNext w - n)"
    using rstep_refines [OF x Cons.prems(3,4), of n] by (simp_all add: refines_def run)
  have ok: "w_ok (view n r)" using view_ok [OF r_invD(1) [OF Cons.prems(2)] Cons.prems(4)] .
  have "\<forall>k \<in> fst ` set (wHeld (view n r) @ offers (wops n r x)). k < 2 ^ 30"
    using Cons.prems(9) near(1) unfolding o by (auto simp: near_def list_all_iff)
  then have B: "wNext w \<le> 2 ^ 30" "\<forall>k \<in> fst ` set (wHeld w). k < 2 ^ 30"
    using wrun_bound [OF ok run] Cons.prems(8) by simp_all
  have "n \<le> wNext w" using wrun_wran [OF ok run] by (simp add: wran_def)
  then have "offers (script (wNext w) ?r xs) = map (\<lambda>(s, v). (diff s b, v)) (pushes xs)"
    using xs near(2) Cons.prems(2-4,6,7) B w x
    by (intro Cons.IH) (simp_all add: rstep_inv rstep_started rstep_ahead)
  then show ?case using o by (simp add: offers_append run pushes_Cons [of x xs])
qed simp

text \<open>
  C6: packets come out in order and at most once. Take any calls but \<open>Reset\<close> of a started
  reassembler that push and find held numbers within a quarter of the number space around
  \<open>next\<close>, in any order and with any repetitions, at any clock readings; a longer stream is a
  sequence of such stretches. Then the packets returned are those of a strictly increasing run
  of sequence numbers, at or after the old \<open>next\<close> and before the new one, each once and as it
  was first offered; of every number from the new \<open>next\<close> on exactly what was first offered
  is held; and \<open>next\<close> moves by what was returned plus what was counted as skipped.
\<close>

theorem reorder_in_order:
  assumes "r_inv r" and "rStarted r" and "ahead r" and "RReset \<notin> set xs" and "rrun xs r = (r', outs)"
    and "offered = map (\<lambda>(s, p). (s, pdVal p)) (rPend r) @ pushes xs" and "list_all (\<lambda>(s, v). near (rNext r) s) offered"
  shows "\<exists>ss. sorted_wrt (\<lambda>s t. diff s (rNext r) < diff t (rNext r)) ss
    \<and> list_all (\<lambda>s. 0 \<le> diff s (rNext r) \<and> diff s (rNext r) < diff (rNext r') (rNext r)) ss
    \<and> list_all2 (\<lambda>s v. map_of offered s = Some v) ss outs
    \<and> (\<forall>s. diff (rNext r') (rNext r) \<le> diff s (rNext r) \<longrightarrow> map_option pdVal (map_of (rPend r') s) = map_of offered s)
    \<and> rNext r' = rNext r + of_nat (length outs) + (ucast (rSkipped r') - ucast (rSkipped r))"
proof -
  let ?b = "rNext r" and ?at = "\<lambda>k. rNext r + of_int k"
  obtain w tagged where run: "wrun (script 0 r xs) (view 0 r) = (w, tagged)" by (metis surj_pair)
  have ref: "outs = map snd tagged" "w = view (wNext w) r'" "rNext r' = ?at (wNext w)"
    using rrun_refines [OF assms(4,2,3), of 0] by (simp_all add: refines_def assms(5) run)
  have ok: "w_ok (view 0 r)" using view_ok [OF r_invD(1) [OF assms(1)] assms(3)] .
  note ran = wrun_wran [OF ok run]
  have near: "list_all (\<lambda>(s, v). near ?b s) (pushes xs)" "\<forall>k \<in> fst ` set (wHeld (view 0 r)). k < 2 ^ 30"
    using assms(7) unfolding assms(6) by (fastforce simp: place_def near_def list_all_iff)+
  have all: "wHeld (view 0 r) @ offers (script 0 r xs) = map (\<lambda>(s, v). (diff s ?b, v)) offered"
    using offers_script_near [OF assms(4,1-3) near(1), of 0] near(2)
    by (simp add: assms(6) place_def comp_def case_prod_beta)
  have inj: "inj (\<lambda>s. diff s ?b)" using place_inj [of 0 r] by (simp add: inj_def place_def)
  have look: "map_of (wHeld (view 0 r) @ offers (script 0 r xs)) (diff s ?b) = map_of offered s" for s
    unfolding all using lookup_rename(1) [OF inj, of id offered s] by (simp add: option.map_id0)
  have "\<forall>k \<in> fst ` set (wHeld (view 0 r) @ offers (script 0 r xs)). k < 2 ^ 30"
    using assms(7) unfolding all by (auto simp: near_def list_all_iff)
  from conjunct1 [OF wrun_bound [OF ok run _ this]] wranD(1) [OF ran] have T: "0 \<le> wNext w" "wNext w \<le> 2 ^ 30" by simp_all
  have at: "diff (?at k) ?b = k" if "0 \<le> k" "k \<le> wNext w" for k
    using diff_of_int [of k 0 ?b] that T by simp
  have next': "diff (rNext r') ?b = wNext w" unfolding ref(3) using T by (intro at) simp_all
  have pos: "0 \<le> k \<and> k < wNext w \<and> map_of offered (?at k) = Some v" if "(k, v) \<in> set tagged" for k v
    using wranD(3) [OF ran that] look [of "?at k"] at [of k] by simp
  have there: "diff (?at (fst x)) ?b = fst x" if "x \<in> set tagged" for x
    using pos [of "fst x" "snd x"] that by (intro at) simp_all
  have "map_option pdVal (map_of (rPend r') s) = map_of offered s" if "diff (rNext r') ?b \<le> diff s ?b" for s
  proof -
    have "diff s (rNext r') = diff s ?b - wNext w"
      using diff_trans [of s ?b "rNext r'"] that T by (simp add: next')
    then have "map_of (wHeld w) (diff s ?b) = map_option pdVal (map_of (rPend r') s)"
      using lookup_view [of "wNext w" r' s] by (simp add: ref(2) [symmetric] place_def)
    moreover have "map_of (wHeld w) (diff s ?b) = map_of offered s"
      using wranD(4) [OF ran, of "diff s ?b"] that look [of s] by (simp only: next')
    ultimately show ?thesis by simp
  qed
  moreover have "sorted_wrt (\<lambda>s t. diff s ?b < diff t ?b) (map (?at \<circ> fst) tagged)"
  proof -
    from wranD(2) [OF ran] have "sorted_wrt (\<lambda>x y. diff (?at (fst x)) ?b < diff (?at (fst y)) ?b) tagged"
      by (rule sorted_wrt_mono_rel [rotated]) (simp add: there)
    then show ?thesis by (simp add: sorted_wrt_map)
  qed
  moreover have "list_all2 (\<lambda>s v. map_of offered s = Some v) (map (?at \<circ> fst) tagged) outs"
    using pos by (auto simp: ref(1) list_all2_map1 list_all2_map2 list_all2_same)
  moreover have "list_all (\<lambda>s. 0 \<le> diff s ?b \<and> diff s ?b < diff (rNext r') ?b) (map (?at \<circ> fst) tagged)"
    using pos there by (auto simp: list_all_iff next')
  moreover have "rNext r' = rNext r + of_nat (length outs) + (ucast (rSkipped r') - ucast (rSkipped r))"
    using reorder_accounts [OF assms(1-3,4,5)] by (rule conjunct1)
  ultimately show ?thesis by (intro exI [of _ "map (?at \<circ> fst) tagged"] conjI allI impI)
qed

text \<open>
  0 and 2 are held across the wrap, and their neighbours come late, twice and in disorder: of
  the five numbers pushed, the two duplicates are dropped.
\<close>

lemma reorder_in_order_witness:
  "\<exists>ss r' outs. rrun [RPush 1 40 6 6, RPush 4294967295 30 7 7, RPush 0 50 8 8, RPush 1 60 9 9, RPush 3 70 9 9] gapped = (r', outs)
    \<and> outs = [30, 20, 40, 10, 70] \<and> sorted_wrt (\<lambda>s t. diff s 4294967295 < diff t 4294967295) ss
    \<and> list_all2 (\<lambda>s v. map_of [(2, 10), (0, 20), (1, 40), (4294967295, 30), (0, 50), (1, 60), (3, 70)] s = Some v) ss outs"
proof -
  let ?xs = "[RPush 1 40 6 6, RPush 4294967295 30 7 7, RPush 0 50 8 8, RPush 1 60 9 9, RPush 3 70 9 9 :: nat rop]"
  let ?offered = "[(2, 10), (0, 20), (1, 40), (4294967295, 30), (0, 50), (1, 60), (3, 70)] :: (u32 \<times> nat) list"
  obtain r' outs where run: "rrun ?xs gapped = (r', outs)" by (metis surj_pair)
  have o: "outs = [30, 20, 40, 10, 70]"
    using run by (simp add: Push_def gapped_def drain_def drainLoop.simps diff_def bumpMaxSeen_def hold_def markBlocked_def IsZero_def Let_def)
  have "?offered = map (\<lambda>(s, p). (s, pdVal p)) (rPend gapped) @ pushes ?xs" by (simp add: gapped_def)
  moreover have "list_all (\<lambda>(s, v). near (rNext gapped) s) ?offered" by (simp add: gapped_fields near_def diff_def)
  moreover have "RReset \<notin> set ?xs" by simp
  ultimately obtain ss where "sorted_wrt (\<lambda>s t. diff s 4294967295 < diff t 4294967295) ss"
    "list_all2 (\<lambda>s v. map_of ?offered s = Some v) ss outs"
    using reorder_in_order [OF gapped_ok(1) gapped_fields(1) gapped_ok(2) _ run] unfolding gapped_fields(6) by blast
  with run o show ?thesis by blast
qed

text \<open>How far a set of positions reaches without a gap from 0.\<close>

definition prefix_len :: "nat list \<Rightarrow> nat" where
  "prefix_len ks = length (takeWhile (\<lambda>i. i \<in> set ks) [0..<length ks])"

lemma prefix_len_in: "i < prefix_len ks \<Longrightarrow> i \<in> set ks"
proof -
  assume i: "i < prefix_len ks"
  let ?t = "takeWhile (\<lambda>i. i \<in> set ks) [0..<length ks]"
  have "prefix_len ks \<le> length [0..<length ks]" unfolding prefix_len_def by (rule length_takeWhile_le)
  then have "?t ! i = i" using i by (subst takeWhile_nth) (simp_all add: prefix_len_def)
  moreover have "?t ! i \<in> set ?t" using i by (intro nth_mem) (simp add: prefix_len_def)
  ultimately show ?thesis by (metis set_takeWhileD)
qed

lemma prefix_len_notin: "prefix_len ks \<notin> set ks"
proof
  assume k: "prefix_len ks \<in> set ks"
  have "prefix_len ks \<le> length [0..<length ks]" unfolding prefix_len_def by (rule length_takeWhile_le)
  moreover have "\<not> prefix_len ks < length ks"
    using nth_length_takeWhile [of "\<lambda>i. i \<in> set ks" "[0..<length ks]"] k by (auto simp: prefix_len_def)
  ultimately have len: "prefix_len ks = length ks" by simp
  have "insert (length ks) {0..<length ks} \<subseteq> set ks"
    using k len prefix_len_in [of _ ks] by auto
  then have "card (insert (length ks) {0..<length ks}) \<le> card (set ks)" by (intro card_mono) simp_all
  with card_length [of ks] show False by simp
qed

lemma prefix_len_unique: "m \<notin> set ks \<Longrightarrow> (\<And>i. i < m \<Longrightarrow> i \<in> set ks) \<Longrightarrow> prefix_len ks = m"
  using prefix_len_in [of m ks] prefix_len_notin [of ks] by (metis linorder_neqE_nat)

lemma prefix_len_snoc: "prefix_len ks \<le> prefix_len (ks @ [k])"
proof (rule ccontr)
  assume "\<not> ?thesis"
  then have "prefix_len (ks @ [k]) \<in> set ks" by (intro prefix_len_in) simp
  then show False using prefix_len_notin [of "ks @ [k]"] by simp
qed

lemma prefix_len_complete: "set ks = {0..<n} \<Longrightarrow> prefix_len ks = n"
  by (intro prefix_len_unique) auto

text \<open>
  Bounded disorder: when a packet arrives, it is at most \<open>cap\<close> past the first packet that
  is still missing, and at most \<open>2^31\<close> behind it.
\<close>

definition displaced :: "nat \<Rightarrow> nat list \<Rightarrow> bool" where
  "displaced cap ks \<longleftrightarrow> list_all (\<lambda>i. ks ! i \<le> prefix_len (take i ks) + cap
     \<and> prefix_len (take i ks) \<le> ks ! i + 2 ^ 31) [0..<length ks]"

lemma displaced_snoc:
  "displaced cap (ks @ [k]) \<longleftrightarrow> displaced cap ks \<and> k \<le> prefix_len ks + cap \<and> prefix_len ks \<le> k + 2 ^ 31"
proof -
  have "list_all (\<lambda>i. (ks @ [k]) ! i \<le> prefix_len (take i (ks @ [k])) + cap
      \<and> prefix_len (take i (ks @ [k])) \<le> (ks @ [k]) ! i + 2 ^ 31) [0..<length ks] = displaced cap ks"
    unfolding displaced_def list_all_iff by (intro ball_cong) (simp_all add: nth_append)
  then show ?thesis by (simp add: displaced_def [of cap "ks @ [k]"])
qed

lemma displaced_reach: "displaced cap ks \<Longrightarrow> k \<in> set ks \<Longrightarrow> k \<le> prefix_len ks + cap"
proof (induction ks rule: rev_induct)
  case (snoc q ks)
  then show ?case using prefix_len_snoc [of ks q] by (auto simp: displaced_snoc intro: order_trans)
qed simp

text \<open>Pushing values by position, with no reordering beyond the window.\<close>

definition pushAll :: "u32 \<Rightarrow> (nat \<Rightarrow> 'a) \<Rightarrow> (nat \<times> instant \<times> instant) list \<Rightarrow> 'a rop list" where
  "pushAll base val items = map (\<lambda>(k, now, wall). RPush (base + of_nat k) (val k) now wall) items"

lemma script_snoc:
  assumes "RReset \<notin> set xs" and "rStarted r" and "ahead r"
  shows "script n r (xs @ [x]) = script n r xs @
     wops (wNext (fst (wrun (script n r xs) (view n r)))) (fst (rrun xs r)) x"
  using assms
proof (induction xs arbitrary: n r)
  case (Cons y ys)
  have y: "y \<noteq> RReset" and ys: "RReset \<notin> set ys" using Cons.prems(1) by auto
  obtain r1 o1 where 1: "rstep y r = (r1, o1)" by (metis surj_pair)
  obtain w1 t1 where w: "wrun (wops n r y) (view n r) = (w1, t1)" by (metis surj_pair)
  have "view (wNext w1) r1 = w1"
    using rstep_refines [OF y Cons.prems(2,3), of n] by (simp add: refines_def 1 w)
  moreover have "rStarted r1" "ahead r1"
    using rstep_started [OF y Cons.prems(2)] rstep_ahead [OF y Cons.prems(2,3)] by (simp_all add: 1)
  ultimately show ?case
    using Cons.IH [OF ys, of r1 "wNext w1"] by (simp add: wrun_append 1 w split: prod.splits)
qed simp

lemma rrun_config: "r_config (fst (rrun xs r)) = r_config r"
  by (induction xs arbitrary: r) (simp_all add: rrun_Cons rstep_config del: rrun.simps(2))

lemma offers_all: "offers (map (\<lambda>k. WPush (int k) (val k)) ks) = map (\<lambda>k. (int k, val k)) ks"
  by (induction ks) simp_all

lemma map_of_all: "map_of (map (\<lambda>k. (int k, val k)) ks) (int k) = (if k \<in> set ks then Some (val k) else None)"
  by (induction ks) auto

text \<open>What the abstract machine does with them.\<close>

lemma wrun_all:
  assumes "wrun (map (\<lambda>k. WPush (int k) (val k)) ks) \<lparr>wNext = 0, wHeld = []\<rparr> = (w, tagged)"
  shows "wNext w = int (prefix_len ks)" and "map snd tagged = map val [0..<prefix_len ks]"
    and "fst ` set (wHeld w) \<subseteq> {int (prefix_len ks)<..} \<inter> int ` set ks" and "w_ok w"
proof -
  have "w_ok (\<lparr>wNext = 0, wHeld = []\<rparr> :: 'a window)" by (simp add: w_ok_def)
  from wrun_wran [OF this assms]
  have ran: "0 \<le> wNext w" "map fst tagged = [0..wNext w - 1]"
    and vals: "\<forall>(k, v) \<in> set tagged. map_of (map (\<lambda>k. (int k, val k)) ks) k = Some v"
    and held: "\<forall>k \<ge> wNext w. map_of (wHeld w) k = map_of (map (\<lambda>k. (int k, val k)) ks) k" and ok: "w_ok w"
    by (auto simp: wran_def offers_all)
  obtain m where m: "wNext w = int m" using ran(1) nonneg_int_cases by blast
  have keys: "map fst tagged = map int [0..<m]"
    unfolding ran(2) m by (rule nth_equalityI) simp_all
  have at: "tagged ! i = (int i, val i) \<and> i \<in> set ks" if "i < m" for i
  proof -
    have len: "length tagged = m" using arg_cong [OF keys, of length] by simp
    then have fst: "fst (tagged ! i) = int i"
      using arg_cong [OF keys, of "\<lambda>xs. xs ! i"] that by simp
    have "tagged ! i \<in> set tagged" using len that by simp
    with vals have "map_of (map (\<lambda>k. (int k, val k)) ks) (fst (tagged ! i)) = Some (snd (tagged ! i))" by fastforce
    then have "i \<in> set ks \<and> snd (tagged ! i) = val i" by (simp add: fst map_of_all split: if_splits)
    with fst show ?thesis by (metis prod.collapse)
  qed
  have gt: "\<forall>k \<in> fst ` set (wHeld w). wNext w < k" using ok by (simp add: w_ok_def)
  then have "map_of (wHeld w) (wNext w) = None" by (metis less_irrefl lookup_None_iff)
  then have "m \<notin> set ks" using held m by (auto simp: map_of_all split: if_splits)
  with at have p: "prefix_len ks = m" by (intro prefix_len_unique) blast+
  show "wNext w = int (prefix_len ks)" by (simp add: p m)
  show "map snd tagged = map val [0..<prefix_len ks]"
  proof (rule nth_equalityI)
    show "length (map snd tagged) = length (map val [0..<prefix_len ks])"
      using arg_cong [OF keys, of length] by (simp add: p)
    then show "map snd tagged ! i = map val [0..<prefix_len ks] ! i" if "i < length (map snd tagged)" for i
      using at [of i] that by (simp add: p)
  qed
  show "fst ` set (wHeld w) \<subseteq> {int (prefix_len ks)<..} \<inter> int ` set ks"
  proof
    fix k assume k: "k \<in> fst ` set (wHeld w)"
    then have "map_of (wHeld w) k \<noteq> None" by (simp add: lookup_None_iff del: set_map)
    with held gt k have "map_of (map (\<lambda>k. (int k, val k)) ks) k \<noteq> None" by (metis less_imp_le)
    then have "k \<in> int ` set ks" by (auto simp: lookup_None_iff)
    with gt k show "k \<in> {int (prefix_len ks)<..} \<inter> int ` set ks" by (auto simp: p m)
  qed
  show "w_ok w" by (rule ok)
qed

text \<open>The script of such a run is those offers and nothing else: no skip is ever due.\<close>

lemma script_all:
  assumes "rStarted r" and "rPend r = []" and cap: "0 \<le> rMaxPend r" "rMaxPend r < 2 ^ 31"
    and "displaced (nat (rMaxPend r)) (map fst items)"
  shows "script 0 r (pushAll (rNext r) val items) = map (\<lambda>k. WPush (int k) (val k)) (map fst items)"
  using assms(5)
proof (induction items rule: rev_induct)
  case Nil
  then show ?case by (simp add: pushAll_def)
next
  case (snoc item items)
  obtain k now wall where item: "item = (k, now, wall)" by (metis surj_pair)
  let ?ks = "map fst items" and ?xs = "pushAll (rNext r) val items"
  let ?r = "fst (rrun ?xs r)" and ?m = "prefix_len (map fst items)"
  have disp: "displaced (nat (rMaxPend r)) ?ks" "k \<le> ?m + nat (rMaxPend r)" "?m \<le> k + 2 ^ 31"
    using snoc.prems by (simp_all add: item displaced_snoc)
  have no: "RReset \<notin> set ?xs" by (auto simp: pushAll_def)
  have ah: "ahead r" using assms(2) by (simp add: ahead_def held_def)
  have v0: "view 0 r = \<lparr>wNext = 0, wHeld = []\<rparr>" using assms(2) by (simp add: view_def)
  obtain w tagged where run: "wrun (map (\<lambda>k. WPush (int k) (val k)) ?ks) \<lparr>wNext = 0, wHeld = []\<rparr> = (w, tagged)"
    by (metis surj_pair)
  note IH = snoc.IH [OF disp(1)]
  have w: "wNext w = int ?m" "w = view (int ?m) ?r" "rNext ?r = rNext r + of_nat ?m"
    using rrun_refines [OF no assms(1) ah, of 0] wrun_all(1) [OF run]
    by (simp_all add: refines_def IH v0 run del: map_map)
  have place: "place (int ?m) ?r (rNext r + of_nat k) = int k"
    using diff_of_int [of "int k" "int ?m" "rNext r"] disp(2,3) cap w(3) by (simp add: place_def)
  have reach: "q \<le> ?m + nat (rMaxPend r)" if "q \<in> set ?ks" for q
    using displaced_reach [OF disp(1)] that .
  have far: "int (length (rPend ?r)) + 1 \<le> rMaxPend ?r"
    if "0 < diff (rNext r + of_nat k) (rNext ?r)" "map_of (rPend ?r) (rNext r + of_nat k) = None"
  proof -
    have "map_of (wHeld w) (int k) = None"
      using lookup_view [of "int ?m" ?r "rNext r + of_nat k"] that(2) w(2) by (simp only: place) simp
    then have k: "int k \<notin> fst ` set (wHeld w)" by (simp add: lookup_None_iff del: set_map)
    have "?m < k" using that(1) place by (simp add: place_def)
    have sub: "insert (int k) (fst ` set (wHeld w)) \<subseteq> {int ?m<..int ?m + rMaxPend r}"
    proof
      fix q assume "q \<in> insert (int k) (fst ` set (wHeld w))"
      then consider "q = int k" | "q \<in> {int ?m<..} \<inter> int ` set ?ks" using wrun_all(3) [OF run] by blast
      then show "q \<in> {int ?m<..int ?m + rMaxPend r}"
      proof cases
        case 1
        with \<open>?m < k\<close> disp(2) cap show ?thesis by simp
      next
        case 2
        then obtain i where "q = int i" "i \<in> set ?ks" "int ?m < q" by blast
        with reach [of i] cap show ?thesis by simp
      qed
    qed
    have "card (insert (int k) (fst ` set (wHeld w))) \<le> nat (rMaxPend r)"
      using card_mono [OF _ sub] by simp
    moreover have "card (fst ` set (wHeld w)) = length (wHeld w)"
      using wrun_all(4) [OF run] by (simp add: w_ok_def distinct_card flip: set_map)
    moreover have "length (wHeld w) = length (rPend ?r)" using arg_cong [OF w(2), of wHeld] by simp
    ultimately have "length (rPend ?r) + 1 \<le> nat (rMaxPend r)" using k by simp
    moreover have "rMaxPend ?r = rMaxPend r" using rrun_config [of ?xs r] by (simp add: r_config_def)
    ultimately show ?thesis using cap by linarith
  qed
  have "wops (int ?m) ?r (RPush (rNext r + of_nat k) (val k) now wall) = [WPush (int k) (val k)]"
    using far by (auto simp: place)
  then show ?case
    using script_snoc [OF no assms(1) ah, of 0 "RPush (rNext r + of_nat k) (val k) now wall"] w(1)
    by (simp add: pushAll_def item IH [unfolded pushAll_def] v0 run del: map_map)
qed

lemma pushAll_lossless:
  assumes "rStarted r" and "rPend r = []" and "0 \<le> rMaxPend r" "rMaxPend r < 2 ^ 31"
    and "displaced (nat (rMaxPend r)) (map fst items)"
  shows "snd (rrun (pushAll (rNext r) val items) r) = map val [0..<prefix_len (map fst items)]"
proof -
  have no: "RReset \<notin> set (pushAll (rNext r) val items)" by (auto simp: pushAll_def)
  have ah: "ahead r" using assms(2) by (simp add: ahead_def held_def)
  have v0: "view 0 r = \<lparr>wNext = 0, wHeld = []\<rparr>" using assms(2) by (simp add: view_def)
  obtain w tagged where run: "wrun (map (\<lambda>k. WPush (int k) (val k)) (map fst items)) \<lparr>wNext = 0, wHeld = []\<rparr> = (w, tagged)"
    by (metis surj_pair)
  show ?thesis
    using rrun_refines [OF no assms(1) ah, of 0] wrun_all(2) [OF run]
    by (simp add: refines_def script_all [OF assms] v0 run del: map_map)
qed

text \<open>
  C5: nothing is lost to reordering. A started reassembler that holds nothing and is
  offered packets, each at most \<open>MaxPending\<close> past the first one still missing and in any
  multiplicity, returns exactly the packets up to the first one that never came, each once
  and in order; in particular the whole stream, when all of it was pushed.
\<close>

theorem reorder_lossless:
  assumes "rStarted r" and "rPend r = []" and "0 \<le> rMaxPend r" "rMaxPend r < 2 ^ 31"
    and "displaced (nat (rMaxPend r)) (map fst items)"
  shows "snd (rrun (pushAll (rNext r) val items) r) = map val [0..<prefix_len (map fst items)]"
  using assms by (rule pushAll_lossless)

lemma reorder_lossless_witness:
  "snd (rrun (pushAll 4294967294 (\<lambda>k. 100 + k) [(2, 5, 5), (0, 6, 6), (3, 7, 7), (0, 8, 8), (1, 9, 9), (5, 9, 9)])
     (gapped\<lparr>rPend := [], rNext := 4294967294\<rparr>)) = [100, 101, 102, 103 :: nat]"
proof -
  let ?items = "[(2, 5, 5), (0, 6, 6), (3, 7, 7), (0, 8, 8), (1, 9, 9), (5, 9, 9)] :: (nat \<times> instant \<times> instant) list"
  have p: "prefix_len (map fst ?items) = 4"
    by (simp add: prefix_len_def upt_rec)
  have "displaced 10 (map fst ?items)"
    by (simp add: displaced_def prefix_len_def upt_rec)
  moreover have "rMaxPend gapped = 10" by (simp add: gapped_def)
  ultimately have "snd (rrun (pushAll 4294967294 (\<lambda>k. 100 + k) ?items) (gapped\<lparr>rPend := [], rNext := 4294967294\<rparr>))
      = map (\<lambda>k. 100 + k) [0..<4]"
    using reorder_lossless [of "gapped\<lparr>rPend := [], rNext := 4294967294\<rparr>" ?items "\<lambda>k. 100 + k"]
    unfolding p by (simp add: gapped_fields del: upt.simps)
  then show ?thesis by (simp add: upt_rec)
qed

section \<open>The settle window\<close>

text \<open>A reassembler that is still settling, after packets at the given positions.\<close>

definition settling :: "u32 \<Rightarrow> (nat \<Rightarrow> 'a) \<Rightarrow> instant \<Rightarrow> nat list \<Rightarrow> 'a Reorder \<Rightarrow> bool" where
  "settling base val t0 ks r \<longleftrightarrow> \<not> rStarted r \<and> (ks \<noteq> [] \<longrightarrow> rFirstSeen r = t0) \<and> (ks = [] \<longrightarrow> rFirstSeen r = 0)
     \<and> distinct (map fst (rPend r)) \<and> held r = (\<lambda>k. base + of_nat k) ` set ks
     \<and> length (rPend r) \<le> length ks
     \<and> (\<forall>k \<in> set ks. \<exists>p. map_of (rPend r) (base + of_nat k) = Some p \<and> pdVal p = val k)"

lemma of_nat_window_inj: "i < 2 ^ 31 \<Longrightarrow> j < 2 ^ 31 \<Longrightarrow> (of_nat i :: u32) = of_nat j \<longleftrightarrow> i = j"
  by (auto simp: word_of_nat_eq_iff take_bit_nat_eq_self)

lemma Push_settling:
  assumes s: "settling base val t0 ks r" and "now \<noteq> 0" and "t0 \<noteq> 0" and "ks = [] \<Longrightarrow> now = t0"
    and "timeSub now t0 < rSettle r" and "int (length ks) + 1 \<le> rMaxPend r"
    and small: "k < 2 ^ 31" "\<forall>q \<in> set ks. q < 2 ^ 31"
  shows "settling base val t0 (ks @ [k]) (fst (Push r (base + of_nat k) (val k) now wall))
    \<and> snd (Push r (base + of_nat k) (val k) now wall) = []"
proof -
  let ?s = "base + of_nat k :: u32"
  let ?m = "bumpMaxSeen (markFirst r ?s now) ?s"
  let ?h = "hold ?m ?s (val k) now"
  have r: "\<not> rStarted r" "distinct (map fst (rPend r))" "held r = (\<lambda>k. base + of_nat k) ` set ks"
    "length (rPend r) \<le> length ks" using s by (simp_all add: settling_def)
  have first: "rFirstSeen ?m = t0" using s assms(2-4) by (cases "ks = []") (simp_all add: settling_def)
  have dup: "map_of (rPend r) ?s \<noteq> None \<longleftrightarrow> k \<in> set ks"
    unfolding lookup_held r(3) using small by (auto simp: image_iff of_nat_window_inj)
  show ?thesis
  proof (cases "k \<in> set ks")
    case True
    then have "Push r ?s (val k) now wall = (?m\<lparr>rDuplicated := rDuplicated ?m + 1\<rparr>, [])"
      using r(1) dup by (simp add: Push_def Let_def)
    with True s first show ?thesis by (auto simp: settling_def insert_absorb)
  next
    case False
    have len: "length (rPend ?h) \<le> length ks + 1"
      using r(4) length_update_le [of ?s "\<lparr>pdVal = val k, pdAt = now\<rparr>" "rPend r"] by simp
    have "Push r ?s (val k) now wall = (?h, [])"
      using r(1) dup False first len assms(5,6) by (simp add: Push_def Let_def)
    moreover have "\<exists>p. map_of (rPend ?h) (base + of_nat q) = Some p \<and> pdVal p = val q" if "q \<in> set (ks @ [k])" for q
      using that s small False by (auto simp: settling_def of_nat_window_inj)
    moreover have "distinct (map fst (rPend ?h))" using r(2) by simp
    ultimately show ?thesis using r first len by (auto simp: settling_def)
  qed
qed

lemma rrun_settling:
  fixes val :: "nat \<Rightarrow> 'a" and cfg :: ReorderConfig
  defines "new \<equiv> NewReorder cfg :: 'a Reorder"
  assumes "t0 \<noteq> 0" and "items \<noteq> [] \<Longrightarrow> fst (snd (hd items)) = t0"
    and "list_all (\<lambda>(k, now, wall). k < 2 ^ 31 \<and> now \<noteq> 0 \<and> timeSub now t0 < rSettle new) items"
    and "int (length items) \<le> rMaxPend new"
  shows "settling base val t0 (map fst items) (fst (rrun (pushAll base val items) new))
    \<and> snd (rrun (pushAll base val items) new) = []"
  using assms(3-)
proof (induction items rule: rev_induct)
  case Nil
  then show ?case by (simp add: new_def settling_def pushAll_def NewReorder_def Let_def held_def)
next
  case (snoc item items)
  obtain k now wall where item: "item = (k, now, wall)" by (metis surj_pair)
  let ?run = "rrun (pushAll base val items) new"
  have IH: "settling base val t0 (map fst items) (fst ?run)" "snd ?run = []"
    using snoc by (auto simp: hd_append split: if_splits)
  have cfg: "rSettle (fst ?run) = rSettle new" "rMaxPend (fst ?run) = rMaxPend new"
    using rrun_config [of "pushAll base val items" new] by (simp_all add: r_config_def)
  have "settling base val t0 (map fst items @ [k]) (fst (Push (fst ?run) (base + of_nat k) (val k) now wall))
      \<and> snd (Push (fst ?run) (base + of_nat k) (val k) now wall) = []"
    by (rule Push_settling [OF IH(1)])
      (use snoc.prems assms(2) cfg in \<open>auto simp: item list_all_iff\<close>)
  moreover have "rrun (xs @ [x]) r = (fst (rstep x (fst (rrun xs r))), snd (rrun xs r) @ snd (rstep x (fst (rrun xs r))))"
    for xs :: "'a rop list" and x r
    by (induction xs arbitrary: r) (simp_all split: prod.splits)
  ultimately show ?case using IH(2) by (simp add: pushAll_def item)
qed

text \<open>A drain of a window whose values are a function of their positions.\<close>

lemma wdrain_values:
  assumes d: "wdrain w = (w', tagged)" and "distinct (map fst (wHeld w))"
    and "\<forall>k \<in> fst ` set (wHeld w). wNext w \<le> k"
    and f: "\<And>k v. map_of (wHeld w) k = Some v \<Longrightarrow> v = f k"
  shows "wNext w \<le> wNext w' \<and> map snd tagged = map f [wNext w..wNext w' - 1] \<and> map_of (wHeld w) (wNext w') = None"
proof -
  have dr: "wdrained w w' tagged" using assms(2,3) d by (rule wdrain_drained)
  have "snd x = f (fst x)" if "x \<in> set tagged" for x
    using dr that f [of "fst x" "snd x"] by (auto simp: wdrained_def)
  then have "map snd tagged = map f (map fst tagged)" by simp
  moreover have "wNext w' \<notin> fst ` set (wHeld w')" using dr by (force simp: wdrained_def w_ok_def)
  then have "map_of (wHeld w') (wNext w') = None" by (simp only: lookup_None_iff not_False_eq_True)
  moreover have "map fst tagged = [wNext w..wNext w' - 1]" using dr by (simp add: wdrained_def)
  ultimately show ?thesis using dr by (simp add: wdrained_def del: map_map)
qed

lemma settled_lowest:
  assumes s: "settling base val t0 ks r" and "ks \<noteq> []" and small: "\<forall>q \<in> set ks. q < 2 ^ 31"
  shows "lowest r = Some (base + of_nat (Min (set ks)))"
    and "\<forall>s \<in> held r. 0 \<le> diff s (base + of_nat (Min (set ks)))"
proof -
  let ?m = "Min (set ks)"
  have m: "?m \<in> set ks" "\<And>k. k \<in> set ks \<Longrightarrow> ?m \<le> k" using assms(2) by simp_all
  have held: "held r = (\<lambda>k. base + of_nat k) ` set ks" using s by (simp add: settling_def)
  have at: "diff (base + of_nat k) base = int k" if "k \<in> set ks" for k
    using diff_of_int [of "int k" 0 base] small that by simp
  have nonneg: "\<forall>s \<in> held r. 0 \<le> diff s base" using at by (simp add: held)
  have "rPend r \<noteq> []" using held assms(2) by (metis held_empty_iff image_is_empty set_empty)
  then obtain l where l: "lowest r = Some l" by (metis lowest_None_iff not_None_eq)
  have least: "\<forall>s \<in> held r. diff l base \<le> diff s base"
    using lowest_least [OF _ l, of base] nonneg by (simp only: held_def [symmetric])
  obtain j where j: "j \<in> set ks" "l = base + of_nat j" using lowest_held [OF l] held by blast
  have in_held: "base + of_nat ?m \<in> held r" using m(1) by (simp add: held)
  have "int j \<le> int ?m" using bspec [OF least in_held] at [OF j(1)] at [OF m(1)] by (simp add: j(2))
  with m(2) [OF j(1)] have "j = ?m" by simp
  with j l show "lowest r = Some (base + of_nat ?m)" by simp
  show "\<forall>s \<in> held r. 0 \<le> diff s (base + of_nat ?m)"
    using lowest_ahead [OF nonneg l] j \<open>j = ?m\<close> by simp
qed

lemma latch_settled:
  assumes s: "settling base val t0 ks r" and "ks \<noteq> []" and small: "\<forall>q \<in> set ks. q < 2 ^ 31"
  shows "\<exists>n. 0 < n \<and> snd (latch r now wall) = map val [Min (set ks)..<Min (set ks) + n] \<and> Min (set ks) + n \<notin> set ks"
proof -
  let ?m = "Min (set ks)"
  let ?l = "base + of_nat ?m :: u32"
  let ?r = "r\<lparr>rStarted := True, rNext := ?l, rBlockedSince := now\<rparr>"
  let ?v = "view (int ?m) ?r"
  have m: "?m \<in> set ks" "\<And>k. k \<in> set ks \<Longrightarrow> ?m \<le> k" using assms(2) by simp_all
  have vals: "\<exists>p. map_of (rPend r) (base + of_nat k) = Some p \<and> pdVal p = val k" if "k \<in> set ks" for k
    using s that unfolding settling_def by blast
  have low: "lowest r = Some ?l" and near: "\<forall>s \<in> held r. 0 \<le> diff s ?l"
    using settled_lowest [OF s assms(2) small] by blast+
  have place: "place (int ?m) ?r (base + of_nat k) = int k" if "k \<in> set ks" for k
    using diff_of_int [of "int k" "int ?m" base] bspec [OF small that] m(2) [OF that] by (simp add: place_def)
  obtain n' tagged r' where d: "drain ?r [] wall = (r', map snd tagged)" "wdrain ?v = (view n' r', tagged)"
    using drain_refines [of ?r "[]" wall "int ?m"] near by auto
  have look: "map_of (wHeld ?v) (int k) = Some (val k)" if "k \<in> set ks" for k
    using lookup_view [of "int ?m" ?r "base + of_nat k"] vals [OF that] by (auto simp only: place [OF that]) simp
  have keys: "\<exists>k \<in> set ks. q = int k" if "q \<in> fst ` set (wHeld ?v)" for q
  proof -
    from that obtain s where "s \<in> held r" "q = place (int ?m) ?r s" by (auto dest: held_memI)
    then show ?thesis using place s by (auto simp: settling_def)
  qed
  have dist: "distinct (map fst (wHeld ?v))"
    using s by (intro distinct_view) (simp add: settling_def)
  have val: "v = val (nat q)" if "map_of (wHeld ?v) q = Some v" for q v
    using keys [of q] look that by (metis lookup_None_iff nat_int option.distinct(1) option.inject)
  have "\<forall>k \<in> fst ` set (wHeld ?v). wNext ?v \<le> k" using keys m(2) by fastforce
  from wdrain_values [OF d(2) dist this val]
  have le: "int ?m \<le> n'" and out: "map snd tagged = map (\<lambda>q. val (nat q)) [int ?m..n' - 1]"
    and stop: "map_of (wHeld ?v) n' = None" by simp_all
  have "n' \<noteq> int k" if "k \<in> set ks" for k using look [OF that] stop by force
  then have ne: "n' \<noteq> int ?m" "nat n' \<notin> set ks" using m(1) le by force+
  have "[int ?m..n' - 1] = map int [?m..<nat n']"
    by (rule nth_equalityI) (use le in simp_all)
  then have "map snd tagged = map val [?m..<nat n']" unfolding out by simp
  moreover have "snd (latch r now wall) = map snd tagged" by (simp add: latch_def low d(1))
  ultimately show ?thesis using ne le by (intro exI [of _ "nat n' - ?m"]) simp
qed

text \<open>
  The start of a session survives reordering. Neither side announces its first
  sequence number. A new reassembler that is offered packets during its settle window, in
  any order and multiplicity, from anywhere in the sequence space, returns none of them
  until the window has passed; then \<open>Expire\<close> returns everything from the lowest of them up
  to the first one missing.
\<close>

lemma reorder_fresh_start:
  fixes val :: "nat \<Rightarrow> 'a" and cfg :: ReorderConfig
  assumes "items \<noteq> []" and "t0 = fst (snd (hd items))" and "t0 \<noteq> 0"
    and "list_all (\<lambda>(k, now, wall). k < 2 ^ 31 \<and> now \<noteq> 0
           \<and> timeSub now t0 < rSettle (NewReorder cfg :: 'a Reorder)) items"
    and "int (length items) \<le> rMaxPend (NewReorder cfg :: 'a Reorder)"
    and "rSettle (NewReorder cfg :: 'a Reorder) \<le> timeSub t t0"
    and "rrun (pushAll base val items) (NewReorder cfg) = (r, outs)" and "m = Min (set (map fst items))"
  shows "outs = [] \<and> (\<exists>n. 0 < n \<and> snd (Expire r t wall) = map val [m..<m + n] \<and> m + n \<notin> set (map fst items))"
proof -
  let ?ks = "map fst items"
  have s: "settling base val t0 ?ks r" and none: "outs = []"
    using rrun_settling [of t0 items cfg base val] assms(2-5,7) by auto
  have small: "\<forall>q \<in> set ?ks. q < 2 ^ 31" using assms(4) by (auto simp: list_all_iff)
  have cfg: "rSettle r = rSettle (NewReorder cfg :: 'a Reorder)"
    using rrun_config [of "pushAll base val items" "NewReorder cfg"] by (simp add: assms(7) r_config_def)
  have "held r \<noteq> {}" using s assms(1) by (simp add: settling_def)
  then have ne: "rPend r \<noteq> []" by (metis held_empty_iff)
  have f: "\<not> rStarted r" "rFirstSeen r = t0" using s assms(1) by (simp_all add: settling_def)
  then have "Expire r t wall = latch r t wall"
    using ne assms(6) cfg by (simp add: Expire_def)
  with latch_settled [OF s _ small, of t wall] assms(1,8) none show ?thesis by simp
qed

end
