(* ===== verification/Stash.thy ===== *)
theory Stash
  imports Reorder
begin

text \<open>
  \<open>icg/concentrator/stash.go\<close>: the encoded downlink frames that the peer may still ask for
  again, with the interface its owner relies on stated as a locale.
\<close>

section \<open>The interface\<close>

text \<open>
  The reference: what a map without a limit holds after stores (\<open>Inl\<close>) and cumulative
  acknowledgements (\<open>Inr\<close>).
\<close>

fun unlimited :: "(u32 \<times> 'f + u32) list \<Rightarrow> (u32 \<Rightarrow> 'f option) \<Rightarrow> u32 \<Rightarrow> 'f option" where
  "unlimited [] m = m"
| "unlimited (Inl (q, f) # es) m = unlimited es (m(q \<mapsto> f))"
| "unlimited (Inr a # es) m = unlimited es (\<lambda>k. if diff k a \<le> 0 then None else m k)"

lemma unlimited_mono: "m \<subseteq>\<^sub>m m' \<Longrightarrow> unlimited es m \<subseteq>\<^sub>m unlimited es m'"
proof (induction es m arbitrary: m' rule: unlimited.induct)
  case (2 q f es m)
  have "m(q \<mapsto> f) \<subseteq>\<^sub>m m'(q \<mapsto> f)" using 2(2) by (rule map_le_upd)
  from 2(1) [OF this] show ?case by (simp only: unlimited.simps)
next
  case (3 a es m)
  then have "(\<lambda>k. if diff k a \<le> 0 then None else m k) \<subseteq>\<^sub>m (\<lambda>k. if diff k a \<le> 0 then None else m' k)"
    by (auto simp: map_le_def split: if_splits)
  from 3(1) [OF this] show ?case by simp
qed simp

text \<open>
  What a session needs of a retransmission store: a store that has room remembers every
  frame, it never invents or alters one, and a cumulative acknowledgement frees exactly the
  numbers at or below it.
\<close>

locale retransmit_store =
  fixes ok :: "'s \<Rightarrow> bool" and room :: "'s \<Rightarrow> bool" and lookup :: "'s \<Rightarrow> u32 \<Rightarrow> 'f option"
    and store :: "u32 \<Rightarrow> 'f \<Rightarrow> 's \<Rightarrow> 's" and release :: "u32 \<Rightarrow> 's \<Rightarrow> 's"
  assumes store_ok: "ok s \<Longrightarrow> ok (store q f s)"
    and release_ok: "ok s \<Longrightarrow> ok (release a s)"
    and lookup_store_room: "ok s \<Longrightarrow> room s \<Longrightarrow> lookup (store q f s) = (lookup s)(q \<mapsto> f)"
    and lookup_store_same: "ok s \<Longrightarrow> lookup (store q f s) q = Some f"
    and lookup_store_only: "ok s \<Longrightarrow> k \<noteq> q \<Longrightarrow> lookup (store q f s) k = Some g \<Longrightarrow> lookup s k = Some g"
    and lookup_release: "ok s \<Longrightarrow> lookup (release a s) k = (if diff k a \<le> 0 then None else lookup s k)"
begin

text \<open>
  The store never answers anything but the reference, and as long as it has room it answers
  all of it.
\<close>

fun history :: "(u32 \<times> 'f + u32) list \<Rightarrow> 's \<Rightarrow> 's" where
  "history [] s = s"
| "history (Inl (q, f) # es) s = history es (store q f s)"
| "history (Inr a # es) s = history es (release a s)"

lemma history_ok: "ok s \<Longrightarrow> ok (history es s)"
  by (induction es s rule: history.induct) (simp_all add: store_ok release_ok)

lemma history_sound: "ok s \<Longrightarrow> lookup (history es s) \<subseteq>\<^sub>m unlimited es (lookup s)"
proof (induction es s rule: history.induct)
  case (2 q f es s)
  have "lookup (store q f s) \<subseteq>\<^sub>m (lookup s)(q \<mapsto> f)"
    using lookup_store_same [OF 2(2)] lookup_store_only [OF 2(2)] by (auto simp: map_le_def)
  from unlimited_mono [OF this] 2(1) [OF store_ok [OF 2(2)]] show ?case
    by (auto intro: map_le_trans)
next
  case (3 a es s)
  have "lookup (release a s) = (\<lambda>k. if diff k a \<le> 0 then None else lookup s k)"
    using lookup_release [OF 3(2)] by auto
  with 3(1) [OF release_ok [OF 3(2)]] show ?case by simp
qed simp

fun roomy :: "(u32 \<times> 'f + u32) list \<Rightarrow> 's \<Rightarrow> bool" where
  "roomy [] s = True"
| "roomy (Inl (q, f) # es) s = (room s \<and> roomy es (store q f s))"
| "roomy (Inr a # es) s = roomy es (release a s)"

lemma history_complete: "ok s \<Longrightarrow> roomy es s \<Longrightarrow> lookup (history es s) = unlimited es (lookup s)"
proof (induction es s rule: history.induct)
  case (2 q f es s)
  then show ?case by (simp add: store_ok lookup_store_room)
next
  case (3 a es s)
  have "lookup (release a s) = (\<lambda>k. if diff k a \<le> 0 then None else lookup s k)"
    using lookup_release [OF 3(2)] by auto
  with 3 show ?case by (simp add: release_ok)
qed simp

end

section \<open>State and operations\<close>

text \<open>Go's map with the insertion order beside it; \<open>limit\<close> is an \<open>int\<close>.\<close>

record 'f stash =
  stM :: "(u32 \<times> 'f) list"
  stOrder :: "u32 list"
  stLimit :: int
  stHits :: u64
  stMisses :: u64

definition newStash :: "int \<Rightarrow> 'f stash" where
  "newStash limit = \<lparr>stM = [], stOrder = [], stLimit = (if limit \<le> 0 then 8192 else limit),
     stHits = 0, stMisses = 0\<rparr>"

text \<open>The eviction loop of \<open>put\<close>: oldest first while over the cap.\<close>

function evictLoop :: "'f stash \<Rightarrow> 'f stash" where
  "evictLoop s =
     (case stOrder s of
        [] \<Rightarrow> s
      | old # rest \<Rightarrow>
          if int (length (stM s)) > stLimit s
          then evictLoop (s\<lparr>stOrder := rest, stM := AList.delete old (stM s)\<rparr>)
          else s)"
  by pat_completeness auto
termination by (relation "measure (\<lambda>s. length (stOrder s))") auto

declare evictLoop.simps [simp del]

definition put :: "u32 \<Rightarrow> 'f \<Rightarrow> 'f stash \<Rightarrow> 'f stash" where
  "put seq frame s =
     (let s = (if map_of (stM s) seq = None then s\<lparr>stOrder := stOrder s @ [seq]\<rparr> else s);
          s = s\<lparr>stM := AList.update seq frame (stM s)\<rparr>
      in evictLoop s)"

definition get :: "u32 \<Rightarrow> 'f stash \<Rightarrow> 'f option \<times> 'f stash" where
  "get seq s =
     (case map_of (stM s) seq of
        Some f \<Rightarrow> (Some f, s\<lparr>stHits := stHits s + 1\<rparr>)
      | None \<Rightarrow> (None, s\<lparr>stMisses := stMisses s + 1\<rparr>))"

text \<open>The loop of \<open>ackUpTo\<close> over the insertion order, with \<open>keep\<close> as accumulator.\<close>

fun ackLoop :: "u32 \<Rightarrow> u32 list \<Rightarrow> (u32 \<times> 'f) list \<Rightarrow> u32 list \<Rightarrow> (u32 \<times> 'f) list \<times> u32 list" where
  "ackLoop seq [] m keep = (m, keep)"
| "ackLoop seq (q # qs) m keep =
     (if diff q seq \<le> 0 then ackLoop seq qs (AList.delete q m) keep else ackLoop seq qs m (keep @ [q]))"

definition ackUpTo :: "u32 \<Rightarrow> 'f stash \<Rightarrow> 'f stash" where
  "ackUpTo seq s = (case ackLoop seq (stOrder s) (stM s) [] of (m, keep) \<Rightarrow> s\<lparr>stM := m, stOrder := keep\<rparr>)"

definition stashLen :: "'f stash \<Rightarrow> nat" where
  "stashLen s = length (stM s)"

section \<open>Invariant\<close>

text \<open>The order lists each stored number once, and the cap holds.\<close>

definition st_ok :: "'f stash \<Rightarrow> bool" where
  "st_ok s \<longleftrightarrow> distinct (map fst (stM s)) \<and> distinct (stOrder s) \<and> set (stOrder s) = fst ` set (stM s)
     \<and> 1 \<le> stLimit s \<and> int (length (stM s)) \<le> stLimit s"

lemma st_ok_new: "st_ok (newStash limit)"
  by (simp add: st_ok_def newStash_def)

lemma st_ok_length: "st_ok s \<Longrightarrow> length (stOrder s) = length (stM s)"
  unfolding st_ok_def by (metis distinct_card length_map list.set_map)

text \<open>One turn of the loop is all a \<open>put\<close> can need.\<close>

lemma evict_le: "int (length (stM s)) \<le> stLimit s \<Longrightarrow> evictLoop s = s"
  by (simp add: evictLoop.simps [of s] split: list.split)

lemma evict_one:
  assumes "distinct (map fst (stM s))" and "stOrder s = old # rest" and "old \<in> fst ` set (stM s)"
    and "int (length (stM s)) = stLimit s + 1"
  shows "evictLoop s = s\<lparr>stOrder := rest, stM := AList.delete old (stM s)\<rparr>"
proof -
  obtain f where "map_of (stM s) old = Some f" using assms(3) by (metis lookup_None_iff not_None_eq)
  then have "Suc (length (AList.delete old (stM s))) = length (stM s)"
    using assms(1) by (intro length_delete_old)
  then have "int (length (AList.delete old (stM s))) = stLimit s" using assms(4) by simp
  then show ?thesis using assms(2,4) by (subst evictLoop.simps) (simp add: evict_le)
qed

text \<open>\<open>put\<close> in one equation: a known number is overwritten, a new one may push out the oldest.\<close>

definition full :: "'f stash \<Rightarrow> bool" where
  "full s \<longleftrightarrow> int (length (stM s)) = stLimit s"

lemma put_cases:
  assumes "st_ok s"
  shows "put seq f s =
    (if map_of (stM s) seq \<noteq> None then s\<lparr>stM := AList.update seq f (stM s)\<rparr>
     else if \<not> full s then s\<lparr>stM := AList.update seq f (stM s), stOrder := stOrder s @ [seq]\<rparr>
     else s\<lparr>stM := AList.delete (hd (stOrder s)) (AList.update seq f (stM s)),
            stOrder := tl (stOrder s) @ [seq]\<rparr>)"
proof (cases "map_of (stM s) seq")
  case None
  then have new: "seq \<notin> fst ` set (stM s)" by (metis lookup_None_iff)
  note len = length_update_new [OF new, of f]
  show ?thesis
  proof (cases "full s")
    case True
    then have "stM s \<noteq> []" using assms by (auto simp: full_def st_ok_def)
    then obtain old rest where o: "stOrder s = old # rest"
      using assms by (cases "stOrder s") (auto simp: st_ok_def)
    then have "old \<in> fst ` set (stM s)" using assms by (auto simp: st_ok_def)
    then show ?thesis
      using True None o len assms
      by (simp add: put_def full_def st_ok_def evict_one [of _ old "rest @ [seq]"])
  next
    case False
    then have "int (length (AList.update seq f (stM s))) \<le> stLimit s"
      using assms len by (simp add: full_def st_ok_def)
    then show ?thesis using None False by (simp add: put_def evict_le)
  qed
next
  case (Some g)
  then have old: "seq \<in> fst ` set (stM s)" by (metis lookup_None_iff option.distinct(1))
  then have "int (length (AList.update seq f (stM s))) \<le> stLimit s"
    using assms length_update_old [OF old, of f] by (simp add: st_ok_def)
  then show ?thesis using Some by (simp add: put_def evict_le)
qed

lemma put_ok: "st_ok s \<Longrightarrow> st_ok (put seq f s)"
proof -
  assume ok: "st_ok s"
  note len = st_ok_length [OF ok]
  consider "map_of (stM s) seq \<noteq> None" | "map_of (stM s) seq = None" "\<not> full s" | "map_of (stM s) seq = None" "full s"
    by blast
  then show ?thesis
  proof cases
    case 1
    then have old: "seq \<in> fst ` set (stM s)" by (metis lookup_None_iff)
    with 1 ok length_update_old [OF old, of f] show ?thesis
      by (auto simp: put_cases st_ok_def)
  next
    case 2
    then have new: "seq \<notin> fst ` set (stM s)" by (metis lookup_None_iff)
    with 2 ok length_update_new [OF new, of f] show ?thesis
      by (auto simp: put_cases st_ok_def full_def)
  next
    case 3
    then have new: "seq \<notin> fst ` set (stM s)" by (metis lookup_None_iff)
    have "stM s \<noteq> []" using 3 ok by (auto simp: full_def st_ok_def)
    then obtain o1 rest where o: "stOrder s = o1 # rest" using len by (cases "stOrder s") auto
    have keys: "set (stOrder s) = fst ` set (stM s)" using ok by (simp add: st_ok_def)
    then have o1: "o1 \<in> fst ` set (stM s)" "o1 \<noteq> seq" using new o by auto
    then obtain g where "map_of (AList.update seq f (stM s)) o1 = Some g"
      by (metis lookup_None_iff lookup_update fun_upd_other not_None_eq)
    then have l: "Suc (length (AList.delete o1 (AList.update seq f (stM s)))) = Suc (length (stM s))"
      using length_delete_old [of "AList.update seq f (stM s)" o1] length_update_new [OF new, of f] ok
      by (simp add: st_ok_def)
    have "set (rest @ [seq]) = fst ` set (AList.delete o1 (AList.update seq f (stM s)))"
      using keys o ok o1 by (auto simp: st_ok_def)
    moreover have "distinct (rest @ [seq])" using ok o keys new by (auto simp: st_ok_def)
    ultimately show ?thesis
      using 3 ok o l by (simp add: put_cases st_ok_def full_def)
  qed
qed

text \<open>The acknowledgement loop, as two filters.\<close>

lemma ackLoop_filter:
  "ackLoop seq qs m keep =
     (filter (\<lambda>(k, f). \<not> (k \<in> set qs \<and> diff k seq \<le> 0)) m, keep @ filter (\<lambda>q. 0 < diff q seq) qs)"
proof (induction qs arbitrary: m keep)
  case Nil
  then show ?case by simp
next
  case (Cons q qs)
  have "AList.delete q m = filter (\<lambda>(k, f). k \<noteq> q) m"
    by (induction m) auto
  with Cons show ?case by (auto intro!: filter_cong)
qed

lemma ackUpTo_eq:
  assumes "st_ok s"
  shows "ackUpTo seq s = s\<lparr>stM := filter (\<lambda>(k, f). 0 < diff k seq) (stM s),
    stOrder := filter (\<lambda>q. 0 < diff q seq) (stOrder s)\<rparr>"
proof -
  have "filter (\<lambda>(k, f). \<not> (k \<in> set (stOrder s) \<and> diff k seq \<le> 0)) (stM s) = filter (\<lambda>(k, f). 0 < diff k seq) (stM s)"
    using assms by (intro filter_cong) (auto simp: st_ok_def rev_image_eqI)
  then show ?thesis by (simp add: ackUpTo_def ackLoop_filter)
qed

lemma lookup_filter: "map_of (filter (\<lambda>(k, f). P k) m) k = (if P k then map_of m k else None)"
  by (induction m) auto

lemma keys_filter: "fst ` set (filter (\<lambda>(k, f). P k) m) = {k \<in> fst ` set m. P k}"
  by force

lemma ack_ok:
  assumes "st_ok s"
  shows "st_ok (ackUpTo seq s)"
proof -
  have "int (length (filter (\<lambda>(k, f). 0 < diff k seq) (stM s))) \<le> stLimit s"
    using length_filter_le [of "\<lambda>(k, f). 0 < diff k seq" "stM s"] assms unfolding st_ok_def by linarith
  moreover have "distinct (map fst (filter (\<lambda>(k, f). 0 < diff k seq) (stM s)))"
    using assms by (simp add: st_ok_def distinct_map_filter)
  moreover have "set (filter (\<lambda>q. 0 < diff q seq) (stOrder s)) = fst ` set (filter (\<lambda>(k, f). 0 < diff k seq) (stM s))"
    using assms unfolding keys_filter by (simp add: st_ok_def)
  ultimately show ?thesis
    using assms unfolding st_ok_def ackUpTo_eq [OF assms] by (simp del: set_filter)
qed

definition lookup :: "'f stash \<Rightarrow> u32 \<Rightarrow> 'f option" where
  "lookup s k = map_of (stM s) k"

lemma get_lookup: "fst (get k s) = lookup s k"
  by (simp add: get_def lookup_def split: option.split)

lemma put_lookup:
  assumes "st_ok s"
  shows "lookup (put seq f s) k =
    (if k = seq then Some f
     else if lookup s seq = None \<and> full s \<and> k = hd (stOrder s) then None else lookup s k)"
proof -
  have "hd (stOrder s) \<noteq> seq" if "lookup s seq = None" "full s"
  proof -
    have "stOrder s \<noteq> []" using assms that(2) st_ok_length [OF assms] by (auto simp: full_def st_ok_def)
    then have "hd (stOrder s) \<in> fst ` set (stM s)" using assms by (metis st_ok_def hd_in_set)
    with that(1) show ?thesis by (metis lookup_def lookup_None_iff)
  qed
  then show ?thesis by (auto simp: lookup_def put_cases [OF assms])
qed

text \<open>The session's store keeps the contract.\<close>

interpretation kept_frames: retransmit_store st_ok "\<lambda>s. \<not> full s" lookup put ackUpTo
proof unfold_locales
  fix s :: "'a stash" and q k a f g
  assume ok: "st_ok s"
  show "st_ok (put q f s)" using ok by (rule put_ok)
  show "st_ok (ackUpTo a s)" using ok by (rule ack_ok)
  show "lookup (put q f s) = (lookup s)(q \<mapsto> f)" if "\<not> full s" using that by (auto simp: put_lookup [OF ok])
  show "lookup (put q f s) q = Some f" by (simp add: put_lookup [OF ok])
  show "lookup s k = Some g" if "k \<noteq> q" "lookup (put q f s) k = Some g"
    using that by (auto simp: put_lookup [OF ok] split: if_splits)
  show "lookup (ackUpTo a s) k = (if diff k a \<le> 0 then None else lookup s k)"
    by (simp add: lookup_def ackUpTo_eq [OF ok] lookup_filter)
qed

section \<open>Properties\<close>

fun stHistory :: "(u32 \<times> 'f + u32) list \<Rightarrow> 'f stash \<Rightarrow> 'f stash" where
  "stHistory [] s = s"
| "stHistory (Inl (q, f) # es) s = stHistory es (put q f s)"
| "stHistory (Inr a # es) s = stHistory es (ackUpTo a s)"

lemma stHistory_history: "stHistory es s = kept_frames.history es s"
  by (induction es s rule: stHistory.induct) simp_all

lemma stHistory_config: "st_ok s \<Longrightarrow> stLimit (stHistory es s) = stLimit s"
proof (induction es s rule: stHistory.induct)
  case (2 q f es s)
  have "stLimit (put q f s) = stLimit s" by (simp add: put_cases [OF 2(2)])
  with 2 show ?case by (simp add: put_ok)
next
  case (3 a es s)
  have "stLimit (ackUpTo a s) = stLimit s" by (simp add: ackUpTo_eq [OF 3(2)])
  with 3 show ?case by (simp add: ack_ok)
qed simp

text \<open>
  C39: the retransmission store never answers a request with the wrong frame, nor with one
  that was acknowledged, and its memory is bounded: after any stores and cumulative
  acknowledgements, what \<open>get\<close> returns for a number is what an unlimited store would return
  for it or nothing, and it holds at most \<open>limit\<close> frames (8192 when unset).
\<close>

theorem stash_faithful:
  "(\<lambda>k. fst (get k (stHistory es (newStash limit)))) \<subseteq>\<^sub>m unlimited es Map.empty
   \<and> int (stashLen (stHistory es (newStash limit))) \<le> (if limit \<le> 0 then 8192 else limit)"
proof -
  let ?s = "stHistory es (newStash limit)"
  have empty: "lookup (newStash limit) = Map.empty" by (auto simp: lookup_def newStash_def)
  have "lookup ?s \<subseteq>\<^sub>m unlimited es Map.empty"
    unfolding stHistory_history
    by (rule kept_frames.history_sound [OF st_ok_new, of es limit, unfolded empty])
  moreover have "st_ok ?s" by (simp add: stHistory_history kept_frames.history_ok st_ok_new)
  moreover have "stLimit ?s = (if limit \<le> 0 then 8192 else limit)"
    using stHistory_config [OF st_ok_new, of es limit] by (simp add: newStash_def)
  ultimately show ?thesis by (auto simp: get_lookup stashLen_def st_ok_def)
qed

definition putAll :: "u32 \<Rightarrow> (nat \<Rightarrow> 'f) \<Rightarrow> nat \<Rightarrow> 'f stash \<Rightarrow> 'f stash" where
  "putAll a f n s = fold (\<lambda>i. put (a + of_nat i) (f i)) [0..<n] s"

lemma of_nat_u32_inj: "i < 2 ^ 32 \<Longrightarrow> j < 2 ^ 32 \<Longrightarrow> (of_nat i :: u32) = of_nat j \<longleftrightarrow> i = j"
  by (auto simp: word_of_nat_eq_iff take_bit_nat_eq_self)

lemma putAll_state:
  assumes "0 < limit" and "n \<le> 2 ^ 32"
  shows "st_ok (putAll a f n (newStash limit)) \<and> stLimit (putAll a f n (newStash limit)) = limit
    \<and> stOrder (putAll a f n (newStash limit)) = map (\<lambda>i. a + of_nat i) [n - nat limit..<n]
    \<and> (\<forall>i < n. lookup (putAll a f n (newStash limit)) (a + of_nat i) = (if n - nat limit \<le> i then Some (f i) else None))"
  using assms(2)
proof (induction n)
  case 0
  then show ?case using assms(1) by (simp add: putAll_def st_ok_new) (simp add: newStash_def)
next
  case (Suc n)
  let ?s = "putAll a f n (newStash limit)" and ?k = "a + of_nat n :: u32"
  have IH: "st_ok ?s" "stLimit ?s = limit" "stOrder ?s = map (\<lambda>i. a + of_nat i) [n - nat limit..<n]"
    "\<And>i. i < n \<Longrightarrow> lookup ?s (a + of_nat i) = (if n - nat limit \<le> i then Some (f i) else None)"
    using Suc by auto
  have ne: "(a + of_nat i :: u32) = ?k \<longleftrightarrow> i = n" if "i \<le> n" for i
    using Suc.prems that of_nat_u32_inj [of i n] by simp
  have "?k \<notin> set (stOrder ?s)"
  proof
    assume "?k \<in> set (stOrder ?s)"
    then obtain i where "i < n" "a + of_nat i = ?k" by (auto simp: IH(3))
    with ne [of i] show False by simp
  qed
  then have new: "lookup ?s ?k = None"
    using IH(1) unfolding lookup_def by (metis st_ok_def lookup_None_iff)
  have full: "full ?s \<longleftrightarrow> nat limit \<le> n"
    using st_ok_length [OF IH(1)] assms(1) by (auto simp: full_def IH(2,3))
  have step: "putAll a f (Suc n) (newStash limit) = put ?k (f n) ?s" by (simp add: putAll_def)
  have order: "stOrder (put ?k (f n) ?s) = map (\<lambda>i. a + of_nat i) [Suc n - nat limit..<Suc n]"
  proof (cases "nat limit \<le> n")
    case True
    then have "tl [n - nat limit..<n] = [Suc (n - nat limit)..<n]" using assms(1) by (subst upt_conv_Cons) auto
    then show ?thesis using True new full assms(1) IH(1)
      by (simp add: put_cases lookup_def IH(3) map_tl [symmetric] Suc_diff_le)
  next
    case False
    then show ?thesis using new full IH(1) by (simp add: put_cases lookup_def IH(3))
  qed
  have "lookup (put ?k (f n) ?s) (a + of_nat i) = (if Suc n - nat limit \<le> i then Some (f i) else None)" if "i < Suc n" for i
  proof (cases "i = n")
    case True
    then show ?thesis using assms(1) by (simp add: put_lookup [OF IH(1)])
  next
    case False
    with that have i: "i < n" by simp
    have "a + of_nat i = hd (stOrder ?s) \<longleftrightarrow> i = n - nat limit" if "nat limit \<le> n"
    proof -
      have "hd (stOrder ?s) = a + of_nat (n - nat limit)" using that assms(1) by (simp add: IH(3) upt_conv_Cons)
      then show ?thesis using of_nat_u32_inj [of i "n - nat limit"] i Suc.prems by simp
    qed
    then show ?thesis using i ne [of i] new full assms(1) IH(4) [OF i]
      by (auto simp: put_lookup [OF IH(1)])
  qed
  moreover have "stLimit (put ?k (f n) ?s) = limit" using IH(2) by (simp add: put_cases [OF IH(1)])
  ultimately show ?case unfolding step using order put_ok [OF IH(1)] by blast
qed

text \<open>
  The store keeps exactly the unacknowledged tail of the stream. After frames
  numbered consecutively from \<open>a\<close>, across the wrap-around too, and an acknowledgement of the
  \<open>j\<close>-th, the \<open>i\<close>-th can be retransmitted if and only if it is later than the \<open>j\<close>-th and
  among the last \<open>limit\<close>, and then it is that frame.
\<close>

lemma stash_retains:
  assumes "0 < limit" and "n \<le> 2 ^ 31" and "j < n" and "i < n"
  shows "fst (get (a + of_nat i) (ackUpTo (a + of_nat j) (putAll a f n (newStash limit))))
    = (if j < i \<and> n - nat limit \<le> i then Some (f i) else None)"
proof -
  let ?s = "putAll a f n (newStash limit)"
  have s: "st_ok ?s" "lookup ?s (a + of_nat i) = (if n - nat limit \<le> i then Some (f i) else None)"
    using putAll_state [of limit n a f] assms by simp_all
  have "diff (a + of_nat i) (a + of_nat j) = int i - int j"
    using diff_of_int [of "int i" "int j" a] assms by simp
  then show ?thesis using s by (auto simp: get_lookup kept_frames.lookup_release)
qed

end
