(* ===== verification/IPv4.thy ===== *)
theory IPv4
  imports Body
begin

text \<open>
  \<open>icg/concentrator/ipv4.go\<close>: the IPv4 and UDP headers of tunnelled datagrams, with both
  checksums. A slice expression that Go would panic on is the outcome \<open>Panic\<close>.
\<close>

section \<open>Parsing\<close>

datatype ip_error = ErrNotIPv4 | ErrFragmented | ErrTruncated | ErrProto u8

definition protoICMP :: u8 where [simp]: "protoICMP = 1"
definition protoUDP :: u8 where [simp]: "protoUDP = 17"

record ipv4 =
  ipSrc :: addr
  ipDst :: addr
  ipProto :: u8
  ipTTL :: u8
  ipID :: u16
  ipPayload :: "byte list"

definition parseIPv4 :: "byte list \<Rightarrow> (ip_error + ipv4) outcome" where
  "parseIPv4 b =
     (if length b < 20 then Ret (Inl ErrTruncated)
      else if drop_bit 4 (b ! 0) \<noteq> 4 then Ret (Inl ErrNotIPv4)
      else let ihl = unat (b ! 0 AND 0x0f) * 4 in
        if ihl < 20 \<or> length b < ihl then Ret (Inl ErrTruncated)
        else let total = unat (beU16 (drop 2 b)) in
          if (total < ihl \<or> length b < total) \<and> length b < total then Ret (Inl ErrTruncated)
          else let flags = beU16 (drop 6 b) in
            if flags AND 0x1fff \<noteq> 0 \<or> flags AND 0x2000 \<noteq> 0 then Ret (Inl ErrFragmented)
            else bind_outcome (go_slice b ihl total) (\<lambda>payload.
              Ret (Inr \<lparr>ipSrc = beU32 (take 4 (drop 12 b)), ipDst = beU32 (take 4 (drop 16 b)),
                        ipProto = b ! 9, ipTTL = b ! 8, ipID = beU16 (drop 4 b), ipPayload = payload\<rparr>)))"

record udpDatagram =
  udSrc :: AddrPort
  udDst :: AddrPort
  udData :: "byte list"

definition parseUDP :: "ipv4 \<Rightarrow> ip_error + udpDatagram" where
  "parseUDP p =
     (if ipProto p \<noteq> protoUDP then Inl (ErrProto (ipProto p))
      else let b = ipPayload p in
        if length b < 8 then Inl ErrTruncated
        else let ln = unat (beU16 (drop 4 b));
                 ln = (if ln < 8 \<or> length b < ln then length b else ln)
             in Inr \<lparr>udSrc = AddrPort (ipSrc p) (beU16 b), udDst = AddrPort (ipDst p) (beU16 (drop 2 b)),
                     udData = take (ln - 8) (drop 8 b)\<rparr>)"

section \<open>Checksums\<close>

text \<open>The pairwise loop with its odd last byte, adding to \<open>sum\<close>, which wraps at 32 bits.\<close>

fun addWords :: "byte list \<Rightarrow> u32 \<Rightarrow> u32" where
  "addWords (x # y # b) acc = addWords b (acc + (push_bit 8 (ucast x) OR ucast y))"
| "addWords [x] acc = acc + push_bit 8 (ucast x)"
| "addWords [] acc = acc"

function foldSum :: "u32 \<Rightarrow> u32" where
  "foldSum acc = (if drop_bit 16 acc \<noteq> 0 then foldSum ((acc AND 0xffff) + drop_bit 16 acc) else acc)"
  by pat_completeness auto

lemma unat_byte: "unat (x :: byte) < 256"
  and unat_u16: "unat (y :: u16) < 65536"
  and unat_u32: "unat (z :: u32) < 4294967296"
proof -
  have "unat x < 2 ^ LENGTH(8)" "unat y < 2 ^ LENGTH(16)" "unat z < 2 ^ LENGTH(32)"
    by (rule unsigned_less)+
  then show "unat x < 256" "unat y < 65536" "unat z < 4294967296" by simp_all
qed

lemma unat_fold_step:
  "unat ((s AND 0xffff) + drop_bit 16 s :: u32) = unat s mod 65536 + unat s div 65536"
proof -
  have "unat (s AND 0xffff) = unat s mod 65536"
  proof -
    have "s AND 0xffff = take_bit 16 s" by (simp add: take_bit_eq_mask mask_numeral)
    then have "unat (s AND 0xffff) = take_bit 16 (unat s)" by (simp only: unsigned_take_bit_eq)
    then show ?thesis by (simp add: take_bit_eq_mod)
  qed
  moreover have "unat (drop_bit 16 s) = unat s div 65536" unfolding unat_drop_bit_eq by (simp add: drop_bit_eq_div)
  moreover have "unat s < 4294967296" by (rule unat_u32)
  then have "unat s div 65536 < 65536" by (simp add: less_mult_imp_div_less)
  then have "unat s mod 65536 + unat s div 65536 < 4294967296"
    using mod_less_divisor [of 65536 "unat s"] by linarith
  ultimately show ?thesis by (simp add: unat_word_ariths)
qed

lemma high_zero_iff: "drop_bit 16 (s :: u32) = 0 \<longleftrightarrow> unat s < 65536"
proof -
  have "drop_bit 16 s = 0 \<longleftrightarrow> unat (drop_bit 16 s) = 0" by (simp add: unat_eq_0)
  also have "unat (drop_bit 16 s) = unat s div 65536" unfolding unat_drop_bit_eq by (simp add: drop_bit_eq_div)
  finally show ?thesis by (simp add: div_eq_0_iff)
qed

lemma fold_less: "\<not> n < 65536 \<Longrightarrow> n mod 65536 + n div 65536 < (n :: nat)"
proof -
  assume "\<not> n < 65536"
  then have "0 < n div 65536" by (simp add: div_greater_zero_iff)
  moreover have "n = n div 65536 * 65536 + n mod 65536" by simp
  ultimately show ?thesis by linarith
qed

lemma fold_mod: "(n mod 65536 + n div 65536) mod 65535 = (n :: nat) mod 65535"
proof -
  have "n = n div 65536 * 65536 + n mod 65536" by simp
  then have "n = n mod 65536 + n div 65536 + n div 65536 * 65535" by linarith
  then show ?thesis by (metis mod_mult_self1)
qed

termination foldSum
  by (relation "measure unat") (simp_all add: unat_fold_step high_zero_iff fold_less)

declare foldSum.simps [simp del]

definition checksum :: "byte list \<Rightarrow> u16" where
  "checksum b = NOT (ucast (foldSum (addWords b 0)))"

definition udpChecksum :: "byte list \<Rightarrow> byte list \<Rightarrow> byte list \<Rightarrow> u16" where
  "udpChecksum src dst udp =
     (let acc = addWords dst (addWords src 0);
          acc = acc + ucast protoUDP;
          acc = acc + of_nat (length udp);
          acc = addWords udp acc;
          c = NOT (ucast (foldSum acc))
      in if c = 0 then 0xffff else c)"

section \<open>Building\<close>

definition buildUDPPacket :: "AddrPort \<Rightarrow> AddrPort \<Rightarrow> u16 \<Rightarrow> u8 \<Rightarrow> byte list \<Rightarrow> byte list" where
  "buildUDPPacket src dst ident ttl data =
     (let total = 20 + 8 + length data;
          ttl = (if ttl = 0 then 64 else ttl);
          sa = as4 (apAddr src);
          da = as4 (apAddr dst);
          h1 = [0x45, 0] @ be16 (of_nat total) @ be16 ident @ [0, 0] @ [ttl, protoUDP];
          h2 = sa @ da;
          hdr = h1 @ be16 (checksum (h1 @ [0, 0] @ h2)) @ h2;
          u1 = be16 (apPort src) @ be16 (apPort dst) @ be16 (of_nat (8 + length data));
          udp = u1 @ be16 (udpChecksum sa da (u1 @ [0, 0] @ data)) @ data
      in hdr @ udp)"

section \<open>When parsing panics\<close>

text \<open>Everything before the last slice expression passes.\<close>

definition ip_header_ok :: "byte list \<Rightarrow> bool" where
  "ip_header_ok b \<longleftrightarrow> 20 \<le> length b \<and> drop_bit 4 (b ! 0) = 4
     \<and> 20 \<le> unat (b ! 0 AND 0x0f) * 4 \<and> unat (b ! 0 AND 0x0f) * 4 \<le> length b
     \<and> unat (beU16 (drop 2 b)) \<le> length b
     \<and> beU16 (drop 6 b) AND 0x1fff = 0 \<and> beU16 (drop 6 b) AND 0x2000 = 0"

text \<open>The header passes and declares a total length below the header length.\<close>

definition short_total :: "byte list \<Rightarrow> bool" where
  "short_total b \<longleftrightarrow> ip_header_ok b \<and> unat (beU16 (drop 2 b)) < unat (b ! 0 AND 0x0f) * 4"

lemma short_total_iff: "parseIPv4 b = Panic \<longleftrightarrow> short_total b"
  by (auto simp: short_total_def parseIPv4_def ip_header_ok_def Let_def bind_outcome_Panic_iff go_slice_Panic_iff)

text \<open>
  Exactly which packets crash the parser. \<open>parseIPv4\<close> panics on a packet if and only
  if every one of its checks passes and the total length it declares is smaller than the
  header length it declares; the check meant for that case lets it through.
\<close>

lemma parseIPv4_panics:
  "parseIPv4 b = Panic \<longleftrightarrow> ip_header_ok b \<and> unat (beU16 (drop 2 b)) < unat (b ! 0 AND 0x0f) * 4"
  using short_total_iff by (simp add: short_total_def)

text \<open>The parser's answers in full, as the other theories use them.\<close>

lemma parseIPv4_ok:
  assumes "parseIPv4 b = Ret (Inr p)"
  shows "ip_header_ok b" and "length (ipPayload p) = unat (beU16 (drop 2 b)) - unat (b ! 0 AND 0x0f) * 4"
    and "ipPayload p = take (unat (beU16 (drop 2 b)) - unat (b ! 0 AND 0x0f) * 4) (drop (unat (b ! 0 AND 0x0f) * 4) b)"
  using assms
  by (auto simp: parseIPv4_def ip_header_ok_def Let_def bind_outcome_Ret_iff go_slice_def split: if_splits)

section \<open>One's-complement arithmetic\<close>

text \<open>
  Folding keeps the value modulo 65535 and lands on the representative in 1..65535 unless
  the sum was 0.
\<close>

lemma foldSum_mod:
  "unat (foldSum s) < 65536 \<and> unat (foldSum s) mod 65535 = unat s mod 65535 \<and> (foldSum s = 0 \<longleftrightarrow> s = 0)"
proof (induction s rule: foldSum.induct)
  case (1 s)
  show ?case
  proof (cases "drop_bit 16 s \<noteq> 0")
    case True
    let ?t = "(s AND 0xffff) + drop_bit 16 s"
    have t: "unat ?t = unat s mod 65536 + unat s div 65536" by (rule unat_fold_step)
    have big: "\<not> unat s < 65536" using True by (simp add: high_zero_iff)
    have "unat ?t mod 65535 = unat s mod 65535" unfolding t by (rule fold_mod)
    moreover have "0 < unat s div 65536" using big by (simp add: div_greater_zero_iff)
    then have "unat ?t \<noteq> 0" unfolding t by linarith
    then have "?t \<noteq> 0" by (metis unat_0)
    moreover have "s \<noteq> 0" using big by auto
    moreover have "foldSum s = foldSum ?t" using True by (simp add: foldSum.simps [of s])
    ultimately show ?thesis using 1 [OF True] by simp
  next
    case False
    then show ?thesis by (simp add: foldSum.simps [of s] high_zero_iff)
  qed
qed

lemma foldSum_ffff: "unat s mod 65535 = 0 \<Longrightarrow> s \<noteq> 0 \<Longrightarrow> foldSum s = 0xffff"
proof -
  assume s: "unat s mod 65535 = 0" "s \<noteq> 0"
  have "unat (foldSum s) < 65536" "unat (foldSum s) mod 65535 = 0" "unat (foldSum s) \<noteq> 0"
    using foldSum_mod [of s] s by (simp_all add: unat_eq_0)
  then obtain k where k: "unat (foldSum s) = 65535 * k" by (auto simp: mod_eq_0_iff_dvd elim: dvdE)
  with \<open>unat (foldSum s) < 65536\<close> \<open>unat (foldSum s) \<noteq> 0\<close> have "k = 1" by simp
  with k have "unat (foldSum s) = unat (0xffff :: u32)" by simp
  then show ?thesis by (simp only: word_unat_eq_iff)
qed

text \<open>The loop adds up big-endian words, and does not overflow on a packet.\<close>

fun wordSum :: "byte list \<Rightarrow> nat" where
  "wordSum (x # y # b) = unat x * 256 + unat y + wordSum b"
| "wordSum [x] = unat x * 256"
| "wordSum [] = 0"

lemma wordSum_le: "wordSum b \<le> 65535 * ((length b + 1) div 2)"
proof (induction b rule: wordSum.induct)
  case (1 x y b)
  have "unat x < 256" "unat y < 256" by (rule unat_byte)+
  with 1 show ?case by simp
next
  case (2 x)
  have "unat x < 256" by (rule unat_byte)
  then show ?case by simp
qed simp

lemma unat_pair: "unat (push_bit 8 (ucast (x :: byte)) OR ucast (y :: byte) :: u32) = unat x * 256 + unat y"
proof -
  have x: "unat x < 256" and y: "unat y < 256" by (rule unat_byte)+
  have "push_bit 8 (ucast x) AND ucast y = (0 :: u32)"
    by (rule bit_word_eqI) (auto simp: bit_simps dest: bit_imp_le_length)
  then have "push_bit 8 (ucast x) OR ucast y = (push_bit 8 (ucast x) + ucast y :: u32)"
    by (simp add: disjunctive_add_eq_or)
  moreover have "unat (push_bit 8 (ucast x) :: u32) = unat x * 256"
    using x by (simp add: push_bit_eq_mult unat_word_ariths unsigned_ucast_eq take_bit_nat_eq_self)
  ultimately show ?thesis using x y by (simp add: unat_word_ariths unsigned_ucast_eq take_bit_nat_eq_self)
qed

lemma addWords_nat:
  "unat acc + wordSum b < 2 ^ 32 \<Longrightarrow> unat (addWords b acc) = unat acc + wordSum b"
proof (induction b acc rule: addWords.induct)
  case (1 x y b acc)
  have "unat (acc + (push_bit 8 (ucast x) OR ucast y)) = unat acc + (unat x * 256 + unat y)"
    using 1(2) by (simp add: unat_word_ariths unat_pair)
  with 1 show ?case by simp
next
  case (2 x acc)
  have "unat (push_bit 8 (ucast x) :: u32) = unat x * 256" using unat_pair [of x 0] by simp
  with 2 show ?case by (simp add: unat_word_ariths)
qed simp

lemma wordSum_append: "even (length a) \<Longrightarrow> wordSum (a @ b) = wordSum a + wordSum b"
  by (induction a rule: wordSum.induct) simp_all

lemma wordSum_be16: "wordSum (be16 w) = unat w"
proof -
  have d: "unat (ucast (drop_bit 8 w) :: byte) = unat w div 256"
    unfolding unsigned_ucast_eq unat_drop_bit_eq using unat_u16 [of w]
    by (simp add: drop_bit_eq_div take_bit_eq_mod less_mult_imp_div_less)
  have "unat (ucast w :: byte) = unat w mod 256" unfolding unsigned_ucast_eq by (simp add: take_bit_eq_mod)
  then show ?thesis by (simp add: be16_def le16_def d)
qed

lemma unat_complement: "unat f < 65536 \<Longrightarrow> unat (NOT (ucast (f :: u32)) :: u16) = 65535 - unat f"
proof -
  assume f: "unat f < 65536"
  have "unat (ucast f :: u16) = unat f"
    unfolding unsigned_ucast_eq using f by (simp add: take_bit_nat_eq_self)
  moreover have "NOT (ucast f :: u16) = - 1 - ucast f" by (simp add: not_eq_complement)
  moreover have "unat (- 1 - w :: u16) = 65535 - unat w" for w :: u16
  proof -
    have "w \<le> - 1" by simp
    then have "unat (- 1 - w) = unat (- 1 :: u16) - unat w" by (rule unat_sub)
    moreover have "unat (- 1 :: u16) = 65535" by (simp add: unsigned_minus_1_eq_mask mask_eq_exp_minus_1)
    ultimately show ?thesis by simp
  qed
  ultimately show ?thesis by simp
qed

text \<open>Putting the complement of a sum into it makes the sum fold to all ones.\<close>

lemma complement_verifies:
  assumes "unat u = unat s + unat (NOT (ucast (foldSum s)) :: u16)"
  shows "foldSum u = 0xffff"
proof (rule foldSum_ffff)
  let ?f = "unat (foldSum s)"
  have f: "?f < 65536" "?f mod 65535 = unat s mod 65535" "foldSum s = 0 \<longleftrightarrow> s = 0" using foldSum_mod [of s] by auto
  then have u: "unat u = unat s + (65535 - ?f)" using assms unat_complement by simp
  have "(unat s + (65535 - ?f)) mod 65535 = (?f + (65535 - ?f)) mod 65535"
    using f(2) by (metis mod_add_left_eq)
  then show "unat u mod 65535 = 0" using f(1) by (simp add: u)
  show "u \<noteq> 0"
  proof
    assume "u = 0"
    then have "unat s = 0" using u by simp
    then have "s = 0" by (simp add: unat_eq_0)
    then have "?f = 0" using f(3) by simp
    with u \<open>u = 0\<close> show False by simp
  qed
qed

text \<open>All ones is as good as zero, which UDP reserves.\<close>

lemma all_ones_verifies:
  assumes "unat u = unat s + 65535" and "NOT (ucast (foldSum s) :: u16) = 0"
  shows "foldSum u = 0xffff"
proof (rule foldSum_ffff)
  have "unat (NOT (ucast (foldSum s)) :: u16) = 0" using assms(2) by simp
  then have "unat (foldSum s) = 65535" using foldSum_mod [of s] unat_complement [of "foldSum s"] by simp
  then have "unat s mod 65535 = 0" using foldSum_mod [of s] by simp
  then show "unat u mod 65535 = 0" by (simp add: assms(1))
  show "u \<noteq> 0" using assms(1) by auto
qed

text \<open>A header or segment with its checksum at an even offset.\<close>

lemma checksum_inserted:
  assumes "even (length h1)" and "unat s0 + wordSum h1 + wordSum h2 + 65535 < 2 ^ 32"
  shows "unat (addWords (h1 @ [0, 0] @ h2) s0) = unat s0 + wordSum h1 + wordSum h2"
    and "unat (addWords (h1 @ be16 c @ h2) s0) = unat s0 + wordSum h1 + wordSum h2 + unat c"
proof -
  have c: "wordSum (be16 c @ h2) = unat c + wordSum h2" using wordSum_append [of "be16 c" h2] by (simp add: wordSum_be16)
  have "unat (addWords (h1 @ [0, 0] @ h2) s0) = unat s0 + wordSum (h1 @ [0, 0] @ h2)"
    using assms by (intro addWords_nat) (simp add: wordSum_append)
  then show "unat (addWords (h1 @ [0, 0] @ h2) s0) = unat s0 + wordSum h1 + wordSum h2"
    using assms(1) by (simp add: wordSum_append)
  have "unat (addWords (h1 @ be16 c @ h2) s0) = unat s0 + wordSum (h1 @ be16 c @ h2)"
    using assms c unat_u16 [of c] by (intro addWords_nat) (simp add: wordSum_append)
  then show "unat (addWords (h1 @ be16 c @ h2) s0) = unat s0 + wordSum h1 + wordSum h2 + unat c"
    using assms(1) c by (simp add: wordSum_append)
qed

lemma checksum_verifies:
  assumes "even (length h1)" and "wordSum h1 + wordSum h2 + 65535 < 2 ^ 32"
  shows "checksum (h1 @ be16 (checksum (h1 @ [0, 0] @ h2)) @ h2) = 0"
proof -
  let ?c = "checksum (h1 @ [0, 0] @ h2)"
  have "unat (addWords (h1 @ be16 ?c @ h2) 0) = unat (addWords (h1 @ [0, 0] @ h2) 0) + unat ?c"
    using checksum_inserted [OF assms(1), of 0 h2] assms(2) by simp
  then have "foldSum (addWords (h1 @ be16 ?c @ h2) 0) = 0xffff"
    unfolding checksum_def by (rule complement_verifies)
  then show ?thesis by (simp add: checksum_def [of "_ @ _"])
qed

text \<open>What a receiver computes over the pseudo header and the segment.\<close>

definition udpSum :: "byte list \<Rightarrow> byte list \<Rightarrow> byte list \<Rightarrow> u32" where
  "udpSum src dst udp =
     foldSum (addWords udp (addWords dst (addWords src 0) + ucast protoUDP + of_nat (length udp)))"

lemma udpChecksum_verifies:
  assumes "length src = 4" and "length dst = 4" and "even (length h1)"
    and len: "length h1 + 2 + length data < 65536"
  shows "udpSum src dst (h1 @ be16 (udpChecksum src dst (h1 @ [0, 0] @ data)) @ data) = 0xffff"
    and "udpChecksum src dst (h1 @ [0, 0] @ data) \<noteq> 0"
proof -
  let ?n = "length h1 + 2 + length data"
  let ?z = "addWords dst (addWords src 0) + ucast protoUDP + of_nat ?n :: u32"
  let ?s = "addWords (h1 @ [0, 0] @ data) ?z" and ?c = "udpChecksum src dst (h1 @ [0, 0] @ data)"
  have n: "length (h1 @ [0, 0] @ data) = ?n" "length (h1 @ be16 w @ data) = ?n" for w
    by simp_all
  have c: "?c = (if NOT (ucast (foldSum ?s)) = (0 :: u16) then 0xffff else NOT (ucast (foldSum ?s)))"
    unfolding udpChecksum_def Let_def n by (rule refl)
  then show "?c \<noteq> 0" by simp
  have sd: "wordSum src \<le> 131070" "wordSum dst \<le> 131070"
    using wordSum_le [of src] wordSum_le [of dst] assms(1,2) by simp_all
  have "unat (addWords src 0) = wordSum src" using sd by (subst addWords_nat) simp_all
  then have "unat (addWords dst (addWords src 0)) = wordSum src + wordSum dst" using sd by (subst addWords_nat) simp_all
  moreover have "unat (of_nat ?n :: u32) = ?n" unfolding unat_of_nat using len by (simp del: of_nat_add)
  moreover have add17: "unat (x + ucast protoUDP + y) = unat x + 17 + unat y" if "unat x + 17 + unat y < 4294967296" for x y :: u32
    using that by (simp add: unat_word_ariths)
  ultimately have s0: "unat ?z = wordSum src + wordSum dst + 17 + ?n"
    using sd len by (subst add17) simp_all
  have "wordSum h1 \<le> 65535 * ((length h1 + 1) div 2)" "wordSum data \<le> 65535 * ((length data + 1) div 2)"
    by (rule wordSum_le)+
  moreover have "(length h1 + 1) div 2 + (length data + 1) div 2 \<le> 32768" using len by linarith
  ultimately have small: "unat ?z + wordSum h1 + wordSum data + 65535 < 2 ^ 32"
    using s0 sd len by simp
  have u: "unat (addWords (h1 @ be16 ?c @ data) ?z) = unat ?s + unat ?c"
    using checksum_inserted [OF assms(3) small] by simp
  have "foldSum (addWords (h1 @ be16 ?c @ data) ?z) = 0xffff"
  proof (cases "NOT (ucast (foldSum ?s)) = (0 :: u16)")
    case True
    with c u have "unat (addWords (h1 @ be16 ?c @ data) ?z) = unat ?s + 65535" by simp
    then show ?thesis using True by (rule all_ones_verifies)
  next
    case False
    with c u show ?thesis by (intro complement_verifies) simp
  qed
  then show "udpSum src dst (h1 @ be16 ?c @ data) = 0xffff"
    unfolding udpSum_def n .
qed

section \<open>What is built is what is parsed\<close>

text \<open>The packet, field by field, under names.\<close>

lemma buildUDPPacket_split:
  "\<exists>h1 h2 u1. length h1 = 10 \<and> length h2 = 8 \<and> length u1 = 6 \<and> buildUDPPacket src dst ident ttl data =
     (h1 @ be16 (checksum (h1 @ [0, 0] @ h2)) @ h2)
     @ (u1 @ be16 (udpChecksum (as4 (apAddr src)) (as4 (apAddr dst)) (u1 @ [0, 0] @ data)) @ data)"
  unfolding buildUDPPacket_def Let_def
  by (intro exI conjI; (rule refl)?) (simp_all add: as4_def)

lemma udp_packet_checks:
  assumes "length data \<le> 65507" and "pkt = buildUDPPacket src dst ident ttl data"
  shows "checksum (take 20 pkt) = 0 \<and> udpSum (as4 (apAddr src)) (as4 (apAddr dst)) (drop 20 pkt) = 0xffff
    \<and> beU16 (drop 26 pkt) \<noteq> 0"
proof -
  obtain h1 h2 u1 where l: "length h1 = 10" "length h2 = 8" "length u1 = 6"
    and pkt: "pkt = (h1 @ be16 (checksum (h1 @ [0, 0] @ h2)) @ h2)
      @ (u1 @ be16 (udpChecksum (as4 (apAddr src)) (as4 (apAddr dst)) (u1 @ [0, 0] @ data)) @ data)"
    unfolding assms(2) using buildUDPPacket_split [of src dst ident ttl data] by blast
  let ?hdr = "h1 @ be16 (checksum (h1 @ [0, 0] @ h2)) @ h2"
  let ?us = "udpChecksum (as4 (apAddr src)) (as4 (apAddr dst)) (u1 @ [0, 0] @ data)"
  let ?udp = "u1 @ be16 ?us @ data"
  have len: "length ?hdr = 20" using l by simp
  then have d: "drop 20 pkt = ?udp" "take 20 pkt = ?hdr" "drop 26 pkt = drop 6 ?udp"
    unfolding pkt by simp_all
  have s: "length (as4 a) = 4" for a by (simp add: as4_def)
  have "wordSum h1 \<le> 65535 * 5" "wordSum h2 \<le> 65535 * 4"
    using wordSum_le [of h1] wordSum_le [of h2] l by simp_all
  then have "checksum ?hdr = 0" using l by (intro checksum_verifies) simp_all
  moreover have "udpSum (as4 (apAddr src)) (as4 (apAddr dst)) ?udp = 0xffff" "?us \<noteq> 0"
    using udpChecksum_verifies [OF s s, of u1 data] l assms(1) by simp_all
  moreover have "beU16 (drop 6 ?udp) = ?us" using l by simp
  ultimately show ?thesis by (simp only: d) simp
qed

lemma udp_packet_parses:
  assumes "length data \<le> 65507" and "pkt = buildUDPPacket src dst ident ttl data"
  shows "\<exists>p. parseIPv4 pkt = Ret (Inr p) \<and> ipTTL p = (if ttl = 0 then 64 else ttl) \<and> ipID p = ident
      \<and> parseUDP p = Inr \<lparr>udSrc = src, udDst = dst, udData = data\<rparr>"
proof -
  let ?ttl = "if ttl = 0 then 64 else ttl"
  obtain c u where pkt: "pkt = [0x45, 0] @ be16 (of_nat (28 + length data)) @ be16 ident @ [0, 0] @ [?ttl, protoUDP]
      @ be16 c @ be32 (apAddr src) @ be32 (apAddr dst)
      @ be16 (apPort src) @ be16 (apPort dst) @ be16 (of_nat (8 + length data)) @ be16 u @ data"
    unfolding assms(2) buildUDPPacket_def Let_def by (simp add: as4_def)
  have n: "unat (of_nat (28 + length data) :: u16) = 28 + length data" "unat (of_nat (8 + length data) :: u16) = 8 + length data"
    unfolding unat_of_nat using assms(1) by (simp_all del: of_nat_add)
  have at: "length pkt = 28 + length data" "pkt ! 0 = 0x45" "pkt ! 8 = ?ttl" "pkt ! 9 = 17"
    unfolding pkt by (simp_all add: be16_def le16_def)
  have f: "beU16 (drop 2 pkt) = of_nat (28 + length data)" "beU16 (drop 4 pkt) = ident" "beU16 (drop 6 pkt) = 0"
    "beU32 (take 4 (drop 12 pkt)) = apAddr src" "beU32 (take 4 (drop 16 pkt)) = apAddr dst"
    "drop 20 pkt = be16 (apPort src) @ be16 (apPort dst) @ be16 (of_nat (8 + length data)) @ be16 u @ data"
    unfolding pkt by (simp_all add: beU16_def [of "0 # _"] del: of_nat_add)
  have "ip_header_ok pkt" using n(1) by (simp add: ip_header_ok_def at f)
  moreover have "go_slice pkt 20 (28 + length data) = Ret (take (8 + length data) (drop 20 pkt))"
    using at(1) by (simp add: go_slice_def)
  moreover have "take (8 + length data) (drop 20 pkt) = drop 20 pkt" using at(1) by simp
  ultimately have "parseIPv4 pkt = Ret (Inr \<lparr>ipSrc = apAddr src, ipDst = apAddr dst, ipProto = 17, ipTTL = ?ttl,
      ipID = ident, ipPayload = drop 20 pkt\<rparr>)"
    unfolding parseIPv4_def ip_header_ok_def using n(1) by (simp add: at f del: of_nat_add)
  moreover have "parseUDP \<lparr>ipSrc = apAddr src, ipDst = apAddr dst, ipProto = 17, ipTTL = ?ttl,
      ipID = ident, ipPayload = drop 20 pkt\<rparr> = Inr \<lparr>udSrc = src, udDst = dst, udData = data\<rparr>"
    unfolding f(6) using n(2) by (simp add: parseUDP_def Let_def del: of_nat_add)
  ultimately show ?thesis by auto
qed

text \<open>
  C40: a reply packet is a valid datagram from the outside host to the inside host. For a
  payload that fits one IPv4 packet, what \<open>buildUDPPacket\<close> builds parses back to the same
  endpoints, identification, TTL (64 for 0) and data; a receiver's header checksum over it
  is zero, and its UDP sum over pseudo header and segment is all ones with a checksum field
  that is never the reserved zero.
\<close>

theorem udp_packet_roundtrip:
  assumes "length data \<le> 65507" and "pkt = buildUDPPacket src dst ident ttl data"
  shows "(\<exists>p. parseIPv4 pkt = Ret (Inr p) \<and> ipTTL p = (if ttl = 0 then 64 else ttl) \<and> ipID p = ident
      \<and> parseUDP p = Inr \<lparr>udSrc = src, udDst = dst, udData = data\<rparr>)
    \<and> checksum (take 20 pkt) = 0 \<and> udpSum (as4 (apAddr src)) (as4 (apAddr dst)) (drop 20 pkt) = 0xffff
    \<and> beU16 (drop 26 pkt) \<noteq> 0"
  using udp_packet_parses [OF assms] udp_packet_checks [OF assms] by blast

lemma udp_packet_roundtrip_witness:
  "let pkt = buildUDPPacket (AddrPort 0x08080808 53) (AddrPort 0x0a4a0002 40000) 7 0 [1, 2, 3]
   in checksum (take 20 pkt) = 0 \<and> beU16 (drop 26 pkt) \<noteq> 0
     \<and> (\<exists>p. parseIPv4 pkt = Ret (Inr p) \<and> parseUDP p
          = Inr \<lparr>udSrc = AddrPort 0x08080808 53, udDst = AddrPort 0x0a4a0002 40000, udData = [1, 2, 3]\<rparr>)"
  using udp_packet_roundtrip [of "[1, 2, 3]" _ "AddrPort 0x08080808 53" "AddrPort 0x0a4a0002 40000" 7 0, OF _ refl]
  unfolding Let_def by force

end
