(* ===== verification/Leg.thy ===== *)
theory Leg
  imports Body
begin

text \<open>
  Legs, from \<open>icg/concentrator/session.go\<close>: one transport path to the device, its smoothed
  round-trip time, and the ranking the scheduler uses. A Go \<open>*Leg\<close> is a number; the
  structures the pointers lead to are a function on numbers, so that two entries of the leg
  table, or a frame still queued after its leg was detached, can mean the same leg.
\<close>

record legKey =
  lkKind :: string
  lkID :: string

record Leg =
  lgKey :: legKey
  lgKind :: string
  lgRemote :: "string option"
  lgTunnelID :: int
  lgHasWrite :: bool
  lgLastRx :: instant
  lgRtt :: duration
  lgClosed :: bool
  lgWriteErrs :: u64

type_synonym legs = "nat \<Rightarrow> Leg"

definition legClose :: "Leg \<Rightarrow> Leg" where
  "legClose l = l\<lparr>lgClosed := True\<rparr>"

text \<open>Go's integer division truncates toward zero.\<close>

definition observeRTT :: "Leg \<Rightarrow> duration \<Rightarrow> Leg" where
  "observeRTT l sample =
     (if lgRtt l = 0 then l\<lparr>lgRtt := sample\<rparr>
      else l\<lparr>lgRtt := (lgRtt l * 7 + sample) sdiv 8\<rparr>)"

definition betterThan :: "Leg \<Rightarrow> Leg \<Rightarrow> bool" where
  "betterThan l other =
     (if lgRtt l \<noteq> 0 \<and> lgRtt other = 0 then True
      else if lgRtt l = 0 \<and> lgRtt other \<noteq> 0 then False
      else if lgRtt l \<noteq> lgRtt other \<and> lgRtt l \<noteq> 0 then lgRtt l < lgRtt other
      else lgLastRx other < lgLastRx l)"

text \<open>The \<open>range\<close> loop of \<open>pickLeg\<close>; the empty kind stands for no preference.\<close>

fun pickLoop :: "legs \<Rightarrow> string \<Rightarrow> nat list \<Rightarrow> nat option \<Rightarrow> nat option" where
  "pickLoop heap kind [] best = best"
| "pickLoop heap kind (l # ls) best =
     (if lgClosed (heap l) then pickLoop heap kind ls best
      else if kind \<noteq> '''' \<and> lgKind (heap l) \<noteq> kind then pickLoop heap kind ls best
      else case best of
          None \<Rightarrow> pickLoop heap kind ls (Some l)
        | Some b \<Rightarrow> pickLoop heap kind ls (if betterThan (heap l) (heap b) then Some l else Some b))"

definition pickLeg :: "legs \<Rightarrow> nat list \<Rightarrow> string \<Rightarrow> nat option" where
  "pickLeg heap ls kind =
     (case pickLoop heap kind ls None of
        Some b \<Rightarrow> Some b
      | None \<Rightarrow> if kind \<noteq> '''' then pickLoop heap '''' ls None else None)"

section \<open>The ranking\<close>

text \<open>
  \<open>betterThan\<close> compares measured before unmeasured, then the round-trip time, then the most
  recent packet; as a strict order on that triple it is transitive and its incomparability
  is too.
\<close>

definition rank :: "Leg \<Rightarrow> nat \<times> int \<times> int" where
  "rank l = (if lgRtt l = 0 then 1 else 0, lgRtt l, - lgLastRx l)"

lemma betterThan_rank:
  "betterThan l m \<longleftrightarrow>
     fst (rank l) < fst (rank m) \<or> fst (rank l) = fst (rank m) \<and>
       (fst (snd (rank l)) < fst (snd (rank m)) \<or> fst (snd (rank l)) = fst (snd (rank m)) \<and>
          snd (snd (rank l)) < snd (snd (rank m)))"
  by (auto simp: betterThan_def rank_def)

lemma betterThan_irrefl: "\<not> betterThan l l"
  by (simp add: betterThan_rank)

lemma betterThan_trans: "betterThan a b \<Longrightarrow> betterThan b c \<Longrightarrow> betterThan a c"
  by (auto simp: betterThan_rank)

lemma not_betterThan_trans: "\<not> betterThan a b \<Longrightarrow> \<not> betterThan b c \<Longrightarrow> \<not> betterThan a c"
  by (auto simp: betterThan_rank)

text \<open>What the loop returns: a usable candidate that no usable candidate beats.\<close>

definition usable :: "legs \<Rightarrow> string \<Rightarrow> nat \<Rightarrow> bool" where
  "usable heap kind l \<longleftrightarrow> \<not> lgClosed (heap l) \<and> (kind = '''' \<or> lgKind (heap l) = kind)"

lemma pickLoop_best:
  "pickLoop heap kind ls best = Some b \<Longrightarrow>
     (b \<in> set ls \<and> usable heap kind b \<or> best = Some b)
     \<and> (\<forall>c \<in> set ls. usable heap kind c \<longrightarrow> \<not> betterThan (heap c) (heap b))
     \<and> (\<forall>d. best = Some d \<longrightarrow> \<not> betterThan (heap d) (heap b))"
proof (induction heap kind ls best arbitrary: b rule: pickLoop.induct)
  case (1 heap kind best)
  then show ?case by (simp add: betterThan_irrefl)
next
  case (2 heap kind l ls best)
  consider "lgClosed (heap l)" | "\<not> lgClosed (heap l)" "kind \<noteq> '''' \<and> lgKind (heap l) \<noteq> kind"
    | "\<not> lgClosed (heap l)" "\<not> (kind \<noteq> '''' \<and> lgKind (heap l) \<noteq> kind)" by blast
  then show ?case
  proof cases
    case 1
    with 2(1) [OF 1, of b] 2(5) show ?thesis by (simp add: usable_def) blast
  next
    case two: 2
    with 2(2) [OF two, of b] 2(5) show ?thesis by (simp add: usable_def) blast
  next
    case 3
    then have u: "usable heap kind l" by (auto simp: usable_def)
    show ?thesis
    proof (cases best)
      case None
      with 2(3) [OF 3 None, of b] 2(5) 3 u show ?thesis by (auto simp: pickLoop.simps(2))
    next
      case (Some d)
      define e where "e = (if betterThan (heap l) (heap d) then l else d)"
      have e: "(if betterThan (heap l) (heap d) then Some l else Some d) = Some e" by (simp add: e_def)
      have "pickLoop heap kind ls (Some e) = Some b"
        using 2(5) 3 Some e by (simp only: pickLoop.simps if_False option.case)
      from 2(4) [OF 3 Some, unfolded e, OF this]
      have IH: "b \<in> set ls \<and> usable heap kind b \<or> b = e"
        "\<forall>c \<in> set ls. usable heap kind c \<longrightarrow> \<not> betterThan (heap c) (heap b)" "\<not> betterThan (heap e) (heap b)"
        by auto
      have le: "\<not> betterThan (heap l) (heap e)" "\<not> betterThan (heap d) (heap e)"
        using betterThan_irrefl betterThan_trans by (auto simp: e_def)
      have "\<not> betterThan (heap l) (heap b)" "\<not> betterThan (heap d) (heap b)"
        using le IH(3) by (blast dest: not_betterThan_trans)+
      moreover have "e = l \<or> e = d" by (simp add: e_def)
      ultimately show ?thesis using IH(1,2) u Some by auto
    qed
  qed
qed

lemma pickLoop_None: "pickLoop heap kind ls best = None \<longleftrightarrow> best = None \<and> (\<forall>l \<in> set ls. \<not> usable heap kind l)"
  by (induction heap kind ls best rule: pickLoop.induct) (auto simp: usable_def split: option.split)

section \<open>Properties\<close>

text \<open>
  The scheduler always finds the best leg. \<open>pickLeg\<close> returns nothing only when every
  leg is closed; otherwise it returns an open leg of the table, of the preferred kind when
  one of that kind is open, and no leg it could have taken instead is better: measured
  before unmeasured, lower round-trip time first, the most recent packet on a tie. This
  holds in whatever order the table is visited.
\<close>

lemma pickLeg_best:
  "case pickLeg heap ls kind of
     None \<Rightarrow> list_all (\<lambda>l. lgClosed (heap l)) ls
   | Some b \<Rightarrow> b \<in> set ls \<and> \<not> lgClosed (heap b)
       \<and> (if filter (usable heap kind) ls = []
          then list_all (\<lambda>c. lgClosed (heap c) \<or> \<not> betterThan (heap c) (heap b)) ls
          else usable heap kind b \<and> list_all (\<lambda>c. \<not> betterThan (heap c) (heap b)) (filter (usable heap kind) ls))"
proof (cases "pickLoop heap kind ls None")
  case None
  then have none: "\<forall>l \<in> set ls. \<not> usable heap kind l" by (simp add: pickLoop_None)
  then have empty: "filter (usable heap kind) ls = []" by (simp add: filter_empty_conv)
  show ?thesis
  proof (cases "kind = ''''")
    case True
    with None none show ?thesis by (auto simp: pickLeg_def usable_def list_all_iff)
  next
    case False
    then have p: "pickLeg heap ls kind = pickLoop heap '''' ls None" using None by (simp add: pickLeg_def)
    show ?thesis
    proof (cases "pickLoop heap '''' ls None")
      case None
      then have "\<forall>l \<in> set ls. \<not> usable heap '''' l" by (simp add: pickLoop_None)
      then show ?thesis using None p by (simp add: usable_def list_all_iff)
    next
      case (Some b)
      then show ?thesis using p empty pickLoop_best [OF Some] by (auto simp: usable_def list_all_iff)
    qed
  qed
next
  case (Some b)
  then have p: "pickLeg heap ls kind = Some b" by (simp add: pickLeg_def)
  from pickLoop_best [OF Some] show ?thesis
    by (auto simp: p usable_def list_all_iff filter_empty_conv)
qed

text \<open>
  The round-trip estimate is an average. A positive sample moves a leg's estimate to a
  value between the old estimate and the sample, never to the zero that means unmeasured,
  and a first sample is taken as it is.
\<close>

lemma observeRTT_between:
  assumes "0 \<le> lgRtt l" and "0 < sample"
  shows "0 < lgRtt (observeRTT l sample)
    \<and> (if lgRtt l = 0 then lgRtt (observeRTT l sample) = sample
       else min (lgRtt l) sample \<le> lgRtt (observeRTT l sample) \<and> lgRtt (observeRTT l sample) \<le> max (lgRtt l) sample)"
proof (cases "lgRtt l = 0")
  case True
  with assms show ?thesis by (simp add: observeRTT_def)
next
  case False
  with assms have r: "0 < lgRtt l" by simp
  then have q: "lgRtt (observeRTT l sample) = (lgRtt l * 7 + sample) div 8"
    using assms by (simp add: observeRTT_def signed_divide_int_def)
  have "min (lgRtt l) sample * 8 \<le> lgRtt l * 7 + sample" "lgRtt l * 7 + sample \<le> max (lgRtt l) sample * 8"
    by simp_all
  then have "min (lgRtt l) sample \<le> (lgRtt l * 7 + sample) div 8"
    "(lgRtt l * 7 + sample) div 8 \<le> max (lgRtt l) sample" by linarith+
  with r assms q False show ?thesis by simp
qed

end
