(* ===== verification/Session.thy ===== *)
theory Session
  imports Frame Leg Stash IPv4
begin

text \<open>
  \<open>icg/concentrator/session.go\<close> with the session halves of \<open>tcpflow.go\<close> and \<open>udpflow.go\<close>:
  everything one device's goroutine does. The state is the Go struct; beside it stand the
  legs its pointers lead to, a supply of numbers for new \<open>*tcpFlow\<close> pointers, a counter of
  the questions asked of the environment (the clock, whether a write or a dial succeeds),
  and the trace of what the session did to the outside world, in order. Log lines are not
  modelled.
\<close>

section \<open>Data\<close>

record Config =
  cfMagic :: u32
  cfKeepaliveInterval :: duration
  cfAckInterval :: duration
  cfReorder :: ReorderConfig
  cfStashLimit :: int
  cfMaxFlowsPerSession :: int
  cfUDPFlowIdle :: duration
  cfStatsInterval :: duration
  cfAllowedDevices :: "(string \<times> bool) list"

record tcpChunk =
  tcFlow :: Flow
  tcOp :: u16
  tcData :: "byte list"

datatype udpKey = UdpKey (ukInside: AddrPort) (ukOutside: AddrPort)

record udpFlow =
  ufKey :: udpKey
  ufLastUse :: instant
  ufClosed :: bool
  ufIpID :: u16

record upstreamData =
  upFlow :: Flow
  upData :: "byte list"
  upClosed :: bool
  upDialFailed :: bool
  upIsTCP :: bool
  upPacket :: "byte list"

record Stats =
  sxFramesIn :: u64
  sxFramesOut :: u64
  sxTCPFlows :: u64
  sxUDPFlows :: u64
  sxICMPDropped :: u64
  sxRetransmitsServed :: u64
  sxRetransmitsRequested :: u64
  sxUnknownFrames :: u64
  sxHandshakes :: u64
  sxUpstreamDialFails :: u64
  sxRefused :: u64
  sxRefusedFrames :: u64

text \<open>
  What the session does to the world: bytes on a leg, a TCP dial with the new flow's
  number, data queued to a flow, a flow closed, UDP sockets, an operator notice, a snapshot.
\<close>

datatype effect =
    LegWrite nat "byte list"
  | FlowDial nat Flow
  | FlowEnqueue nat "byte list"
  | FlowClose nat
  | UdpDial udpKey bool
  | UdpWrite udpKey "byte list"
  | UdpClose udpKey
  | Notice string string
  | Published instant

record Session =
  seTunIP :: u32
  seState :: State
  seLegs :: "(legKey \<times> nat) list"
  seUpTCP :: "tcpChunk Reorder"
  seUpUDP :: "byte list Reorder"
  seDownTCPSeq :: u32
  seDownUDPSeq :: u32
  seStashTCP :: "byte list stash"
  seStashUDP :: "byte list stash"
  seFlows :: "(Flow \<times> nat) list"
  seUdpFlows :: "(udpKey \<times> udpFlow) list"
  seLastTCPAck :: instant
  seLastUDPAck :: instant
  seLastKeepalive :: instant
  seLastStats :: instant
  seLastPublish :: instant
  seCreatedAt :: instant
  seClientMAC :: "byte list"
  seClientTunIP :: "addr option"
  seAdmitted :: bool
  seStats :: Stats
  seHeap :: legs
  seFresh :: nat
  seCalls :: nat
  seOut :: "effect list"

text \<open>The environment's answers, by the number of the question.\<close>

record env =
  enNow :: "nat \<Rightarrow> instant"
  enWriteOK :: "nat \<Rightarrow> bool"
  enDialOK :: "nat \<Rightarrow> bool"

record inbound =
  inLeg :: nat
  inFrame :: Frame
  inAt :: instant

definition noStats :: Stats where
  "noStats = \<lparr>sxFramesIn = 0, sxFramesOut = 0, sxTCPFlows = 0, sxUDPFlows = 0, sxICMPDropped = 0,
     sxRetransmitsServed = 0, sxRetransmitsRequested = 0, sxUnknownFrames = 0, sxHandshakes = 0,
     sxUpstreamDialFails = 0, sxRefused = 0, sxRefusedFrames = 0\<rparr>"

definition newSession :: "Config \<Rightarrow> u32 \<Rightarrow> instant \<Rightarrow> legs \<Rightarrow> Session" where
  "newSession c tunIP now heap = \<lparr>seTunIP = tunIP, seState = StateInit, seLegs = [],
     seUpTCP = NewReorder (cfReorder c), seUpUDP = NewReorder (cfReorder c),
     seDownTCPSeq = 0, seDownUDPSeq = 0,
     seStashTCP = newStash (cfStashLimit c), seStashUDP = newStash (cfStashLimit c),
     seFlows = [], seUdpFlows = [], seLastTCPAck = 0, seLastUDPAck = 0, seLastKeepalive = 0,
     seLastStats = 0, seLastPublish = 0, seCreatedAt = now, seClientMAC = [], seClientTunIP = None,
     seAdmitted = False, seStats = noStats, seHeap = heap, seFresh = 0, seCalls = 0, seOut = []\<rparr>"

section \<open>Talking to the world\<close>

definition emit :: "effect \<Rightarrow> Session \<Rightarrow> Session" where
  "emit x s = s\<lparr>seOut := seOut s @ [x]\<rparr>"

definition asked :: "Session \<Rightarrow> Session" where
  "asked s = s\<lparr>seCalls := seCalls s + 1\<rparr>"

definition setLeg :: "nat \<Rightarrow> Leg \<Rightarrow> Session \<Rightarrow> Session" where
  "setLeg l x s = s\<lparr>seHeap := (seHeap s)(l := x)\<rparr>"

definition modStats :: "(Stats \<Rightarrow> Stats) \<Rightarrow> Session \<Rightarrow> Session" where
  "modStats f s = s\<lparr>seStats := f (seStats s)\<rparr>"

definition writeRaw :: "env \<Rightarrow> nat \<Rightarrow> byte list \<Rightarrow> Session \<Rightarrow> Session" where
  "writeRaw e l b s =
     (let leg = seHeap s l in
      if lgClosed leg \<or> \<not> lgHasWrite leg then s
      else let ok = enWriteOK e (seCalls s);
               s = asked (emit (LegWrite l b) s)
           in if ok then s else setLeg l (leg\<lparr>lgWriteErrs := lgWriteErrs leg + 1\<rparr>) s)"

definition sessionPickLeg :: "string \<Rightarrow> Session \<Rightarrow> nat option" where
  "sessionPickLeg kind s = pickLeg (seHeap s) (map snd (seLegs s)) kind"

definition bumpOut :: "Session \<Rightarrow> Session" where
  "bumpOut s = modStats (\<lambda>x. x\<lparr>sxFramesOut := sxFramesOut x + 1\<rparr>) s"

definition stamp :: "Config \<Rightarrow> Session \<Rightarrow> Frame \<Rightarrow> Frame" where
  "stamp c s f = f\<lparr>frMagic := cfMagic c, frIcgID := seTunIP s\<rparr>"

definition sendOn :: "Config \<Rightarrow> env \<Rightarrow> nat option \<Rightarrow> Frame \<Rightarrow> Session \<Rightarrow> Session" where
  "sendOn c e leg f s =
     (case leg of
        None \<Rightarrow> s
      | Some l \<Rightarrow> writeRaw e l (Encode (stamp c s f)) (bumpOut s))"

text \<open>A frame literal with the fields the code leaves at zero.\<close>

definition mkFrame :: "u8 \<Rightarrow> u8 \<Rightarrow> u32 \<Rightarrow> byte list \<Rightarrow> Frame" where
  "mkFrame ty op seq body = \<lparr>frMagic = 0, frIcgID = 0, frType = ty, frOpcode = op, frSeq = seq, frBody = body\<rparr>"

section \<open>Downlink\<close>

definition maxChunk :: nat where "maxChunk = 1400"

definition writeMaybe :: "env \<Rightarrow> nat option \<Rightarrow> byte list \<Rightarrow> Session \<Rightarrow> Session" where
  "writeMaybe e leg b s = (case leg of None \<Rightarrow> s | Some l \<Rightarrow> writeRaw e l b s)"

definition sendTCPDown :: "Config \<Rightarrow> env \<Rightarrow> Flow \<Rightarrow> u16 \<Rightarrow> byte list \<Rightarrow> Session \<Rightarrow> Session" where
  "sendTCPDown c e flow opc data s =
     (let seq = seDownTCPSeq s;
          s = s\<lparr>seDownTCPSeq := seDownTCPSeq s + 1\<rparr>;
          f = mkFrame TypeTCPDown 0 0 (tcpAppendTo (DownBody flow seq opc data) []);
          enc = Encode (stamp c s f);
          s = bumpOut (s\<lparr>seStashTCP := put seq enc (seStashTCP s)\<rparr>)
      in writeMaybe e (sessionPickLeg ''tcp'' s) enc s)"

definition sendUDPDown :: "Config \<Rightarrow> env \<Rightarrow> byte list \<Rightarrow> Session \<Rightarrow> Session" where
  "sendUDPDown c e pkt s =
     (if pkt = [] then s
      else let seq = seDownUDPSeq s;
               s = s\<lparr>seDownUDPSeq := seDownUDPSeq s + 1\<rparr>;
               enc = Encode (stamp c s (mkFrame TypeUDP 0 seq pkt));
               s = bumpOut (s\<lparr>seStashUDP := put seq enc (seStashUDP s)\<rparr>)
           in writeMaybe e (sessionPickLeg ''udp'' s) enc s)"

section \<open>TCP flows\<close>

text \<open>
  The session's side of \<open>enqueue\<close>: the chunk is handed to the flow. What the call then does with
  it, when the flow is done or its queue stays full, is \<open>enqueueStart\<close> and what follows it in
  \<open>Tcp_Flow\<close>.
\<close>

definition enqueue :: "nat \<Rightarrow> byte list \<Rightarrow> Session \<Rightarrow> Session" where
  "enqueue fid b s = (if b = [] then s else emit (FlowEnqueue fid b) s)"

definition openFlow :: "Config \<Rightarrow> env \<Rightarrow> Flow \<Rightarrow> Session \<Rightarrow> nat option \<times> Session" where
  "openFlow c e flow s =
     (case map_of (seFlows s) flow of
        Some f \<Rightarrow> (Some f, s)
      | None \<Rightarrow>
          if int (length (seFlows s)) \<ge> cfMaxFlowsPerSession c
          then (None, sendTCPDown c e flow TCPDisconnect [] s)
          else let f = seFresh s;
                   s = s\<lparr>seFresh := seFresh s + 1, seFlows := AList.update flow f (seFlows s)\<rparr>;
                   s = modStats (\<lambda>x. x\<lparr>sxTCPFlows := sxTCPFlows x + 1\<rparr>) s
               in (Some f, emit (FlowDial f flow) s))"

definition dropFlow :: "Flow \<Rightarrow> Session \<Rightarrow> Session" where
  "dropFlow flow s =
     (case map_of (seFlows s) flow of
        None \<Rightarrow> s
      | Some f \<Rightarrow> (emit (FlowClose f) s)\<lparr>seFlows := AList.delete flow (seFlows s)\<rparr>)"

definition deliverTCP :: "Config \<Rightarrow> env \<Rightarrow> tcpChunk \<Rightarrow> Session \<Rightarrow> Session" where
  "deliverTCP c e ch s =
     (if tcOp ch = TCPConnect then snd (openFlow c e (tcFlow ch) s)
      else if tcOp ch = TCPPayload then
        case map_of (seFlows s) (tcFlow ch) of
          Some f \<Rightarrow> enqueue f (tcData ch) s
        | None \<Rightarrow>
            (case openFlow c e (tcFlow ch) s of
               (None, s) \<Rightarrow> s
             | (Some f, s) \<Rightarrow> enqueue f (tcData ch) s)
      else if tcOp ch = TCPDisconnect then dropFlow (tcFlow ch) s
      else s)"

definition handleTCPUp :: "Config \<Rightarrow> env \<Rightarrow> inbound \<Rightarrow> Session \<Rightarrow> Session" where
  "handleTCPUp c e i s =
     (case ParseTCPBody (frBody (inFrame i)) of
        Inl err \<Rightarrow> s
      | Inr body \<Rightarrow>
          let ch = \<lparr>tcFlow = UpFlow body, tcOp = tbOpcode body, tcData = tbData body\<rparr>
          in case Push (seUpTCP s) (tbSeq body) ch (inAt i) (enNow e (seCalls s)) of
               (r, ready) \<Rightarrow> fold (deliverTCP c e) ready (asked (s\<lparr>seUpTCP := r\<rparr>)))"

section \<open>UDP flows\<close>

definition openUDPFlow :: "env \<Rightarrow> udpKey \<Rightarrow> u16 \<Rightarrow> Session \<Rightarrow> udpFlow option \<times> Session" where
  "openUDPFlow e key ident s =
     (let ok = enDialOK e (seCalls s);
          s = asked (emit (UdpDial key ok) s)
      in if \<not> ok then (None, s)
         else let f = \<lparr>ufKey = key, ufLastUse = enNow e (seCalls s), ufClosed = False, ufIpID = ident\<rparr>;
                  s = (asked s)\<lparr>seUdpFlows := AList.update key f (seUdpFlows s)\<rparr>
              in (Some f, modStats (\<lambda>x. x\<lparr>sxUDPFlows := sxUDPFlows x + 1\<rparr>) s))"

definition udpForward :: "env \<Rightarrow> udpKey \<Rightarrow> udpFlow \<Rightarrow> byte list \<Rightarrow> Session \<Rightarrow> Session" where
  "udpForward e key f data s =
     (let s' = (asked s)\<lparr>seUdpFlows := AList.update key (f\<lparr>ufLastUse := enNow e (seCalls s)\<rparr>) (seUdpFlows s)\<rparr>
      in emit (UdpWrite key data) s')"

definition deliverUDP :: "Config \<Rightarrow> env \<Rightarrow> byte list \<Rightarrow> Session \<Rightarrow> Session outcome" where
  "deliverUDP c e pkt s =
     bind_outcome (parseIPv4 pkt) (\<lambda>res.
       case res of
         Inl err \<Rightarrow> Ret s
       | Inr ip \<Rightarrow>
           if ipProto ip \<noteq> protoUDP then Ret s
           else case parseUDP ip of
               Inl err \<Rightarrow> Ret s
             | Inr d \<Rightarrow>
                 let key = UdpKey (udSrc d) (udDst d) in
                 case map_of (seUdpFlows s) key of
                   Some f \<Rightarrow> Ret (udpForward e key f (udData d) s)
                 | None \<Rightarrow>
                     if int (length (seUdpFlows s)) \<ge> cfMaxFlowsPerSession c then Ret s
                     else case openUDPFlow e key (ipID ip) s of
                         (None, s) \<Rightarrow> Ret s
                       | (Some f, s) \<Rightarrow> Ret (udpForward e key f (udData d) s))"

definition handleUDPUp :: "Config \<Rightarrow> env \<Rightarrow> inbound \<Rightarrow> Session \<Rightarrow> Session outcome" where
  "handleUDPUp c e i s =
     (case Push (seUpUDP s) (frSeq (inFrame i)) (frBody (inFrame i)) (inAt i) (enNow e (seCalls s)) of
        (r, ready) \<Rightarrow> fold_outcome (deliverUDP c e) ready (asked (s\<lparr>seUpUDP := r\<rparr>)))"

definition udpClose :: "udpFlow \<Rightarrow> Session \<Rightarrow> Session" where
  "udpClose f s = (if ufClosed f then s else emit (UdpClose (ufKey f)) s)"

section \<open>From the upstream sockets\<close>

text \<open>The loop over \<open>data[off:end]\<close> in steps of \<open>maxChunk\<close>.\<close>

function sendChunks :: "Config \<Rightarrow> env \<Rightarrow> Flow \<Rightarrow> byte list \<Rightarrow> Session \<Rightarrow> Session" where
  "sendChunks c e flow data s =
     (if data = [] then s
      else sendChunks c e flow (drop maxChunk data) (sendTCPDown c e flow TCPPayload (take maxChunk data) s))"
  by pat_completeness auto
termination
  by (relation "measure (\<lambda>(c, e, flow, data, s). length data)") (auto simp: maxChunk_def)

declare sendChunks.simps [simp del]

definition handleUpstream :: "Config \<Rightarrow> env \<Rightarrow> upstreamData \<Rightarrow> Session \<Rightarrow> Session" where
  "handleUpstream c e u s =
     (if \<not> upIsTCP u then sendUDPDown c e (upPacket u) s
      else if upClosed u then
        let s = (if upDialFailed u then modStats (\<lambda>x. x\<lparr>sxUpstreamDialFails := sxUpstreamDialFails x + 1\<rparr>) s else s)
        in sendTCPDown c e (upFlow u) TCPDisconnect [] (dropFlow (upFlow u) s)
      else sendChunks c e (upFlow u) (upData u) s)"

text \<open>
  What the socket readers hand back: TCP data in the pieces it was read in, then the end;
  one whole IPv4 packet per UDP datagram, from the outside host to the inside host, until a
  read fails. A UDP read is its data and its error, if any.
\<close>

definition readPump :: "Flow \<Rightarrow> byte list list \<Rightarrow> upstreamData list" where
  "readPump flow reads =
     map (\<lambda>d. \<lparr>upFlow = flow, upData = d, upClosed = False, upDialFailed = False, upIsTCP = True, upPacket = []\<rparr>)
       (filter (\<lambda>d. d \<noteq> []) reads)
     @ [\<lparr>upFlow = flow, upData = [], upClosed = True, upDialFailed = False, upIsTCP = True, upPacket = []\<rparr>]"

definition udpReply :: "udpFlow \<Rightarrow> byte list \<Rightarrow> upstreamData" where
  "udpReply f d = \<lparr>upFlow = Flow (AddrPort 0 0) (AddrPort 0 0), upData = [], upClosed = False, upDialFailed = False,
     upIsTCP = False, upPacket = buildUDPPacket (ukOutside (ufKey f)) (ukInside (ufKey f)) (ufIpID f) 64 d\<rparr>"

fun udpReadPump :: "udpFlow \<Rightarrow> (byte list \<times> string option) list \<Rightarrow> upstreamData list" where
  "udpReadPump f [] = []"
| "udpReadPump f ((d, err) # reads) =
     (let f' = (if d = [] then f else f\<lparr>ufIpID := ufIpID f + 1\<rparr>);
          out = (if d = [] then [] else [udpReply f' d])
      in if err = None then out @ udpReadPump f' reads else out)"

end
