(* ===== verification/Session_Loop.thy ===== *)
theory Session_Loop
  imports Session
begin

text \<open>
  The rest of \<open>icg/concentrator/session.go\<close>: handshake and admission, acknowledgements and
  retransmission, sequence resynchronisation, the periodic work, and the event loop \<open>run\<close>.
\<close>

section \<open>Handshake\<close>

text \<open>\<open>HardwareAddr.String\<close>: lower-case hex pairs with colons, so \<open>ToLower\<close> leaves it alone.\<close>

definition hexDigit :: "u8 \<Rightarrow> char" where
  "hexDigit w = ''0123456789abcdef'' ! unat (w AND 0x0f)"

fun macText :: "byte list \<Rightarrow> string" where
  "macText [] = ''''"
| "macText [b] = [hexDigit (drop_bit 4 b), hexDigit b]"
| "macText (b # c # bs) = [hexDigit (drop_bit 4 b), hexDigit b, CHR '':''] @ macText (c # bs)"

definition peerHint :: "Session \<Rightarrow> string" where
  "peerHint s =
     (case List.map_filter (\<lambda>(k, l). lgRemote (seHeap s l)) (seLegs s) of
        [] \<Rightarrow> ''unknown''
      | r # _ \<Rightarrow> r)"

definition refuse :: "Session \<Rightarrow> Session" where
  "refuse s =
     (let s = modStats (\<lambda>x. x\<lparr>sxRefused := sxRefused x + 1\<rparr>) (s\<lparr>seAdmitted := False\<rparr>)
      in emit (Notice ''device-refused'' (peerHint s)) s)"

definition checkAdmission :: "Config \<Rightarrow> bool \<Rightarrow> Session \<Rightarrow> bool \<times> Session" where
  "checkAdmission c parsed s =
     (if cfAllowedDevices c = [] then (True, s\<lparr>seAdmitted := True\<rparr>)
      else if \<not> parsed then (False, refuse s)
      else if map_of (cfAllowedDevices c) (macText (seClientMAC s)) \<noteq> Some True then (False, refuse s)
      else (True, s\<lparr>seAdmitted := True\<rparr>))"

definition closeFlows :: "Session \<Rightarrow> Session" where
  "closeFlows s = fold (\<lambda>(k, f). emit (FlowClose f)) (seFlows s) s"

definition closeUdpFlows :: "Session \<Rightarrow> Session" where
  "closeUdpFlows s = fold (\<lambda>(k, f). udpClose f) (seUdpFlows s) s"

definition resetForHandshake :: "Config \<Rightarrow> Session \<Rightarrow> Session" where
  "resetForHandshake c s =
     (let s = s\<lparr>seUpTCP := Reset (seUpTCP s), seUpUDP := Reset (seUpUDP s),
                seStashTCP := newStash (cfStashLimit c), seStashUDP := newStash (cfStashLimit c),
                seDownTCPSeq := 0, seDownUDPSeq := 0\<rparr>;
          s = (closeFlows s)\<lparr>seFlows := []\<rparr>
      in (closeUdpFlows s)\<lparr>seUdpFlows := []\<rparr>)"

definition onHandshakeReq :: "Config \<Rightarrow> env \<Rightarrow> inbound \<Rightarrow> Session \<Rightarrow> Session" where
  "onHandshakeReq c e i s =
     (let s = modStats (\<lambda>x. x\<lparr>sxHandshakes := sxHandshakes x + 1\<rparr>) s;
          res = ParseHandshakeReq (frBody (inFrame i));
          s = (case res of
                 Inl err \<Rightarrow> s
               | Inr req \<Rightarrow> s\<lparr>seClientMAC := hrMAC req, seClientTunIP := Some (hrIcgID req)\<rparr>)
      in case checkAdmission c (\<not> isl res) s of
           (False, s) \<Rightarrow> s
         | (True, s) \<Rightarrow>
             let s = (resetForHandshake c s)\<lparr>seState := StateSrvReady\<rparr>
             in sendOn c e (Some (inLeg i)) (mkFrame TypeHandshake HSServerAck 0 []) s)"

definition onRTTSync :: "Config \<Rightarrow> env \<Rightarrow> inbound \<Rightarrow> Session \<Rightarrow> Session" where
  "onRTTSync c e i s =
     (case ParseRTTBody (frBody (inFrame i)) of
        Inl err \<Rightarrow> s
      | Inr r \<Rightarrow> sendOn c e (Some (inLeg i))
                  (mkFrame TypeHandshake HSRTTSyncAck 0 (rttAppendTo (Reply r (inAt i)) [])) s)"

definition onRTTAck :: "inbound \<Rightarrow> Session \<Rightarrow> Session" where
  "onRTTAck i s =
     (case ParseRTTBody (frBody (inFrame i)) of
        Inl err \<Rightarrow> s
      | Inr r \<Rightarrow>
          if rbServerMS r = 0 then s
          else let rtt = timeSub (inAt i) (timeUnixMilli (sint (rbServerMS r)))
               in if rtt > 0 \<and> rtt < 10 * Second
                  then setLeg (inLeg i) (observeRTT (seHeap s (inLeg i)) rtt) s else s)"

definition noteTunnelID :: "inbound \<Rightarrow> Session \<Rightarrow> Session" where
  "noteTunnelID i s =
     (let leg = seHeap s (inLeg i) in
      if lgTunnelID leg \<ge> 0 then s
      else case TunnelIDFromFakePing (frBody (inFrame i)) of
          None \<Rightarrow> s
        | Some n \<Rightarrow> setLeg (inLeg i) (leg\<lparr>lgTunnelID := n\<rparr>) s)"

definition unknownFrame :: "Session \<Rightarrow> Session" where
  "unknownFrame s = modStats (\<lambda>x. x\<lparr>sxUnknownFrames := sxUnknownFrames x + 1\<rparr>) s"

definition handleHandshake :: "Config \<Rightarrow> env \<Rightarrow> inbound \<Rightarrow> Session \<Rightarrow> Session" where
  "handleHandshake c e i s =
     (let opc = frOpcode (inFrame i) in
      if opc = HSReqWithConfig then onHandshakeReq c e i s
      else if opc = HSConfirmAck then noteTunnelID i (s\<lparr>seState := StateBothOK\<rparr>)
      else if opc = HSKeepalive then
        sendOn c e (Some (inLeg i)) (mkFrame TypeAck AckTunnelDetect 0 []) (noteTunnelID i s)
      else if opc = HSRTTSync then onRTTSync c e i s
      else if opc = HSRTTAck then onRTTAck i s
      else if opc = HSServerAck then s
      else unknownFrame s)"

section \<open>Acknowledgements and retransmission\<close>

text \<open>
  The two stashes behind one pointer: \<open>serveRetransmit\<close> and \<open>resendOne\<close> take a \<open>*stash\<close>.
\<close>

datatype space = TCPSpace | UDPSpace

fun seStash :: "space \<Rightarrow> Session \<Rightarrow> byte list stash" where
  "seStash TCPSpace s = seStashTCP s"
| "seStash UDPSpace s = seStashUDP s"

fun setStash :: "space \<Rightarrow> byte list stash \<Rightarrow> Session \<Rightarrow> Session" where
  "setStash TCPSpace x s = s\<lparr>seStashTCP := x\<rparr>"
| "setStash UDPSpace x s = s\<lparr>seStashUDP := x\<rparr>"

definition resendOne :: "env \<Rightarrow> nat \<Rightarrow> space \<Rightarrow> u32 \<Rightarrow> Session \<Rightarrow> Session" where
  "resendOne e l sp seq s =
     (case get seq (seStash sp s) of
        (None, st) \<Rightarrow> setStash sp st s
      | (Some frame, st) \<Rightarrow>
          writeRaw e l frame
            (modStats (\<lambda>x. x\<lparr>sxRetransmitsServed := sxRetransmitsServed x + 1\<rparr>) (setStash sp st s)))"

definition serveRetransmit :: "env \<Rightarrow> nat \<Rightarrow> space \<Rightarrow> byte list \<Rightarrow> Session \<Rightarrow> Session" where
  "serveRetransmit e l sp body s =
     (case ParseSeqList body of
        Inl err \<Rightarrow> s
      | Inr seqs \<Rightarrow> fold (resendOne e l sp) seqs s)"

definition handleAck :: "env \<Rightarrow> inbound \<Rightarrow> Session \<Rightarrow> Session" where
  "handleAck e i s =
     (let f = inFrame i; opc = frOpcode f in
      if opc = AckTCPCumulative then s\<lparr>seStashTCP := ackUpTo (frSeq f) (seStashTCP s)\<rparr>
      else if opc = AckUDPCumulative then s\<lparr>seStashUDP := ackUpTo (frSeq f) (seStashUDP s)\<rparr>
      else if opc = AckTCPRetranRange then serveRetransmit e (inLeg i) TCPSpace (frBody f) s
      else if opc = AckUDPRetranRange then serveRetransmit e (inLeg i) UDPSpace (frBody f) s
      else if opc = AckTCPRetranOne then resendOne e (inLeg i) TCPSpace (frSeq f) s
      else if opc = AckUDPRetranOne then resendOne e (inLeg i) UDPSpace (frSeq f) s
      else if opc = AckTunnelDetect then s
      else if opc \<in> {AckReportConfig, AckReportPriority, AckReportStatus, AckReportSpeed} then s
      else unknownFrame s)"

section \<open>Sequence resynchronisation\<close>

definition ackOrZero :: "'a Reorder \<Rightarrow> u32" where
  "ackOrZero r = (case Ack r of None \<Rightarrow> 0 | Some q \<Rightarrow> q)"

definition handleSeqSync :: "Config \<Rightarrow> env \<Rightarrow> inbound \<Rightarrow> Session \<Rightarrow> Session" where
  "handleSeqSync c e i s =
     (let opc = frOpcode (inFrame i) in
      if opc = SyncTCPRequest then
        sendOn c e (Some (inLeg i)) (mkFrame TypeSeqSync SyncTCPAck (ackOrZero (seUpTCP s)) []) s
      else if opc = SyncUDPRequest then
        sendOn c e (Some (inLeg i)) (mkFrame TypeSeqSync SyncUDPAck (ackOrZero (seUpUDP s)) []) s
      else s)"

section \<open>Frame ingest\<close>

definition handleFrame :: "Config \<Rightarrow> env \<Rightarrow> inbound \<Rightarrow> Session \<Rightarrow> Session outcome" where
  "handleFrame c e i s =
     (let f = inFrame i;
          s = modStats (\<lambda>x. x\<lparr>sxFramesIn := sxFramesIn x + 1\<rparr>) s;
          s = setLeg (inLeg i) ((seHeap s (inLeg i))\<lparr>lgLastRx := inAt i\<rparr>) s
      in if frType f = TypeHandshake then Ret (handleHandshake c e i s)
         else if frType f = TypeTCPUp then Ret (handleTCPUp c e i s)
         else if frType f = TypeUDP then handleUDPUp c e i s
         else if frType f = TypeICMP then Ret (modStats (\<lambda>x. x\<lparr>sxICMPDropped := sxICMPDropped x + 1\<rparr>) s)
         else if frType f = TypeAck then Ret (handleAck e i s)
         else if frType f = TypeSeqSync then Ret (handleSeqSync c e i s)
         else Ret (unknownFrame s))"

section \<open>Periodic work\<close>

definition requestRetransmit :: "Config \<Rightarrow> env \<Rightarrow> u8 \<Rightarrow> u32 list \<Rightarrow> Session \<Rightarrow> Session" where
  "requestRetransmit c e opc seqs s =
     (let kind = (if opc = AckUDPRetranRange then ''udp'' else ''tcp'')
      in sendOn c e (sessionPickLeg kind s) (mkFrame TypeAck opc (hd seqs) (AppendSeqList [] seqs)) s)"

text \<open>The first two statements of \<open>tick\<close>, one per sequence space.\<close>

definition bumpRequested :: "u32 list \<Rightarrow> Session \<Rightarrow> Session" where
  "bumpRequested seqs s = modStats (\<lambda>x. x\<lparr>sxRetransmitsRequested := sxRetransmitsRequested x + of_nat (length seqs)\<rparr>) s"

definition tickMissingTCP :: "Config \<Rightarrow> env \<Rightarrow> instant \<Rightarrow> Session \<Rightarrow> Session" where
  "tickMissingTCP c e now s =
     (case Missing (seUpTCP s) now (int SeqListMax) of
        (r, missing) \<Rightarrow>
          let s = s\<lparr>seUpTCP := r\<rparr>
          in if missing = [] then s
             else requestRetransmit c e AckTCPRetranRange missing (bumpRequested missing s))"

definition tickMissingUDP :: "Config \<Rightarrow> env \<Rightarrow> instant \<Rightarrow> Session \<Rightarrow> Session" where
  "tickMissingUDP c e now s =
     (case Missing (seUpUDP s) now (int SeqListMax) of
        (r, missing) \<Rightarrow>
          let s = s\<lparr>seUpUDP := r\<rparr>
          in if missing = [] then s
             else requestRetransmit c e AckUDPRetranRange missing (bumpRequested missing s))"

definition tickExpireTCP :: "Config \<Rightarrow> env \<Rightarrow> instant \<Rightarrow> Session \<Rightarrow> Session" where
  "tickExpireTCP c e now s =
     (case Expire (seUpTCP s) now (enNow e (seCalls s)) of
        (r, ready) \<Rightarrow> fold (deliverTCP c e) ready (asked (s\<lparr>seUpTCP := r\<rparr>)))"

definition tickExpireUDP :: "Config \<Rightarrow> env \<Rightarrow> instant \<Rightarrow> Session \<Rightarrow> Session outcome" where
  "tickExpireUDP c e now s =
     (case Expire (seUpUDP s) now (enNow e (seCalls s)) of
        (r, ready) \<Rightarrow> fold_outcome (deliverUDP c e) ready (asked (s\<lparr>seUpUDP := r\<rparr>)))"

definition tickAcks :: "Config \<Rightarrow> env \<Rightarrow> instant \<Rightarrow> Session \<Rightarrow> Session" where
  "tickAcks c e now s =
     (let s = (if timeSub now (seLastTCPAck s) \<ge> cfAckInterval c then
                 case Ack (seUpTCP s) of
                   None \<Rightarrow> s
                 | Some q \<Rightarrow> let s = s\<lparr>seLastTCPAck := now\<rparr>
                            in sendOn c e (sessionPickLeg ''tcp'' s) (mkFrame TypeAck AckTCPCumulative q []) s
               else s)
      in if timeSub now (seLastUDPAck s) \<ge> cfAckInterval c then
           case Ack (seUpUDP s) of
             None \<Rightarrow> s
           | Some q \<Rightarrow> let s = s\<lparr>seLastUDPAck := now\<rparr>
                      in sendOn c e (sessionPickLeg ''udp'' s) (mkFrame TypeAck AckUDPCumulative q []) s
         else s)"

definition tickReports :: "Config \<Rightarrow> instant \<Rightarrow> Session \<Rightarrow> Session" where
  "tickReports c now s =
     (let s = (if cfStatsInterval c > 0 \<and> timeSub now (seLastStats s) \<ge> cfStatsInterval c
               then s\<lparr>seLastStats := now\<rparr> else s)
      in if timeSub now (seLastPublish s) \<ge> 500 * Millisecond
         then emit (Published now) (s\<lparr>seLastPublish := now\<rparr>) else s)"

definition tickKeepalive :: "Config \<Rightarrow> env \<Rightarrow> instant \<Rightarrow> Session \<Rightarrow> Session" where
  "tickKeepalive c e now s =
     (if timeSub now (seLastKeepalive s) \<ge> cfKeepaliveInterval c
      then fold (\<lambda>(k, l). sendOn c e (Some l) (mkFrame TypeAck AckTunnelDetect 0 [])) (seLegs s)
             (s\<lparr>seLastKeepalive := now\<rparr>)
      else s)"

definition reapFlow :: "Config \<Rightarrow> instant \<Rightarrow> udpKey \<times> udpFlow \<Rightarrow> Session \<Rightarrow> Session" where
  "reapFlow c now kf s =
     (case kf of (k, f) \<Rightarrow>
        if timeSub now (ufLastUse f) > cfUDPFlowIdle c
        then (udpClose f s)\<lparr>seUdpFlows := AList.delete k (seUdpFlows s)\<rparr> else s)"

definition reapFlows :: "Config \<Rightarrow> instant \<Rightarrow> Session \<Rightarrow> Session" where
  "reapFlows c now s = fold (reapFlow c now) (seUdpFlows s) s"

definition tick :: "Config \<Rightarrow> env \<Rightarrow> instant \<Rightarrow> Session \<Rightarrow> Session outcome" where
  "tick c e now s =
     bind_outcome (tickExpireUDP c e now (tickExpireTCP c e now (tickMissingUDP c e now (tickMissingTCP c e now s))))
       (\<lambda>s. Ret (reapFlows c now (tickKeepalive c e now (tickReports c now (tickAcks c e now s)))))"

section \<open>The event loop\<close>

text \<open>
  One turn of \<open>run\<close>: a message from the legs, a chunk from an upstream socket, a tick. A leg
  may also be closed by its transport at any moment (\<open>Leg.Close\<close>).
\<close>

datatype event =
    EvFrame inbound
  | EvAddLeg nat
  | EvDropLeg legKey
  | EvUpstream upstreamData
  | EvTick instant
  | EvClose nat

fun sessionStep :: "Config \<Rightarrow> env \<Rightarrow> event \<Rightarrow> Session \<Rightarrow> Session outcome" where
  "sessionStep c e (EvFrame i) s = handleFrame c e i s"
| "sessionStep c e (EvAddLeg l) s = Ret (s\<lparr>seLegs := AList.update (lgKey (seHeap s l)) l (seLegs s)\<rparr>)"
| "sessionStep c e (EvDropLeg k) s = Ret (s\<lparr>seLegs := AList.delete k (seLegs s)\<rparr>)"
| "sessionStep c e (EvUpstream u) s = Ret (handleUpstream c e u s)"
| "sessionStep c e (EvTick now) s = tick c e now s"
| "sessionStep c e (EvClose l) s = Ret (setLeg l (legClose (seHeap s l)) s)"

definition run :: "Config \<Rightarrow> env \<Rightarrow> event list \<Rightarrow> Session \<Rightarrow> Session outcome" where
  "run c e = fold_outcome (sessionStep c e)"

definition shutdown :: "Session \<Rightarrow> Session" where
  "shutdown s = closeUdpFlows (closeFlows s)"

end
