(* ===== verification/Session_Invariant.thy ===== *)
theory Session_Invariant
  imports Session_Loop Reorder_Spec
begin

text \<open>
  What every event leaves true of a session: each byte string it puts on a leg is one
  server-to-client frame with the session's magic and identity, the stashes hold the very
  frames their numbers name, both reassemblers and both stashes are within their bounds,
  and no flow table exceeds its limit.
\<close>

section \<open>The invariant\<close>

text \<open>What the client accepts: type and opcode of the frames a concentrator sends.\<close>

definition serverKinds :: "(u8 \<times> u8) set" where
  "serverKinds = {(TypeUDP, 0), (TypeTCPDown, 0), (TypeHandshake, HSServerAck), (TypeHandshake, HSRTTSyncAck),
     (TypeAck, AckTCPRetranRange), (TypeAck, AckUDPRetranRange), (TypeAck, AckTCPCumulative),
     (TypeAck, AckUDPCumulative), (TypeAck, AckTunnelDetect), (TypeSeqSync, SyncTCPAck), (TypeSeqSync, SyncUDPAck)}"

definition wire_frame :: "Config \<Rightarrow> u32 \<Rightarrow> byte list \<Rightarrow> bool" where
  "wire_frame c tun b \<longleftrightarrow> (\<exists>f. b = Encode f \<and> frMagic f = cfMagic c \<and> frIcgID f = tun
     \<and> (frType f, frOpcode f) \<in> serverKinds)"

text \<open>The legs a session may write on are a set \<open>L\<close>: those bound to it.\<close>

fun wire_ok :: "nat set \<Rightarrow> Config \<Rightarrow> u32 \<Rightarrow> effect \<Rightarrow> bool" where
  "wire_ok L c tun (LegWrite l b) \<longleftrightarrow> l \<in> L \<and> wire_frame c tun b"
| "wire_ok L c tun _ \<longleftrightarrow> True"

text \<open>The frame that carries downlink number \<open>q\<close>.\<close>

definition tcp_down :: "Config \<Rightarrow> u32 \<Rightarrow> u32 \<Rightarrow> byte list \<Rightarrow> bool" where
  "tcp_down c tun q b \<longleftrightarrow> (\<exists>flow opc data. length data \<le> maxChunk \<and> b = Encode \<lparr>frMagic = cfMagic c, frIcgID = tun, frType = TypeTCPDown,
     frOpcode = 0, frSeq = 0, frBody = tcpAppendTo (DownBody flow q opc data) []\<rparr>)"

definition udp_down :: "Config \<Rightarrow> u32 \<Rightarrow> u32 \<Rightarrow> byte list \<Rightarrow> bool" where
  "udp_down c tun q b \<longleftrightarrow> (\<exists>pkt. b = Encode \<lparr>frMagic = cfMagic c, frIcgID = tun, frType = TypeUDP,
     frOpcode = 0, frSeq = q, frBody = pkt\<rparr>)"

definition stash_holds :: "(u32 \<Rightarrow> byte list \<Rightarrow> bool) \<Rightarrow> byte list stash \<Rightarrow> bool" where
  "stash_holds P st \<longleftrightarrow> st_ok st \<and> (\<forall>q b. lookup st q = Some b \<longrightarrow> P q b)"

definition tables_ok :: "Config \<Rightarrow> Session \<Rightarrow> bool" where
  "tables_ok c s \<longleftrightarrow> distinct (map fst (seFlows s)) \<and> distinct (map fst (seUdpFlows s))
     \<and> int (length (seFlows s)) \<le> max 0 (cfMaxFlowsPerSession c)
     \<and> int (length (seUdpFlows s)) \<le> max 0 (cfMaxFlowsPerSession c)"

definition sess_ok :: "nat set \<Rightarrow> Config \<Rightarrow> u32 \<Rightarrow> Session \<Rightarrow> bool" where
  "sess_ok L c tun s \<longleftrightarrow> seTunIP s = tun \<and> snd ` set (seLegs s) \<subseteq> L \<and> list_all (wire_ok L c tun) (seOut s)
     \<and> stash_holds (tcp_down c tun) (seStashTCP s) \<and> stash_holds (udp_down c tun) (seStashUDP s)
     \<and> r_inv (seUpTCP s) \<and> r_inv (seUpUDP s) \<and> tables_ok c s"

section \<open>Updates that cannot break it\<close>

lemma sess_ok_frame [simp]:
  "sess_ok L c tun (asked s) = sess_ok L c tun s"
  "sess_ok L c tun (setLeg l x s) = sess_ok L c tun s"
  "sess_ok L c tun (modStats g s) = sess_ok L c tun s"
  "sess_ok L c tun (bumpOut s) = sess_ok L c tun s"
  "sess_ok L c tun (unknownFrame s) = sess_ok L c tun s"
  "sess_ok L c tun (bumpRequested qs s) = sess_ok L c tun s"
  "sess_ok L c tun (s\<lparr>seDownTCPSeq := q\<rparr>) = sess_ok L c tun s"
  "sess_ok L c tun (s\<lparr>seDownUDPSeq := q\<rparr>) = sess_ok L c tun s"
  "sess_ok L c tun (s\<lparr>seState := st\<rparr>) = sess_ok L c tun s"
  "sess_ok L c tun (s\<lparr>seAdmitted := b\<rparr>) = sess_ok L c tun s"
  "sess_ok L c tun (s\<lparr>seClientMAC := m, seClientTunIP := ip\<rparr>) = sess_ok L c tun s"

  "sess_ok L c tun (s\<lparr>seLastTCPAck := t\<rparr>) = sess_ok L c tun s"
  "sess_ok L c tun (s\<lparr>seLastUDPAck := t\<rparr>) = sess_ok L c tun s"
  "sess_ok L c tun (s\<lparr>seLastStats := t\<rparr>) = sess_ok L c tun s"
  "sess_ok L c tun (s\<lparr>seLastPublish := t\<rparr>) = sess_ok L c tun s"
  "sess_ok L c tun (s\<lparr>seLastKeepalive := t\<rparr>) = sess_ok L c tun s"
  by (simp_all add: sess_ok_def tables_ok_def asked_def setLeg_def modStats_def bumpOut_def unknownFrame_def bumpRequested_def)

lemma emit_ok [simp]: "sess_ok L c tun (emit x s) \<longleftrightarrow> wire_ok L c tun x \<and> sess_ok L c tun s"
  by (auto simp: sess_ok_def tables_ok_def emit_def)

lemma sess_ok_parts:
  "sess_ok L c tun s \<Longrightarrow> seTunIP s = tun" "sess_ok L c tun s \<Longrightarrow> r_inv (seUpTCP s)"
  "sess_ok L c tun s \<Longrightarrow> r_inv (seUpUDP s)" "sess_ok L c tun s \<Longrightarrow> tables_ok c s"
  "sess_ok L c tun s \<Longrightarrow> stash_holds (tcp_down c tun) (seStashTCP s)"
  "sess_ok L c tun s \<Longrightarrow> stash_holds (udp_down c tun) (seStashUDP s)"
  "sess_ok L c tun s \<Longrightarrow> snd ` set (seLegs s) \<subseteq> L"
  by (simp_all add: sess_ok_def)

lemma sess_ok_legs:
  "sess_ok L c tun s \<Longrightarrow> l \<in> L \<Longrightarrow> sess_ok L c tun (s\<lparr>seLegs := AList.update k l (seLegs s)\<rparr>)"
  "sess_ok L c tun s \<Longrightarrow> sess_ok L c tun (s\<lparr>seLegs := AList.delete k (seLegs s)\<rparr>)"
proof -
  have "snd ` set (AList.update k l m) \<subseteq> insert l (snd ` set m)" for m by (induction m) auto
  then show "sess_ok L c tun s \<Longrightarrow> l \<in> L \<Longrightarrow> sess_ok L c tun (s\<lparr>seLegs := AList.update k l (seLegs s)\<rparr>)"
    by (fastforce simp: sess_ok_def tables_ok_def)
  show "sess_ok L c tun s \<Longrightarrow> sess_ok L c tun (s\<lparr>seLegs := AList.delete k (seLegs s)\<rparr>)"
    by (auto simp: sess_ok_def tables_ok_def AList.delete_eq)
qed

lemma pick_in:
  assumes "sess_ok L c tun s" and "sessionPickLeg kind s = Some l" shows "l \<in> L"
proof -
  have "l \<in> snd ` set (seLegs s)"
    using assms(2) by (auto simp: sessionPickLeg_def pickLeg_def split: option.splits if_splits dest!: pickLoop_best)
  then show ?thesis using sess_ok_parts(7) [OF assms(1)] by blast
qed

lemma sess_ok_update:
  "sess_ok L c tun s \<Longrightarrow> r_inv r \<Longrightarrow> sess_ok L c tun (s\<lparr>seUpTCP := r\<rparr>)"
  "sess_ok L c tun s \<Longrightarrow> r_inv r' \<Longrightarrow> sess_ok L c tun (s\<lparr>seUpUDP := r'\<rparr>)"
  "sess_ok L c tun s \<Longrightarrow> stash_holds (tcp_down c tun) st \<Longrightarrow> sess_ok L c tun (s\<lparr>seStashTCP := st\<rparr>)"
  "sess_ok L c tun s \<Longrightarrow> stash_holds (udp_down c tun) st \<Longrightarrow> sess_ok L c tun (s\<lparr>seStashUDP := st\<rparr>)"
  by (simp_all add: sess_ok_def tables_ok_def)

lemma fold_ok: "(\<And>x s. x \<in> set xs \<Longrightarrow> P s \<Longrightarrow> P (g x s)) \<Longrightarrow> P s \<Longrightarrow> P (fold g xs s)"
  by (induction xs arbitrary: s) simp_all

lemma fold_outcome_ok:
  "(\<And>x s s'. P s \<Longrightarrow> g x s = Ret s' \<Longrightarrow> P s') \<Longrightarrow> P s \<Longrightarrow> fold_outcome g xs s = Ret s' \<Longrightarrow> P s'"
  by (induction xs arbitrary: s) (auto simp: bind_outcome_Ret_iff)

section \<open>The stash inside\<close>

lemma stash_holds_put: "stash_holds P st \<Longrightarrow> P q b \<Longrightarrow> stash_holds P (put q b st)"
  by (auto simp: stash_holds_def put_ok put_lookup split: if_splits)

lemma stash_holds_ack: "stash_holds P st \<Longrightarrow> stash_holds P (ackUpTo q st)"
  by (auto simp: stash_holds_def ack_ok kept_frames.lookup_release split: if_splits)

lemma stash_holds_new: "stash_holds P (newStash limit)"
  by (simp add: stash_holds_def st_ok_new lookup_def) (simp add: newStash_def)

lemma stash_holds_get:
  "stash_holds P st \<Longrightarrow> get q st = (f, st') \<Longrightarrow> stash_holds P st' \<and> (\<forall>b. f = Some b \<longrightarrow> P q b)"
proof -
  assume st: "stash_holds P st" and g: "get q st = (f, st')"
  have f: "f = lookup st q" using get_lookup [of q st] g by simp
  have same: "stM st' = stM st" "stOrder st' = stOrder st" "stLimit st' = stLimit st"
    using g by (auto simp: get_def split: option.splits)
  then have "stash_holds P st' = stash_holds P st" by (simp only: stash_holds_def st_ok_def lookup_def)
  with st f show ?thesis by (simp add: stash_holds_def)
qed

section \<open>Writes\<close>

lemma writeRaw_ok: "sess_ok L c tun s \<Longrightarrow> l \<in> L \<Longrightarrow> wire_frame c tun b \<Longrightarrow> sess_ok L c tun (writeRaw e l b s)"
  by (simp add: writeRaw_def Let_def)

lemma writeMaybe_ok: "sess_ok L c tun s \<Longrightarrow> set_option l \<subseteq> L \<Longrightarrow> wire_frame c tun b \<Longrightarrow> sess_ok L c tun (writeMaybe e l b s)"
  by (cases l) (simp_all add: writeMaybe_def writeRaw_ok)

lemma stamp_wire:
  "seTunIP s = tun \<Longrightarrow> (frType f, frOpcode f) \<in> serverKinds \<Longrightarrow> wire_frame c tun (Encode (stamp c s f))"
  unfolding wire_frame_def by (rule exI [of _ "stamp c s f"]) (simp add: stamp_def)

lemma sendOn_ok:
  "sess_ok L c tun s \<Longrightarrow> set_option l \<subseteq> L \<Longrightarrow> (frType f, frOpcode f) \<in> serverKinds \<Longrightarrow> sess_ok L c tun (sendOn c e l f s)"
  using sess_ok_parts(1) [of L c tun s]
  by (cases l) (simp_all add: sendOn_def writeRaw_ok stamp_wire)

lemma pick_ok:
  "sess_ok L c tun s \<Longrightarrow> wire_frame c tun b \<Longrightarrow> sess_ok L c tun (writeMaybe e (sessionPickLeg kind s) b s)"
  "sess_ok L c tun s \<Longrightarrow> (frType f, frOpcode f) \<in> serverKinds \<Longrightarrow> sess_ok L c tun (sendOn c e (sessionPickLeg kind s) f s)"
  using pick_in [of L c tun s kind] by (auto intro!: writeMaybe_ok sendOn_ok)

lemma mkFrame_fields [simp]:
  "frType (mkFrame ty opc q b) = ty" "frOpcode (mkFrame ty opc q b) = opc"
  "frSeq (mkFrame ty opc q b) = q" "frBody (mkFrame ty opc q b) = b"
  by (simp_all add: mkFrame_def)

lemma serverKinds_in [simp]:
  "(TypeUDP, 0) \<in> serverKinds" "(TypeTCPDown, 0) \<in> serverKinds"
  "(TypeHandshake, HSServerAck) \<in> serverKinds" "(TypeHandshake, HSRTTSyncAck) \<in> serverKinds"
  "(TypeAck, AckTCPRetranRange) \<in> serverKinds" "(TypeAck, AckUDPRetranRange) \<in> serverKinds"
  "(TypeAck, AckTCPCumulative) \<in> serverKinds" "(TypeAck, AckUDPCumulative) \<in> serverKinds"
  "(TypeAck, AckTunnelDetect) \<in> serverKinds" "(TypeSeqSync, SyncTCPAck) \<in> serverKinds"
  "(TypeSeqSync, SyncUDPAck) \<in> serverKinds"
  by (simp_all only: serverKinds_def insert_iff simp_thms)

lemma serverKinds_values [simp]:
  "(0, 0) \<in> serverKinds" "(2, 0) \<in> serverKinds" "(3, 3) \<in> serverKinds" "(3, 6) \<in> serverKinds"
  "(4, 3) \<in> serverKinds" "(4, 2) \<in> serverKinds" "(4, 5) \<in> serverKinds" "(4, 9) \<in> serverKinds"
  "(4, 15) \<in> serverKinds" "(7, 7) \<in> serverKinds" "(7, 11) \<in> serverKinds"
  by (simp_all add: serverKinds_def)

lemma wire_frameI:
  "(frType f, frOpcode f) \<in> serverKinds \<Longrightarrow> frMagic f = cfMagic c \<Longrightarrow> frIcgID f = tun \<Longrightarrow> wire_frame c tun (Encode f)"
  unfolding wire_frame_def by blast

lemma tcp_down_wire: "tcp_down c tun q b \<Longrightarrow> wire_frame c tun b"
  unfolding tcp_down_def by (elim exE conjE, hypsubst, rule wire_frameI)
    (simp_all only: Frame.select_convs serverKinds_in)

lemma udp_down_wire: "udp_down c tun q b \<Longrightarrow> wire_frame c tun b"
  unfolding udp_down_def by (elim exE, hypsubst, rule wire_frameI)
    (simp_all only: Frame.select_convs serverKinds_in)

lemma tcp_down_stamp:
  "seTunIP s = tun \<Longrightarrow> length data \<le> maxChunk \<Longrightarrow> tcp_down c tun q (Encode (stamp c s (mkFrame TypeTCPDown 0 0 (tcpAppendTo (DownBody flow q opc data) []))))"
  unfolding tcp_down_def by (intro exI [of _ flow] exI [of _ opc] exI [of _ data]) (simp add: stamp_def mkFrame_def)

lemma udp_down_stamp:
  "seTunIP s = tun \<Longrightarrow> udp_down c tun q (Encode (stamp c s (mkFrame TypeUDP 0 q pkt)))"
  unfolding udp_down_def by (intro exI [of _ pkt]) (simp add: stamp_def mkFrame_def)

lemma sendTCPDown_ok:
  assumes "sess_ok L c tun s" and small: "length data \<le> maxChunk"
  shows "sess_ok L c tun (sendTCPDown c e flow opc data s)"
proof -
  let ?s = "s\<lparr>seDownTCPSeq := seDownTCPSeq s + 1\<rparr>"
  let ?enc = "Encode (stamp c ?s (mkFrame TypeTCPDown 0 0 (tcpAppendTo (DownBody flow (seDownTCPSeq s) opc data) [])))"
  have d: "tcp_down c tun (seDownTCPSeq s) ?enc" using sess_ok_parts(1) [OF assms(1)] small by (intro tcp_down_stamp) simp_all
  then have "stash_holds (tcp_down c tun) (put (seDownTCPSeq s) ?enc (seStashTCP s))"
    using sess_ok_parts(5) [OF assms(1)] by (intro stash_holds_put)
  then show ?thesis
    using assms(1) tcp_down_wire [OF d]
    by (simp add: sendTCPDown_def Let_def pick_ok(1) sess_ok_update)
qed

lemma sendUDPDown_ok:
  assumes "sess_ok L c tun s"
  shows "sess_ok L c tun (sendUDPDown c e pkt s)"
proof -
  let ?s = "s\<lparr>seDownUDPSeq := seDownUDPSeq s + 1\<rparr>"
  let ?enc = "Encode (stamp c ?s (mkFrame TypeUDP 0 (seDownUDPSeq s) pkt))"
  have d: "udp_down c tun (seDownUDPSeq s) ?enc" using sess_ok_parts(1) [OF assms] by (intro udp_down_stamp) simp
  then have "stash_holds (udp_down c tun) (put (seDownUDPSeq s) ?enc (seStashUDP s))"
    using sess_ok_parts(6) [OF assms] by (intro stash_holds_put)
  then show ?thesis
    using assms udp_down_wire [OF d]
    by (simp add: sendUDPDown_def Let_def pick_ok(1) sess_ok_update)
qed

section \<open>Flow tables\<close>

lemma tables_ok_flows:
  "tables_ok c s \<Longrightarrow> map_of (seFlows s) k = None \<Longrightarrow> int (length (seFlows s)) < cfMaxFlowsPerSession c \<Longrightarrow>
     tables_ok c (s\<lparr>seFresh := n, seFlows := AList.update k f (seFlows s)\<rparr>)"
  "tables_ok c s \<Longrightarrow> tables_ok c (s\<lparr>seFlows := AList.delete k (seFlows s)\<rparr>)"
  "tables_ok c s \<Longrightarrow> tables_ok c (s\<lparr>seFlows := []\<rparr>)"
  using length_update_le [of k f "seFlows s"] length_delete_le [of k "seFlows s"]
  by (simp_all add: tables_ok_def)

lemma tables_ok_udp:
  "tables_ok c s \<Longrightarrow> int (length (seUdpFlows s)) < cfMaxFlowsPerSession c \<or> map_of (seUdpFlows s) k \<noteq> None \<Longrightarrow>
     tables_ok c (s\<lparr>seUdpFlows := AList.update k f (seUdpFlows s)\<rparr>)"
  "tables_ok c s \<Longrightarrow> tables_ok c (s\<lparr>seUdpFlows := AList.delete k (seUdpFlows s)\<rparr>)"
  "tables_ok c s \<Longrightarrow> tables_ok c (s\<lparr>seUdpFlows := []\<rparr>)"
proof -
  show "tables_ok c (s\<lparr>seUdpFlows := AList.update k f (seUdpFlows s)\<rparr>)"
    if "tables_ok c s" "int (length (seUdpFlows s)) < cfMaxFlowsPerSession c \<or> map_of (seUdpFlows s) k \<noteq> None"
  proof (cases "map_of (seUdpFlows s) k")
    case None
    with that length_update_le [of k f "seUdpFlows s"] show ?thesis by (simp add: tables_ok_def)
  next
    case (Some g)
    then have "k \<in> fst ` set (seUdpFlows s)" by (metis lookup_None_iff option.distinct(1))
    with that length_update_old [of k "seUdpFlows s" f] show ?thesis by (simp add: tables_ok_def)
  qed
qed (use length_delete_le [of k "seUdpFlows s"] in \<open>simp_all add: tables_ok_def\<close>)

lemma sess_ok_tables:
  "sess_ok L c tun s \<Longrightarrow> tables_ok c (s\<lparr>seFresh := n, seFlows := fl\<rparr>) \<Longrightarrow> sess_ok L c tun (s\<lparr>seFresh := n, seFlows := fl\<rparr>)"
  "sess_ok L c tun s \<Longrightarrow> tables_ok c (s\<lparr>seFlows := fl\<rparr>) \<Longrightarrow> sess_ok L c tun (s\<lparr>seFlows := fl\<rparr>)"
  "sess_ok L c tun s \<Longrightarrow> tables_ok c (s\<lparr>seUdpFlows := ul\<rparr>) \<Longrightarrow> sess_ok L c tun (s\<lparr>seUdpFlows := ul\<rparr>)"
  by (simp_all add: sess_ok_def)

lemma emit_fields [simp]:
  "seFlows (emit x s) = seFlows s" "seUdpFlows (emit x s) = seUdpFlows s" "seHeap (emit x s) = seHeap s"
  "seLegs (emit x s) = seLegs s" "seOut (emit x s) = seOut s @ [x]" "seCalls (emit x s) = seCalls s"
  "seTunIP (emit x s) = seTunIP s" "seUpTCP (emit x s) = seUpTCP s" "seUpUDP (emit x s) = seUpUDP s"
  "seState (emit x s) = seState s" "seFresh (emit x s) = seFresh s"
  "seDownTCPSeq (emit x s) = seDownTCPSeq s" "seDownUDPSeq (emit x s) = seDownUDPSeq s"
  "seStashTCP (emit x s) = seStashTCP s" "seStashUDP (emit x s) = seStashUDP s" "seAdmitted (emit x s) = seAdmitted s"
  by (simp_all add: emit_def)

lemma asked_fields [simp]:
  "seFlows (asked s) = seFlows s" "seUdpFlows (asked s) = seUdpFlows s" "seHeap (asked s) = seHeap s"
  "seLegs (asked s) = seLegs s" "seOut (asked s) = seOut s" "seCalls (asked s) = seCalls s + 1"
  "seTunIP (asked s) = seTunIP s" "seUpTCP (asked s) = seUpTCP s" "seUpUDP (asked s) = seUpUDP s"
  "seState (asked s) = seState s" "seFresh (asked s) = seFresh s"
  "seDownTCPSeq (asked s) = seDownTCPSeq s" "seDownUDPSeq (asked s) = seDownUDPSeq s"
  "seStashTCP (asked s) = seStashTCP s" "seStashUDP (asked s) = seStashUDP s" "seAdmitted (asked s) = seAdmitted s"
  by (simp_all add: asked_def)

lemma modStats_fields [simp]:
  "seFlows (modStats g s) = seFlows s" "seUdpFlows (modStats g s) = seUdpFlows s" "seHeap (modStats g s) = seHeap s"
  "seLegs (modStats g s) = seLegs s" "seOut (modStats g s) = seOut s" "seCalls (modStats g s) = seCalls s"
  "seTunIP (modStats g s) = seTunIP s" "seUpTCP (modStats g s) = seUpTCP s" "seUpUDP (modStats g s) = seUpUDP s"
  "seState (modStats g s) = seState s" "seFresh (modStats g s) = seFresh s"
  "seDownTCPSeq (modStats g s) = seDownTCPSeq s" "seDownUDPSeq (modStats g s) = seDownUDPSeq s"
  "seStashTCP (modStats g s) = seStashTCP s" "seStashUDP (modStats g s) = seStashUDP s"
  "seAdmitted (modStats g s) = seAdmitted s" "seStats (modStats g s) = g (seStats s)"
  by (simp_all add: modStats_def)

lemma setLeg_fields [simp]:
  "seFlows (setLeg l x s) = seFlows s" "seUdpFlows (setLeg l x s) = seUdpFlows s" "seHeap (setLeg l x s) = (seHeap s)(l := x)"
  "seLegs (setLeg l x s) = seLegs s" "seOut (setLeg l x s) = seOut s" "seCalls (setLeg l x s) = seCalls s"
  "seTunIP (setLeg l x s) = seTunIP s" "seUpTCP (setLeg l x s) = seUpTCP s" "seUpUDP (setLeg l x s) = seUpUDP s"
  "seState (setLeg l x s) = seState s" "seFresh (setLeg l x s) = seFresh s"
  "seDownTCPSeq (setLeg l x s) = seDownTCPSeq s" "seDownUDPSeq (setLeg l x s) = seDownUDPSeq s"
  "seStashTCP (setLeg l x s) = seStashTCP s" "seStashUDP (setLeg l x s) = seStashUDP s" "seAdmitted (setLeg l x s) = seAdmitted s"
  by (simp_all add: setLeg_def)

section \<open>Handlers\<close>

lemma enqueue_ok: "sess_ok L c tun s \<Longrightarrow> sess_ok L c tun (enqueue f b s)"
  by (simp add: enqueue_def)

lemma openFlow_ok:
  assumes "sess_ok L c tun s"
  shows "sess_ok L c tun (snd (openFlow c e flow s))"
proof (cases "map_of (seFlows s) flow")
  case (Some f)
  with assms show ?thesis by (simp add: openFlow_def)
next
  case None
  show ?thesis
  proof (cases "int (length (seFlows s)) \<ge> cfMaxFlowsPerSession c")
    case True
    with None assms show ?thesis by (simp add: openFlow_def sendTCPDown_ok)
  next
    case False
    then show ?thesis
      using None assms tables_ok_flows(1) [OF sess_ok_parts(4) [OF assms] None]
      by (simp add: openFlow_def Let_def sess_ok_tables)
  qed
qed

lemma dropFlow_ok: "sess_ok L c tun s \<Longrightarrow> sess_ok L c tun (dropFlow flow s)"
proof (cases "map_of (seFlows s) flow")
  case (Some f)
  assume ok: "sess_ok L c tun s"
  then have "sess_ok L c tun (emit (FlowClose f) s)" by simp
  then have "sess_ok L c tun ((emit (FlowClose f) s)\<lparr>seFlows := AList.delete flow (seFlows (emit (FlowClose f) s))\<rparr>)"
    by (intro sess_ok_tables(2) tables_ok_flows(2) sess_ok_parts(4))
  then show ?thesis using Some by (simp add: dropFlow_def)
qed (simp add: dropFlow_def)

lemma deliverTCP_ok: "sess_ok L c tun s \<Longrightarrow> sess_ok L c tun (deliverTCP c e ch s)"
  using openFlow_ok [of L c tun s e "tcFlow ch"]
  by (auto simp: deliverTCP_def enqueue_ok dropFlow_ok split: option.split prod.split)

lemma deliverAll_ok: "sess_ok L c tun s \<Longrightarrow> sess_ok L c tun (fold (deliverTCP c e) chs s)"
  by (rule fold_ok [where P = "sess_ok L c tun"]) (rule deliverTCP_ok)

lemma handleTCPUp_ok:
  assumes "sess_ok L c tun s"
  shows "sess_ok L c tun (handleTCPUp c e i s)"
  using assms Push_inv [OF sess_ok_parts(2) [OF assms]]
  by (auto simp: handleTCPUp_def Let_def sess_ok_update deliverAll_ok split: sum.split prod.split)
    (metis deliverAll_ok fst_conv sess_ok_frame(1) sess_ok_update(1))

lemma udpForward_ok:
  assumes "sess_ok L c tun s" and "map_of (seUdpFlows s) k \<noteq> None"
  shows "sess_ok L c tun (udpForward e k f data s)"
proof -
  let ?s = "asked s"
  have ok: "sess_ok L c tun ?s" using assms(1) by simp
  have "tables_ok c (?s\<lparr>seUdpFlows := AList.update k (f\<lparr>ufLastUse := enNow e (seCalls s)\<rparr>) (seUdpFlows ?s)\<rparr>)"
    using assms(2) by (intro tables_ok_udp(1) sess_ok_parts(4) [OF ok]) simp
  from sess_ok_tables(3) [OF ok this] show ?thesis by (simp add: udpForward_def)
qed

lemma openUDPFlow_ok:
  assumes "sess_ok L c tun s" and "int (length (seUdpFlows s)) < cfMaxFlowsPerSession c"
    and "openUDPFlow e k ident s = (r, s')"
  shows "sess_ok L c tun s' \<and> (r \<noteq> None \<longrightarrow> map_of (seUdpFlows s') k \<noteq> None)"
proof (cases "enDialOK e (seCalls s)")
  case False
  with assms show ?thesis by (auto simp: openUDPFlow_def Let_def)
next
  case True
  let ?s = "asked (asked (emit (UdpDial k True) s))"
  let ?f = "\<lparr>ufKey = k, ufLastUse = enNow e (seCalls s + 1), ufClosed = False, ufIpID = ident\<rparr>"
  have ok: "sess_ok L c tun ?s" using assms(1) by simp
  have "tables_ok c (?s\<lparr>seUdpFlows := AList.update k ?f (seUdpFlows ?s)\<rparr>)"
    using assms(2) by (intro tables_ok_udp(1) sess_ok_parts(4) [OF ok]) simp
  from sess_ok_tables(3) [OF ok this] show ?thesis
    using True assms(3) by (auto simp: openUDPFlow_def Let_def)
qed

text \<open>The four ways \<open>deliverUDP\<close> can return.\<close>

lemma deliverUDP_cases:
  assumes "deliverUDP c e pkt s = Ret s'"
  obtains (dropped) "s' = s"
    | (known) k f data where "map_of (seUdpFlows s) k = Some f" "s' = udpForward e k f data s"
    | (opened) k ident f s1 data where "int (length (seUdpFlows s)) < cfMaxFlowsPerSession c"
        "openUDPFlow e k ident s = (Some f, s1)" "s' = udpForward e k f data s1"
    | (failed) k ident where "int (length (seUdpFlows s)) < cfMaxFlowsPerSession c" "openUDPFlow e k ident s = (None, s')"
proof -
  from assms obtain res where res: "parseIPv4 pkt = Ret res" by (auto simp: deliverUDP_def bind_outcome_Ret_iff)
  show thesis
  proof (cases res)
    case (Inl err)
    with res assms dropped show thesis by (simp add: deliverUDP_def)
  next
    case (Inr ip)
    show thesis
    proof (cases "ipProto ip = 17 \<and> (\<exists>d. parseUDP ip = Inr d)")
      case False
      then have "s' = s" using assms res Inr by (auto simp: deliverUDP_def split: if_splits sum.splits)
      then show thesis by (rule dropped)
    next
      case True
      then obtain d where d: "ipProto ip = 17" "parseUDP ip = Inr d" by blast
      let ?k = "UdpKey (udSrc d) (udDst d)"
      show thesis
      proof (cases "map_of (seUdpFlows s) ?k")
        case (Some f)
        then have "s' = udpForward e ?k f (udData d) s" using assms res Inr d by (simp add: deliverUDP_def Let_def)
        with Some show thesis by (rule known)
      next
        case None
        show thesis
        proof (cases "int (length (seUdpFlows s)) < cfMaxFlowsPerSession c")
          case False
          then show thesis using assms res Inr d None dropped by (simp add: deliverUDP_def Let_def)
        next
          case True
          obtain r s1 where o: "openUDPFlow e ?k (ipID ip) s = (r, s1)" by (metis surj_pair)
          show thesis
          proof (cases r)
            case failure: None
            have "s1 = s'" using assms res Inr d None True o failure by (simp add: deliverUDP_def Let_def)
            with o failure show thesis by (intro failed [OF True]) simp
          next
            case (Some f)
            have "s' = udpForward e ?k f (udData d) s1" using assms res Inr d None True o Some by (simp add: deliverUDP_def Let_def)
            with o Some show thesis by (intro opened [OF True]) simp_all
          qed
        qed
      qed
    qed
  qed
qed

lemma deliverUDP_ok:
  assumes ok: "sess_ok L c tun s" and r: "deliverUDP c e pkt s = Ret s'"
  shows "sess_ok L c tun s'"
  using r
proof (cases rule: deliverUDP_cases)
  case dropped
  with ok show ?thesis by simp
next
  case (known k f data)
  with ok show ?thesis by (simp add: udpForward_ok)
next
  case (opened k ident f s1 data)
  with openUDPFlow_ok [OF ok opened(1,2)] show ?thesis by (simp add: udpForward_ok)
next
  case (failed k ident)
  with openUDPFlow_ok [OF ok failed] show ?thesis by simp
qed

lemma handleUDPUp_ok:
  assumes "sess_ok L c tun s" and "handleUDPUp c e i s = Ret s'"
  shows "sess_ok L c tun s'"
proof -
  obtain r ready where p: "Push (seUpUDP s) (frSeq (inFrame i)) (frBody (inFrame i)) (inAt i) (enNow e (seCalls s)) = (r, ready)"
    by (metis surj_pair)
  have "r_inv r" using Push_inv [OF sess_ok_parts(3) [OF assms(1)]] p by (metis fst_conv)
  then have "sess_ok L c tun (asked (s\<lparr>seUpUDP := r\<rparr>))" using assms(1) by (simp add: sess_ok_update)
  moreover have "fold_outcome (deliverUDP c e) ready (asked (s\<lparr>seUpUDP := r\<rparr>)) = Ret s'"
    using assms(2) by (simp add: handleUDPUp_def p)
  ultimately show ?thesis by (rule fold_outcome_ok [rotated, where P = "sess_ok L c tun"]) (rule deliverUDP_ok)
qed

lemma sendChunks_ok: "sess_ok L c tun s \<Longrightarrow> sess_ok L c tun (sendChunks c e flow data s)"
proof (induction c e flow data s rule: sendChunks.induct)
  case (1 c e flow data s)
  show ?case
  proof (cases "data = []")
    case True
    with 1(2) show ?thesis by (simp add: sendChunks.simps)
  next
    case False
    have "sess_ok L c tun (sendTCPDown c e flow TCPPayload (take maxChunk data) s)" using 1(2) by (rule sendTCPDown_ok) simp
    from 1(1) [OF False this] show ?thesis using False by (subst sendChunks.simps) simp
  qed
qed

lemma handleUpstream_ok: "sess_ok L c tun s \<Longrightarrow> sess_ok L c tun (handleUpstream c e u s)"
  by (simp add: handleUpstream_def Let_def sendUDPDown_ok sendTCPDown_ok dropFlow_ok sendChunks_ok)

lemma refuse_ok: "sess_ok L c tun s \<Longrightarrow> sess_ok L c tun (refuse s)"
  by (simp add: refuse_def Let_def)

lemma checkAdmission_ok: "sess_ok L c tun s \<Longrightarrow> sess_ok L c tun (snd (checkAdmission c parsed s))"
  by (simp add: checkAdmission_def refuse_ok)

lemma emits_ok:
  "sess_ok L c tun s \<Longrightarrow> \<forall>x \<in> set xs. \<forall>s. sess_ok L c tun s \<longrightarrow> sess_ok L c tun (g x s) \<Longrightarrow> sess_ok L c tun (fold g xs s)"
  by (induction xs arbitrary: s) simp_all

lemma closeFlows_ok: "sess_ok L c tun s \<Longrightarrow> sess_ok L c tun (closeFlows s)"
  by (auto simp: closeFlows_def intro!: emits_ok)

lemma closeUdpFlows_ok: "sess_ok L c tun s \<Longrightarrow> sess_ok L c tun (closeUdpFlows s)"
  by (auto simp: closeUdpFlows_def udpClose_def intro!: emits_ok)

lemma resetForHandshake_ok:
  assumes "sess_ok L c tun s"
  shows "sess_ok L c tun (resetForHandshake c s)"
proof -
  let ?s = "s\<lparr>seUpTCP := Reset (seUpTCP s), seUpUDP := Reset (seUpUDP s), seStashTCP := newStash (cfStashLimit c),
      seStashUDP := newStash (cfStashLimit c), seDownTCPSeq := 0, seDownUDPSeq := 0\<rparr>"
  have "sess_ok L c tun ?s"
    using assms by (simp add: sess_ok_def Reset_inv stash_holds_new tables_ok_def)
  then have 1: "sess_ok L c tun (closeFlows ?s)" by (rule closeFlows_ok)
  then have 2: "sess_ok L c tun ((closeFlows ?s)\<lparr>seFlows := []\<rparr>)"
    by (intro sess_ok_tables(2) tables_ok_flows(3) sess_ok_parts(4))
  then have "sess_ok L c tun (closeUdpFlows ((closeFlows ?s)\<lparr>seFlows := []\<rparr>))" by (rule closeUdpFlows_ok)
  then have "sess_ok L c tun ((closeUdpFlows ((closeFlows ?s)\<lparr>seFlows := []\<rparr>))\<lparr>seUdpFlows := []\<rparr>)"
    by (intro sess_ok_tables(3) tables_ok_udp(3) sess_ok_parts(4))
  then show ?thesis by (simp add: resetForHandshake_def Let_def)
qed

lemma onHandshakeReq_ok:
  assumes "sess_ok L c tun s" and "inLeg i \<in> L"
  shows "sess_ok L c tun (onHandshakeReq c e i s)"
proof -
  let ?res = "ParseHandshakeReq (frBody (inFrame i))"
  let ?s = "case ?res of Inl err \<Rightarrow> modStats (\<lambda>x. x\<lparr>sxHandshakes := sxHandshakes x + 1\<rparr>) s
    | Inr req \<Rightarrow> (modStats (\<lambda>x. x\<lparr>sxHandshakes := sxHandshakes x + 1\<rparr>) s)\<lparr>seClientMAC := hrMAC req, seClientTunIP := Some (hrIcgID req)\<rparr>"
  have "sess_ok L c tun ?s" using assms(1) by (simp split: sum.split)
  then have "sess_ok L c tun (snd (checkAdmission c (\<not> isl ?res) ?s))" by (rule checkAdmission_ok)
  then show ?thesis
    using assms(2) by (auto simp: onHandshakeReq_def Let_def sendOn_ok resetForHandshake_ok split: prod.split bool.split)
qed

lemma noteTunnelID_ok: "sess_ok L c tun (noteTunnelID i s) = sess_ok L c tun s"
  by (simp add: noteTunnelID_def Let_def split: option.split)

lemma onRTTSync_ok: "sess_ok L c tun s \<Longrightarrow> inLeg i \<in> L \<Longrightarrow> sess_ok L c tun (onRTTSync c e i s)"
  by (simp add: onRTTSync_def sendOn_ok split: sum.split)

lemma onRTTAck_ok: "sess_ok L c tun s \<Longrightarrow> sess_ok L c tun (onRTTAck i s)"
  by (simp add: onRTTAck_def Let_def split: sum.split)

lemma handleHandshake_ok: "sess_ok L c tun s \<Longrightarrow> inLeg i \<in> L \<Longrightarrow> sess_ok L c tun (handleHandshake c e i s)"
  by (simp add: handleHandshake_def Let_def onHandshakeReq_ok onRTTSync_ok onRTTAck_ok noteTunnelID_ok sendOn_ok)

lemma seStash_holds:
  assumes "sess_ok L c tun s" and "get q (seStash sp s) = (f, st)"
  shows "sess_ok L c tun (setStash sp st s) \<and> (\<forall>b. f = Some b \<longrightarrow> wire_frame c tun b)"
proof (cases sp)
  case TCPSpace
  then show ?thesis
    using stash_holds_get [OF sess_ok_parts(5) [OF assms(1)], of q f st] assms
    by (auto intro: sess_ok_update tcp_down_wire)
next
  case UDPSpace
  then show ?thesis
    using stash_holds_get [OF sess_ok_parts(6) [OF assms(1)], of q f st] assms
    by (auto intro: sess_ok_update udp_down_wire)
qed

lemma resendOne_ok:
  assumes "sess_ok L c tun s" and "l \<in> L"
  shows "sess_ok L c tun (resendOne e l sp q s)"
proof -
  obtain f st where g: "get q (seStash sp s) = (f, st)" by (metis surj_pair)
  show ?thesis
    using seStash_holds [OF assms(1) g] assms(2) by (cases f) (simp_all add: resendOne_def g writeRaw_ok)
qed

lemma serveRetransmit_ok: "sess_ok L c tun s \<Longrightarrow> l \<in> L \<Longrightarrow> sess_ok L c tun (serveRetransmit e l sp b s)"
  by (simp add: serveRetransmit_def emits_ok resendOne_ok split: sum.split)

lemma handleAck_ok:
  assumes "sess_ok L c tun s" and "inLeg i \<in> L"
  shows "sess_ok L c tun (handleAck e i s)"
  using assms stash_holds_ack [OF sess_ok_parts(5) [OF assms(1)]] stash_holds_ack [OF sess_ok_parts(6) [OF assms(1)]]
  by (simp add: handleAck_def Let_def sess_ok_update serveRetransmit_ok resendOne_ok)

lemma handleSeqSync_ok: "sess_ok L c tun s \<Longrightarrow> inLeg i \<in> L \<Longrightarrow> sess_ok L c tun (handleSeqSync c e i s)"
  by (simp add: handleSeqSync_def Let_def sendOn_ok)

lemma handleFrame_ok:
  assumes "sess_ok L c tun s" and "inLeg i \<in> L" and "handleFrame c e i s = Ret s'"
  shows "sess_ok L c tun s'"
  using assms
  by (auto simp: handleFrame_def Let_def handleHandshake_ok handleTCPUp_ok handleAck_ok handleSeqSync_ok
      split: if_splits intro: handleUDPUp_ok [rotated])

lemma requestRetransmit_ok:
  "sess_ok L c tun s \<Longrightarrow> opc = AckTCPRetranRange \<or> opc = AckUDPRetranRange \<Longrightarrow> sess_ok L c tun (requestRetransmit c e opc qs s)"
  by (auto simp: requestRetransmit_def Let_def intro!: pick_ok)

lemma tickMissing_ok:
  assumes "sess_ok L c tun s"
  shows "sess_ok L c tun (tickMissingTCP c e now s)" and "sess_ok L c tun (tickMissingUDP c e now s)"
proof -
  have "r_inv (fst (Missing (seUpTCP s) now (int SeqListMax)))" "r_inv (fst (Missing (seUpUDP s) now (int SeqListMax)))"
    using Missing_inv sess_ok_parts(2,3) [OF assms] by blast+
  then show "sess_ok L c tun (tickMissingTCP c e now s)" and "sess_ok L c tun (tickMissingUDP c e now s)"
    using assms
    by (auto simp: tickMissingTCP_def tickMissingUDP_def Let_def sess_ok_update split: prod.split intro!: requestRetransmit_ok)
qed

lemma tickExpireTCP_ok:
  assumes "sess_ok L c tun s"
  shows "sess_ok L c tun (tickExpireTCP c e now s)"
proof -
  obtain r ready where p: "Expire (seUpTCP s) now (enNow e (seCalls s)) = (r, ready)" by (metis surj_pair)
  have "r_inv r" using Expire_inv [OF sess_ok_parts(2) [OF assms], of now "enNow e (seCalls s)"] by (simp add: p)
  then show ?thesis using assms by (simp add: tickExpireTCP_def p deliverAll_ok sess_ok_update)
qed

lemma tickExpireUDP_ok:
  assumes "sess_ok L c tun s" and "tickExpireUDP c e now s = Ret s'"
  shows "sess_ok L c tun s'"
proof -
  obtain r ready where p: "Expire (seUpUDP s) now (enNow e (seCalls s)) = (r, ready)" by (metis surj_pair)
  have "r_inv r" using Expire_inv [OF sess_ok_parts(3) [OF assms(1)], of now "enNow e (seCalls s)"] by (simp add: p)
  then have "sess_ok L c tun (asked (s\<lparr>seUpUDP := r\<rparr>))" using assms(1) by (simp add: sess_ok_update)
  moreover have "fold_outcome (deliverUDP c e) ready (asked (s\<lparr>seUpUDP := r\<rparr>)) = Ret s'"
    using assms(2) by (simp add: tickExpireUDP_def p)
  ultimately show ?thesis by (rule fold_outcome_ok [rotated, where P = "sess_ok L c tun"]) (rule deliverUDP_ok)
qed

lemma tickAcks_ok: "sess_ok L c tun s \<Longrightarrow> sess_ok L c tun (tickAcks c e now s)"
  by (simp add: tickAcks_def Let_def pick_ok(2) split: option.split)

lemma tickReports_ok: "sess_ok L c tun s \<Longrightarrow> sess_ok L c tun (tickReports c now s)"
  by (simp add: tickReports_def Let_def)

lemma tickKeepalive_ok: "sess_ok L c tun s \<Longrightarrow> sess_ok L c tun (tickKeepalive c e now s)"
  using sess_ok_parts(7) [of L c tun s] by (fastforce simp: tickKeepalive_def intro!: emits_ok sendOn_ok)

lemma reapFlow_ok:
  assumes "sess_ok L c tun s"
  shows "sess_ok L c tun (reapFlow c now kf s)"
proof (cases kf)
  case (Pair k f)
  have "sess_ok L c tun (udpClose f s)" using assms by (simp add: udpClose_def)
  moreover have "seUdpFlows (udpClose f s) = seUdpFlows s" by (simp add: udpClose_def)
  ultimately have "sess_ok L c tun ((udpClose f s)\<lparr>seUdpFlows := AList.delete k (seUdpFlows s)\<rparr>)"
    using tables_ok_udp(2) [of c "udpClose f s" k] by (intro sess_ok_tables(3)) (simp_all add: sess_ok_parts(4))
  then show ?thesis using assms Pair by (simp add: reapFlow_def)
qed

lemma tick_ok: "sess_ok L c tun s \<Longrightarrow> tick c e now s = Ret s' \<Longrightarrow> sess_ok L c tun s'"
  unfolding tick_def reapFlows_def
  by (auto simp: bind_outcome_Ret_iff intro!: emits_ok reapFlow_ok tickKeepalive_ok tickReports_ok tickAcks_ok
      dest!: tickExpireUDP_ok [rotated] intro: tickExpireTCP_ok tickMissing_ok)

section \<open>Runs\<close>

text \<open>The legs an event may bring into a session.\<close>

fun event_legs :: "event \<Rightarrow> nat set" where
  "event_legs (EvFrame i) = {inLeg i}"
| "event_legs (EvAddLeg l) = {l}"
| "event_legs _ = {}"

lemma sessionStep_ok:
  assumes "sess_ok L c tun s" and "event_legs ev \<subseteq> L" and "sessionStep c e ev s = Ret s'"
  shows "sess_ok L c tun s'"
  using assms by (cases ev) (auto intro: handleFrame_ok tick_ok handleUpstream_ok sess_ok_legs)

lemma newSession_ok: "sess_ok L c tun (newSession c tun now heap)"
  by (simp add: sess_ok_def newSession_def stash_holds_new r_inv_New tables_ok_def)

interpretation session_keeps: kept_by_step "sessionStep c e" "sess_ok UNIV c tun" for c e tun
  by unfold_locales (rule sessionStep_ok, simp_all)

lemma run_ok: "run c e evs (newSession c tun now heap) = Ret s \<Longrightarrow> sess_ok UNIV c tun s"
  unfolding run_def using session_keeps.run_keeps newSession_ok by blast

end
