(* ===== verification/Session_Down.thy ===== *)
theory Session_Down
  imports Session_Invariant
begin

text \<open>
  What the device gets: the frames a session writes can be decoded by the other end, the
  data of an upstream socket arrives cut into numbered segments that join up again, and a
  segment asked for a second time is the same bytes.
\<close>

section \<open>The other end\<close>

text \<open>The frame \<open>sendTCPDown\<close> builds for number \<open>q\<close>.\<close>

definition tcpDownFrame :: "Config \<Rightarrow> u32 \<Rightarrow> u32 \<Rightarrow> Flow \<Rightarrow> u16 \<Rightarrow> byte list \<Rightarrow> byte list" where
  "tcpDownFrame c tun q flow opc data =
     Encode \<lparr>frMagic = cfMagic c, frIcgID = tun, frType = TypeTCPDown, frOpcode = 0, frSeq = 0,
       frBody = tcpAppendTo (DownBody flow q opc data) []\<rparr>"

text \<open>What a receiver with the same codec makes of the bytes of one frame.\<close>

definition receive :: "u32 \<Rightarrow> byte list \<Rightarrow> Frame option" where
  "receive m b = (case Decode b m of Inl err \<Rightarrow> None | Inr (f, n) \<Rightarrow> if n = length b then Some f else None)"

definition receiveTCP :: "u32 \<Rightarrow> byte list \<Rightarrow> TCPBody option" where
  "receiveTCP m b =
     (case receive m b of
        None \<Rightarrow> None
      | Some f \<Rightarrow>
          if frType f \<noteq> TypeTCPDown then None
          else case ParseTCPBody (frBody f) of Inl err \<Rightarrow> None | Inr t \<Rightarrow> Some t)"

lemma Encode_magic: "Encode (f\<lparr>frMagic := effMagic (frMagic f)\<rparr>) = Encode f"
  by (simp add: Encode_def frameAppendTo_def)

lemma receive_Encode:
  assumes "effMagic (frMagic f) = effMagic m" and "length (frBody f) \<le> MaxBodyLen - SubHdrLen"
  shows "receive m (Encode f) = Some (f\<lparr>frMagic := effMagic m\<rparr>)"
proof -
  let ?f = "f\<lparr>frMagic := effMagic m\<rparr>"
  have "frame_ok m ?f" using assms by (simp add: frame_ok_def)
  from Decode_Encode_append [OF this, of "[]"] have "Decode (Encode ?f) m = Inr (?f, length (Encode ?f))"
    by (simp add: length_Encode)
  moreover have "Encode ?f = Encode f" using Encode_magic [of f] assms(1) by simp
  ultimately show ?thesis by (simp add: receive_def)
qed

lemma length_tcpAppendTo: "length (tcpAppendTo t []) = 18 + length (tbData t)"
  by (simp add: tcpAppendTo_def as4_def)

lemma receiveTCP_down:
  assumes "length data \<le> maxChunk"
  shows "receiveTCP (cfMagic c) (tcpDownFrame c tun q flow opc data) = Some (DownBody flow q opc data)"
proof -
  have p: "ParseTCPBody (tcpAppendTo (DownBody flow q opc data) []) = Inr (DownBody flow q opc data)"
    using ParseTCPBody_append [of "DownBody flow q opc data"] by simp
  have "length (tcpAppendTo (DownBody flow q opc data) []) \<le> MaxBodyLen - SubHdrLen"
    using assms by (simp add: length_tcpAppendTo DownBody_def maxChunk_def)
  then show ?thesis
    by (simp add: receiveTCP_def tcpDownFrame_def receive_Encode p del: MaxBodyLen_def)
qed

section \<open>Writing does not change the choice of leg\<close>

definition same_rank :: "legs \<Rightarrow> legs \<Rightarrow> bool" where
  "same_rank h h' \<longleftrightarrow> (\<forall>l. lgClosed (h l) = lgClosed (h' l) \<and> lgKind (h l) = lgKind (h' l)
     \<and> lgRtt (h l) = lgRtt (h' l) \<and> lgLastRx (h l) = lgLastRx (h' l) \<and> lgHasWrite (h l) = lgHasWrite (h' l))"

lemma same_rank_refl [simp]: "same_rank h h"
  by (simp add: same_rank_def)

lemma pickLoop_same: "same_rank h h' \<Longrightarrow> pickLoop h kind ls best = pickLoop h' kind ls best"
  by (induction h kind ls best rule: pickLoop.induct)
    (auto simp: same_rank_def betterThan_def split: option.split)

lemma pickLeg_same: "same_rank h h' \<Longrightarrow> pickLeg h ls kind = pickLeg h' ls kind"
  using pickLoop_same [of h h' kind ls None] pickLoop_same [of h h' "''''" ls None]
  by (auto simp: pickLeg_def split: option.split)

lemma pickLoop_open:
  "pickLoop h kind ls best = Some b \<Longrightarrow> (\<forall>d. best = Some d \<longrightarrow> \<not> lgClosed (h d)) \<Longrightarrow> \<not> lgClosed (h b)"
  by (induction h kind ls best rule: pickLoop.induct) (auto split: if_splits option.splits)

lemma pickLeg_open: "pickLeg h ls kind = Some b \<Longrightarrow> \<not> lgClosed (h b)"
  by (auto simp: pickLeg_def dest: pickLoop_open split: option.splits if_splits)

lemma writeRaw_same:
  "same_rank (seHeap (writeRaw e l b s)) (seHeap s)"
  "seLegs (writeRaw e l b s) = seLegs s" "seDownTCPSeq (writeRaw e l b s) = seDownTCPSeq s"
  "seDownUDPSeq (writeRaw e l b s) = seDownUDPSeq s"
  "seTunIP (writeRaw e l b s) = seTunIP s" "seStashTCP (writeRaw e l b s) = seStashTCP s"
  "seStashUDP (writeRaw e l b s) = seStashUDP s" "seFlows (writeRaw e l b s) = seFlows s"
  "seUdpFlows (writeRaw e l b s) = seUdpFlows s" "seState (writeRaw e l b s) = seState s"
  "seUpTCP (writeRaw e l b s) = seUpTCP s" "seUpUDP (writeRaw e l b s) = seUpUDP s"
  "seAdmitted (writeRaw e l b s) = seAdmitted s" "seFresh (writeRaw e l b s) = seFresh s"
  by (simp_all add: writeRaw_def Let_def same_rank_def)

definition canWrite :: "legs \<Rightarrow> nat \<Rightarrow> bool" where
  "canWrite h l \<longleftrightarrow> \<not> lgClosed (h l) \<and> lgHasWrite (h l)"

lemma canWrite_same: "same_rank h h' \<Longrightarrow> canWrite h l = canWrite h' l"
  by (simp add: same_rank_def canWrite_def)

lemma writeRaw_out: "seOut (writeRaw e l b s) = seOut s @ (if canWrite (seHeap s) l then [LegWrite l b] else [])"
  by (simp add: writeRaw_def Let_def canWrite_def)

text \<open>Where a downlink frame of a kind goes: on the chosen leg, or nowhere.\<close>

definition downOut :: "string \<Rightarrow> Session \<Rightarrow> byte list list \<Rightarrow> effect list" where
  "downOut kind s frames =
     (case sessionPickLeg kind s of
        None \<Rightarrow> []
      | Some l \<Rightarrow> if lgHasWrite (seHeap s l) then map (LegWrite l) frames else [])"

lemma downOut_append: "downOut kind s (xs @ ys) = downOut kind s xs @ downOut kind s ys"
  by (simp add: downOut_def split: option.split)

lemma downOut_Nil [simp]: "downOut kind s [] = []"
  by (simp add: downOut_def split: option.split)

lemma downOut_same:
  assumes "same_rank (seHeap s') (seHeap s)" and "seLegs s' = seLegs s"
  shows "downOut kind s' frames = downOut kind s frames"
  using assms pickLeg_same [OF assms(1)]
  by (auto simp: downOut_def sessionPickLeg_def same_rank_def split: option.split)

lemma bumpOut_fields [simp]:
  "seFlows (bumpOut s) = seFlows s" "seUdpFlows (bumpOut s) = seUdpFlows s" "seHeap (bumpOut s) = seHeap s"
  "seLegs (bumpOut s) = seLegs s" "seOut (bumpOut s) = seOut s" "seCalls (bumpOut s) = seCalls s"
  "seTunIP (bumpOut s) = seTunIP s" "seUpTCP (bumpOut s) = seUpTCP s" "seUpUDP (bumpOut s) = seUpUDP s"
  "seState (bumpOut s) = seState s" "seFresh (bumpOut s) = seFresh s"
  "seDownTCPSeq (bumpOut s) = seDownTCPSeq s" "seDownUDPSeq (bumpOut s) = seDownUDPSeq s"
  "seStashTCP (bumpOut s) = seStashTCP s" "seStashUDP (bumpOut s) = seStashUDP s" "seAdmitted (bumpOut s) = seAdmitted s"
  by (simp_all add: bumpOut_def)

lemma writeMaybe_down:
  assumes "same_rank (seHeap s) (seHeap s0)" "seLegs s = seLegs s0"
  shows "seOut (writeMaybe e (sessionPickLeg kind s) b s) = seOut s @ downOut kind s0 [b]"
    and "same_rank (seHeap (writeMaybe e (sessionPickLeg kind s) b s)) (seHeap s0)"
    and "seLegs (writeMaybe e l b s) = seLegs s" "seDownTCPSeq (writeMaybe e l b s) = seDownTCPSeq s"
    "seDownUDPSeq (writeMaybe e l b s) = seDownUDPSeq s"
    "seTunIP (writeMaybe e l b s) = seTunIP s" "seStashTCP (writeMaybe e l b s) = seStashTCP s"
    "seStashUDP (writeMaybe e l b s) = seStashUDP s"
proof -
  have "seOut (writeMaybe e (sessionPickLeg kind s) b s) = seOut s @ downOut kind s [b]"
    by (auto simp: writeMaybe_def downOut_def writeRaw_out canWrite_def sessionPickLeg_def
        dest: pickLeg_open split: option.split)
  then show "seOut (writeMaybe e (sessionPickLeg kind s) b s) = seOut s @ downOut kind s0 [b]"
    using downOut_same [OF assms] by simp
  show "same_rank (seHeap (writeMaybe e (sessionPickLeg kind s) b s)) (seHeap s0)"
  proof (cases "sessionPickLeg kind s")
    case (Some l)
    then show ?thesis using assms(1) writeRaw_same(1) [of e l b s] by (simp add: writeMaybe_def same_rank_def)
  qed (use assms(1) in \<open>simp add: writeMaybe_def\<close>)
qed (simp_all add: writeMaybe_def writeRaw_same split: option.split)

lemma sendTCPDown_trace:
  fixes s :: Session and c flow opc data
  defines "b \<equiv> tcpDownFrame c (seTunIP s) (seDownTCPSeq s) flow opc data"
  shows "seOut (sendTCPDown c e flow opc data s) = seOut s @ downOut ''tcp'' s [b]"
    and "seStashTCP (sendTCPDown c e flow opc data s) = put (seDownTCPSeq s) b (seStashTCP s)"
    and "same_rank (seHeap (sendTCPDown c e flow opc data s)) (seHeap s)"
    and "seLegs (sendTCPDown c e flow opc data s) = seLegs s"
    and "seDownTCPSeq (sendTCPDown c e flow opc data s) = seDownTCPSeq s + 1"
    and "seTunIP (sendTCPDown c e flow opc data s) = seTunIP s"
proof -
  have enc: "Encode (stamp c (s\<lparr>seDownTCPSeq := q\<rparr>) (mkFrame TypeTCPDown 0 0 (tcpAppendTo (DownBody flow (seDownTCPSeq s) opc data) []))) = b" for q
    by (simp add: b_def tcpDownFrame_def stamp_def mkFrame_def)
  let ?s = "bumpOut (s\<lparr>seDownTCPSeq := seDownTCPSeq s + 1, seStashTCP := put (seDownTCPSeq s) b (seStashTCP s)\<rparr>)"
  have eq: "sendTCPDown c e flow opc data s = writeMaybe e (sessionPickLeg ''tcp'' ?s) b ?s"
    by (simp only: sendTCPDown_def Let_def enc) simp
  have "same_rank (seHeap ?s) (seHeap s)" "seLegs ?s = seLegs s" by simp_all
  note w = writeMaybe_down [OF this, of e, where b = b]
  show "seOut (sendTCPDown c e flow opc data s) = seOut s @ downOut ''tcp'' s [b]" using w(1) by (simp add: eq)
  show "same_rank (seHeap (sendTCPDown c e flow opc data s)) (seHeap s)" using w(2) by (simp add: eq)
qed (simp_all add: sendTCPDown_def Let_def writeMaybe_down(3-8) b_def tcpDownFrame_def stamp_def mkFrame_def
  writeMaybe_def writeRaw_same split: option.split)

section \<open>Segments\<close>

function segments :: "byte list \<Rightarrow> byte list list" where
  "segments data = (if data = [] then [] else take maxChunk data # segments (drop maxChunk data))"
  by pat_completeness auto
termination
  by (relation "measure length") (auto simp: maxChunk_def)

declare segments.simps [simp del]

fun downFrames :: "Config \<Rightarrow> u32 \<Rightarrow> Flow \<Rightarrow> u32 \<Rightarrow> byte list list \<Rightarrow> byte list list" where
  "downFrames c tun flow q [] = []"
| "downFrames c tun flow q (d # ds) = tcpDownFrame c tun q flow TCPPayload d # downFrames c tun flow (q + 1) ds"

fun putAll :: "u32 \<Rightarrow> 'f list \<Rightarrow> 'f stash \<Rightarrow> 'f stash" where
  "putAll q [] st = st"
| "putAll q (f # fs) st = putAll (q + 1) fs (put q f st)"

lemma segments_concat: "concat (segments data) = data"
  by (induction data rule: segments.induct) (subst segments.simps, simp)

lemma segments_small: "d \<in> set (segments data) \<Longrightarrow> d \<noteq> [] \<and> length d \<le> maxChunk"
proof (induction data rule: segments.induct)
  case (1 data)
  then show ?case by (subst (asm) (2) segments.simps) (auto simp: maxChunk_def split: if_splits)
qed

lemma sendChunks_trace:
  "seOut (sendChunks c e flow data s) =
     seOut s @ downOut ''tcp'' s (downFrames c (seTunIP s) flow (seDownTCPSeq s) (segments data))
   \<and> seStashTCP (sendChunks c e flow data s) =
       putAll (seDownTCPSeq s) (downFrames c (seTunIP s) flow (seDownTCPSeq s) (segments data)) (seStashTCP s)
   \<and> seDownTCPSeq (sendChunks c e flow data s) = seDownTCPSeq s + of_nat (length (segments data))
   \<and> same_rank (seHeap (sendChunks c e flow data s)) (seHeap s)
   \<and> seLegs (sendChunks c e flow data s) = seLegs s \<and> seTunIP (sendChunks c e flow data s) = seTunIP s"
proof (induction c e flow data s rule: sendChunks.induct)
  case (1 c e flow data s)
  show ?case
  proof (cases "data = []")
    case True
    then show ?thesis by (simp add: sendChunks.simps [of _ _ _ "[]"] segments.simps [of "[]"])
  next
    case False
    let ?s = "sendTCPDown c e flow TCPPayload (take maxChunk data) s"
    have step: "sendChunks c e flow data s = sendChunks c e flow (drop maxChunk data) ?s"
      using False by (subst sendChunks.simps) simp
    have seg: "segments data = take maxChunk data # segments (drop maxChunk data)"
      using False by (subst segments.simps) simp
    note t = sendTCPDown_trace [where c = c and e = e and flow = flow and opc = TCPPayload
        and data = "take maxChunk data" and s = s]
    have d: "downOut ''tcp'' ?s fs = downOut ''tcp'' s fs" for fs using t(3,4) by (rule downOut_same)
    have r: "same_rank (seHeap (sendChunks c e flow (drop maxChunk data) ?s)) (seHeap s)"
      using 1 [OF False] t(3) by (simp add: same_rank_def)
    have a: "downOut ''tcp'' s (x # xs) = downOut ''tcp'' s [x] @ downOut ''tcp'' s xs" for x xs
      using downOut_append [of "''tcp''" s "[x]" xs] by simp
    show ?thesis
      using 1 [OF False] r a [of "tcpDownFrame c (seTunIP s) (seDownTCPSeq s) flow TCPPayload (take maxChunk data)"
          "downFrames c (seTunIP s) flow (seDownTCPSeq s + 1) (segments (drop maxChunk data))"]
      by (simp add: step seg t(1,2,4-6) d del: drop_eq_Nil TCPPayload_def)
  qed
qed

lemma receive_downFrames:
  "list_all (\<lambda>d. length d \<le> maxChunk) ds \<Longrightarrow>
     map (receiveTCP (cfMagic c)) (downFrames c tun flow q ds) =
     map (\<lambda>(i, d). Some (DownBody flow (q + of_nat i) TCPPayload d)) (enumerate 0 ds)"
proof (induction ds arbitrary: q)
  case (Cons d ds)
  have "map (\<lambda>(i, d). Some (DownBody flow (q + of_nat i) TCPPayload d)) (enumerate (Suc 0) ds) =
      map (\<lambda>(i, d). Some (DownBody flow (q + 1 + of_nat i) TCPPayload d)) (enumerate 0 ds)"
    by (rule nth_equalityI) (simp_all add: nth_enumerate_eq algebra_simps)
  with Cons show ?case by (simp add: receiveTCP_down)
qed simp

section \<open>Retransmission\<close>

lemma seStash_setStash [simp]:
  "seStash sp (setStash sp st s) = st" "seHeap (setStash sp st s) = seHeap s" "seOut (setStash sp st s) = seOut s"
  by (cases sp; simp)+

lemma seStash_writeRaw [simp]: "seStash sp (writeRaw e l b s) = seStash sp s"
  by (cases sp) (simp_all add: writeRaw_same)

lemma seStash_modStats [simp]: "seStash sp (modStats g s) = seStash sp s"
  by (cases sp) simp_all

lemma get_keeps: "get q st = (f, st') \<Longrightarrow> lookup st' = lookup st"
  by (auto simp: get_def lookup_def fun_eq_iff split: option.splits)

lemma resendOne_trace:
  "seOut (resendOne e l sp q s) = seOut s @
     (case lookup (seStash sp s) q of None \<Rightarrow> [] | Some b \<Rightarrow> if canWrite (seHeap s) l then [LegWrite l b] else [])
   \<and> lookup (seStash sp (resendOne e l sp q s)) = lookup (seStash sp s)
   \<and> same_rank (seHeap (resendOne e l sp q s)) (seHeap s)"
proof -
  obtain f st where g: "get q (seStash sp s) = (f, st)" by (metis surj_pair)
  have f: "lookup (seStash sp s) q = f" using get_lookup [of q "seStash sp s"] g by simp
  show ?thesis
    using f get_keeps [OF g]
    by (cases f) (auto simp: resendOne_def g writeRaw_out writeRaw_same(1) [unfolded same_rank_def] same_rank_def)
qed

lemma resendAll_trace:
  "seOut (fold (resendOne e l sp) qs s) = seOut s @
     (if canWrite (seHeap s) l then map (LegWrite l) (List.map_filter (lookup (seStash sp s)) qs) else [])
   \<and> lookup (seStash sp (fold (resendOne e l sp) qs s)) = lookup (seStash sp s)"
proof (induction qs arbitrary: s)
  case Nil
  then show ?case by (simp add: List.map_filter_def)
next
  case (Cons q qs)
  let ?s = "resendOne e l sp q s"
  have "canWrite (seHeap ?s) l = canWrite (seHeap s) l"
    using resendOne_trace [of e l sp q s] canWrite_same by blast
  then show ?case
    using Cons [of ?s] resendOne_trace [of e l sp q s]
    by (simp add: List.map_filter_def split: option.split)
qed

section \<open>Properties\<close>

text \<open>
  C8: a session speaks only its own side of the protocol. Whatever legs, frames, upstream
  data and ticks it meets, from creation on, every byte string it ever puts on a leg is one
  whole frame with its configured magic, its own identity and a type and opcode that a
  server sends; what it keeps for retransmission under a number is the frame of that number,
  with at most 1400 bytes of stream data; and no flow table outgrows its limit.
\<close>

theorem session_speaks_protocol:
  assumes "run c e evs (newSession c tun now heap) = Ret s"
  shows "list_all (wire_ok UNIV c tun) (seOut s)
    \<and> stash_holds (tcp_down c tun) (seStashTCP s) \<and> stash_holds (udp_down c tun) (seStashUDP s)
    \<and> int (length (seFlows s)) \<le> max 0 (cfMaxFlowsPerSession c)
    \<and> int (length (seUdpFlows s)) \<le> max 0 (cfMaxFlowsPerSession c)"
  using run_ok [OF assms] by (simp add: sess_ok_def tables_ok_def)

text \<open>
  C4: data from an upstream socket arrives whole. It is cut into segments of at most 1400
  bytes that take consecutive numbers of the downlink space; each is put on the scheduler's
  leg and into the stash; the device's codec reads every one back with the flow's ends
  swapped, and joined in order they are the data.
\<close>

theorem upstream_segments:
  assumes "upIsTCP u" and "\<not> upClosed u" and "q = seDownTCPSeq s" and "s' = handleUpstream c e u s"
  shows "\<exists>frames bodies. map (receiveTCP (cfMagic c)) frames = map Some bodies
    \<and> concat (map tbData bodies) = upData u
    \<and> map tbSeq bodies = map (\<lambda>i. q + of_nat i) [0..<length frames]
    \<and> list_all (\<lambda>t. tbOpcode t = TCPPayload \<and> tbData t \<noteq> [] \<and> length (tbData t) \<le> maxChunk
         \<and> UpFlow t = Flow (flServer (upFlow u)) (flClient (upFlow u))) bodies
    \<and> seOut s' = seOut s @ downOut ''tcp'' s frames
    \<and> seStashTCP s' = putAll q frames (seStashTCP s)
    \<and> seDownTCPSeq s' = q + of_nat (length frames)"
proof -
  let ?ds = "segments (upData u)"
  let ?frames = "downFrames c (seTunIP s) (upFlow u) q ?ds"
  define bodies where "bodies = map (\<lambda>(i, d). DownBody (upFlow u) (q + of_nat i) TCPPayload d) (enumerate 0 ?ds)"
  have len: "length (downFrames c tun flow q ds) = length ds" for tun flow q ds
    by (induction ds arbitrary: q) simp_all
  have "list_all (\<lambda>d. length d \<le> maxChunk) ?ds" by (auto simp: list_all_iff dest: segments_small)
  from receive_downFrames [OF this] have r: "map (receiveTCP (cfMagic c)) ?frames = map Some bodies"
    by (simp add: bodies_def case_prod_unfold comp_def)
  have d: "map tbData bodies = ?ds" by (rule nth_equalityI) (simp_all add: bodies_def nth_enumerate_eq DownBody_def)
  have n: "map tbSeq bodies = map (\<lambda>i. q + of_nat i) [0..<length ?ds]"
    by (rule nth_equalityI) (simp_all add: bodies_def nth_enumerate_eq DownBody_def)
  have l: "list_all (\<lambda>t. tbOpcode t = TCPPayload \<and> tbData t \<noteq> [] \<and> length (tbData t) \<le> maxChunk
      \<and> UpFlow t = Flow (flServer (upFlow u)) (flClient (upFlow u))) bodies"
    using segments_small [OF nth_mem, of _ "upData u"]
    by (auto simp: bodies_def list_all_iff DownBody_def UpFlow_def in_set_enumerate_eq)
  have s': "s' = sendChunks c e (upFlow u) (upData u) s" using assms by (simp add: handleUpstream_def)
  show ?thesis
    using r n l sendChunks_trace [of c e "upFlow u" "upData u" s]
    by (intro exI [of _ ?frames] exI [of _ bodies]) (simp add: d segments_concat len s' assms(3))
qed

text \<open>A configuration and a session with one open TCP leg, for the concrete checks.\<close>

definition exConfig :: Config where
  "exConfig = \<lparr>cfMagic = 0x12345678, cfKeepaliveInterval = Second, cfAckInterval = 200 * Millisecond,
     cfReorder = \<lparr>rcMaxPending = 0, rcRetransmitAfter = 0, rcSkipAfter = 0, rcSettle = 0\<rparr>,
     cfStashLimit = 8192, cfMaxFlowsPerSession = 4096, cfUDPFlowIdle = 60 * Second, cfStatsInterval = 0,
     cfAllowedDevices = []\<rparr>"

definition exHeap :: legs where
  "exHeap l = \<lparr>lgKey = \<lparr>lkKind = ''tcp'', lkID = ''a''\<rparr>, lgKind = ''tcp'', lgRemote = None, lgTunnelID = -1,
     lgHasWrite = True, lgLastRx = 0, lgRtt = 0, lgClosed = False, lgWriteErrs = 0\<rparr>"

definition exEnv :: env where
  "exEnv = \<lparr>enNow = (\<lambda>n. int n), enWriteOK = (\<lambda>n. True), enDialOK = (\<lambda>n. True)\<rparr>"

definition exSession :: Session where
  "exSession = (newSession exConfig 0x0100000a 5 exHeap)\<lparr>seLegs := [(\<lparr>lkKind = ''tcp'', lkID = ''a''\<rparr>, 0)]\<rparr>"

definition exFlow :: Flow where
  "exFlow = Flow (AddrPort 0xc0a80002 4242) (AddrPort 0x08080808 443)"

lemma session_speaks_protocol_witness:
  "\<exists>s. run exConfig exEnv [EvAddLeg 0, EvTick 1000] (newSession exConfig 1 5 exHeap) = Ret s
     \<and> list_all (wire_ok UNIV exConfig 1) (seOut s)"
proof -
  have r: "\<exists>s. run exConfig exEnv [EvAddLeg 0, EvTick 1000] (newSession exConfig 1 5 exHeap) = Ret s"
    by (simp add: run_def tick_def tickMissingTCP_def tickMissingUDP_def tickExpireTCP_def tickExpireUDP_def
        newSession_def NewReorder_def Missing_def Expire_def Let_def)
  then obtain s where "run exConfig exEnv [EvAddLeg 0, EvTick 1000] (newSession exConfig 1 5 exHeap) = Ret s" by blast
  from this session_speaks_protocol [OF this] show ?thesis by blast
qed

lemma upstream_segments_witness:
  "\<exists>frames bodies. map (receiveTCP 0x12345678) frames = map Some bodies \<and> concat (map tbData bodies) = [1, 2, 3]
     \<and> seDownTCPSeq (handleUpstream exConfig exEnv \<lparr>upFlow = exFlow, upData = [1, 2, 3], upClosed = False,
          upDialFailed = False, upIsTCP = True, upPacket = []\<rparr> exSession) = of_nat (length frames)"
  using upstream_segments [of "\<lparr>upFlow = exFlow, upData = [1, 2, 3], upClosed = False, upDialFailed = False,
      upIsTCP = True, upPacket = []\<rparr>" 0 exSession _ exConfig exEnv]
  by (auto simp: exSession_def newSession_def exConfig_def)

text \<open>
  C11: a retransmission is the same bytes. A range request is answered on the leg that asked,
  in the order of its numbers, with exactly the stored frames, each byte for byte as first
  sent; numbers no longer held are passed over, and answering takes nothing out of the stash.
\<close>

theorem retransmit_same_bytes:
  assumes "sp = (if opc = AckTCPRetranRange then TCPSpace else UDPSpace)" and "frType (inFrame i) = TypeAck" and "frOpcode (inFrame i) = opc"
    and "opc \<in> {AckTCPRetranRange, AckUDPRetranRange}"
    and "ParseSeqList (frBody (inFrame i)) = Inr qs"
    and "handleFrame c e i s = Ret s'"
  shows "seOut s' = seOut s @ (if canWrite (seHeap s) (inLeg i)
      then map (LegWrite (inLeg i)) (List.map_filter (lookup (seStash sp s)) qs) else [])
    \<and> lookup (seStash sp s') = lookup (seStash sp s)"
proof -
  let ?s = "setLeg (inLeg i) ((seHeap s (inLeg i))\<lparr>lgLastRx := inAt i\<rparr>) (modStats (\<lambda>x. x\<lparr>sxFramesIn := sxFramesIn x + 1\<rparr>) s)"
  have st: "seStash sp ?s = seStash sp s" for sp by (cases sp) simp_all
  have w: "canWrite (seHeap ?s) (inLeg i) = canWrite (seHeap s) (inLeg i)" by (simp add: canWrite_def)
  have "s' = fold (resendOne e (inLeg i) sp) qs ?s"
    using assms by (auto simp: handleFrame_def handleAck_def serveRetransmit_def Let_def)
  then show ?thesis using resendAll_trace [of e "inLeg i" sp qs ?s] st w by simp
qed

lemma retransmit_same_bytes_witness:
  "\<exists>s'. handleFrame exConfig exEnv \<lparr>inLeg = 0, inFrame = mkFrame TypeAck AckTCPRetranRange 0 (AppendSeqList [] [7, 8]), inAt = 9\<rparr>
       (exSession\<lparr>seStashTCP := put 8 [1, 2] (newStash 10)\<rparr>) = Ret s' \<and> seOut s' = [LegWrite 0 [1, 2]]"
proof -
  let ?i = "\<lparr>inLeg = 0, inFrame = mkFrame TypeAck AckTCPRetranRange 0 (AppendSeqList [] [7, 8]), inAt = 9\<rparr>"
  let ?s = "exSession\<lparr>seStashTCP := put 8 [1, 2] (newStash 10)\<rparr>"
  obtain s' where r: "handleFrame exConfig exEnv ?i ?s = Ret s'"
    by (simp add: handleFrame_def Let_def)
  have p: "ParseSeqList (AppendSeqList [] [7, 8]) = Inr [7, 8]"
    using seq_list_roundtrip [of "[7, 8]" "[]"] by simp
  have "seOut s' = [LegWrite 0 [1, 2]]"
    using retransmit_same_bytes [of TCPSpace AckTCPRetranRange ?i "[7, 8]" exConfig exEnv ?s s'] r p
    by (simp add: exSession_def newSession_def exHeap_def canWrite_def List.map_filter_def lookup_def put_def newStash_def evictLoop.simps Let_def)
  with r show ?thesis by blast
qed

end
