(* ===== verification/Session_Up.thy ===== *)
theory Session_Up
  imports Session_Down
begin

text \<open>
  What the device sends: where its streams and packets end up, what a handshake does to the
  session, and which frames can end the process.
\<close>

section \<open>What a reassembler holds\<close>

definition vals :: "'a Reorder \<Rightarrow> 'a set" where
  "vals r = (\<lambda>(s, p). pdVal p) ` set (rPend r)"

lemma values_fields [simp]:
  "vals (r\<lparr>rDuplicated := w\<rparr>) = vals r" "vals (r\<lparr>rLate := w\<rparr>) = vals r"
  "vals (r\<lparr>rNext := n\<rparr>) = vals r" "vals (r\<lparr>rDelivered := w\<rparr>) = vals r"
  "vals (r\<lparr>rStarted := b\<rparr>) = vals r" "vals (r\<lparr>rBlockedSince := t\<rparr>) = vals r"
  "vals (r\<lparr>rSkipped := w\<rparr>) = vals r" "vals (bumpMaxSeen r q) = vals r"
  "vals (markFirst r q t) = vals r" "vals (markBlocked r t) = vals r"
  "vals (Reset r) = {}" "vals (NewReorder cfg) = {}"
  by (simp_all add: vals_def Reset_def NewReorder_def Let_def)

lemma values_hold: "vals (hold r q v t) \<subseteq> insert v (vals r)"
proof -
  have "set (AList.update q p xs) \<subseteq> insert (q, p) (set xs)" for p xs
    by (induction xs) auto
  then show ?thesis by (fastforce simp: vals_def hold_def)
qed

lemma drainLoop_values:
  "drainLoop r out = (r', out') \<Longrightarrow> vals r' \<union> set out' \<subseteq> vals r \<union> set out"
proof (induction r out arbitrary: r' out' rule: drainLoop.induct)
  case (1 r out)
  show ?case
  proof (cases "map_of (rPend r) (rNext r)")
    case None
    then show ?thesis using 1(2) by (simp add: drainLoop.simps [of r out])
  next
    case (Some p)
    let ?r = "r\<lparr>rPend := AList.delete (rNext r) (rPend r), rNext := rNext r + 1, rDelivered := rDelivered r + 1\<rparr>"
    have d: "drainLoop ?r (out @ [pdVal p]) = (r', out')"
      using 1(2) Some by (simp add: drainLoop.simps [of r out])
    have "vals ?r \<subseteq> vals r" by (auto simp: vals_def AList.delete_eq)
    moreover have "pdVal p \<in> vals r" using map_of_SomeD [OF Some] by (force simp: vals_def)
    ultimately show ?thesis using 1(1) [OF Some d] by auto
  qed
qed

lemma drain_values:
  assumes "drain r out wall = (r', out')" shows "vals r' \<union> set out' \<subseteq> vals r \<union> set out"
  using assms drainLoop_values [of r out] by (fastforce simp: drain_def split: prod.splits if_splits)

lemma latch_values: "latch r now wall = (r', out) \<Longrightarrow> vals r' \<union> set out \<subseteq> vals r"
  by (auto simp: latch_def split: option.splits dest!: drain_values)

lemma skipToLowest_values: "skipToLowest r now wall = (r', out) \<Longrightarrow> vals r' \<union> set out \<subseteq> vals r"
  by (fastforce simp: skipToLowest_def Let_def split: option.splits if_splits dest!: drain_values)

lemma Push_values: "Push r q v now wall = (r', out) \<Longrightarrow> vals r' \<union> set out \<subseteq> insert v (vals r)"
  using values_hold [of "bumpMaxSeen (markFirst r q now) q" q v now] values_hold [of "bumpMaxSeen r q" q v now]
  by (fastforce simp: Push_def Let_def split: if_splits dest!: drain_values latch_values skipToLowest_values)

lemma Expire_values: "Expire r now wall = (r', out) \<Longrightarrow> vals r' \<union> set out \<subseteq> vals r"
  by (auto simp: Expire_def split: if_splits dest!: latch_values skipToLowest_values)

lemma Missing_values [simp]: "vals (fst (Missing r now limit)) = vals r"
  by (simp add: Missing_def Let_def vals_def)

lemma drainLoop_grows: "\<exists>rest. snd (drainLoop r out) = out @ rest"
proof (induction r out rule: drainLoop.induct)
  case (1 r out)
  then show ?case by (subst drainLoop.simps) (auto split: option.split)
qed

lemma drain_grows: "drain r [v] wall = (r', out) \<Longrightarrow> \<exists>rest. out = v # rest"
  using drainLoop_grows [of r "[v]"] by (auto simp: drain_def split: prod.splits)

lemma Push_next:
  assumes "rStarted r" and "q = rNext r" and "Push r q v now wall = (r', out)"
  shows "\<exists>rest. out = v # rest"
  using assms drain_grows [of _ v wall r' out] by (auto simp: Push_def Let_def)

section \<open>Who touches the UDP reassembler\<close>

named_theorems upUDP \<open>operations that leave the UDP reassembler alone\<close>

lemma upUDP_base [upUDP]:
  "seUpUDP (writeRaw e l b s) = seUpUDP s"
  "seUpUDP (writeMaybe e lo b s) = seUpUDP s"
  "seUpUDP (sendOn c e lo f s) = seUpUDP s"
  "seUpUDP (udpClose uf s) = seUpUDP s"
  "seUpUDP (enqueue fid b s) = seUpUDP s"
  "seUpUDP (unknownFrame s) = seUpUDP s"
  "seUpUDP (setStash sp st s) = seUpUDP s"
  by (simp_all add: writeRaw_same writeMaybe_def sendOn_def udpClose_def enqueue_def unknownFrame_def split: option.split)
    (cases sp; simp)

lemma upUDP_tcp [upUDP]:
  "seUpUDP (sendTCPDown c e flow opc data s) = seUpUDP s"
  "seUpUDP (sendUDPDown c e pkt s) = seUpUDP s"
  "seUpUDP (dropFlow flow s) = seUpUDP s"
  by (simp_all add: sendTCPDown_def sendUDPDown_def dropFlow_def Let_def upUDP split: option.split)

lemma upUDP_openFlow [upUDP]: "seUpUDP (snd (openFlow c e flow s)) = seUpUDP s"
  by (simp add: openFlow_def Let_def upUDP split: option.split)

lemma upUDP_deliverTCP [upUDP]: "seUpUDP (deliverTCP c e ch s) = seUpUDP s"
  using upUDP_openFlow [of c e "tcFlow ch" s]
  by (cases "openFlow c e (tcFlow ch) s") (auto simp: deliverTCP_def upUDP split: option.split)

lemma fold_keeps: "(\<And>x s. g (h x s) = g s) \<Longrightarrow> g (fold h xs s) = g s"
  by (induction xs arbitrary: s) simp_all

lemma upUDP_folds [upUDP]:
  "seUpUDP (fold (deliverTCP c e) chs s) = seUpUDP s"
  "seUpUDP (fold (resendOne e l sp) qs s) = seUpUDP s"
  "seUpUDP (closeFlows s) = seUpUDP s" "seUpUDP (closeUdpFlows s) = seUpUDP s"
  by (simp_all add: fold_keeps [where g = seUpUDP] upUDP closeFlows_def closeUdpFlows_def resendOne_def
      split: prod.split option.split)

lemma upUDP_sendChunks [upUDP]: "seUpUDP (sendChunks c e flow data s) = seUpUDP s"
  by (induction c e flow data s rule: sendChunks.induct) (subst sendChunks.simps, simp add: upUDP)

lemma upUDP_handlers [upUDP]:
  "seUpUDP (handleTCPUp c e i s) = seUpUDP s"
  "seUpUDP (handleUpstream c e u s) = seUpUDP s"
  "seUpUDP (handleSeqSync c e i s) = seUpUDP s"
  "seUpUDP (noteTunnelID i s) = seUpUDP s"
  "seUpUDP (onRTTSync c e i s) = seUpUDP s"
  "seUpUDP (onRTTAck i s) = seUpUDP s"
  "seUpUDP (serveRetransmit e l sp body s) = seUpUDP s"
  "seUpUDP (snd (checkAdmission c b s)) = seUpUDP s"
  by (simp_all add: handleTCPUp_def handleUpstream_def handleSeqSync_def noteTunnelID_def onRTTSync_def onRTTAck_def
      serveRetransmit_def checkAdmission_def refuse_def Let_def upUDP split: sum.split prod.split option.split)

lemma upUDP_ack [upUDP]: "seUpUDP (handleAck e i s) = seUpUDP s"
  by (simp add: handleAck_def resendOne_def Let_def upUDP split: prod.split option.split)

lemma upUDP_reset: "seUpUDP (resetForHandshake c s) = Reset (seUpUDP s)"
  by (simp add: resetForHandshake_def Let_def upUDP)

lemma upUDP_onHandshakeReq: "seUpUDP (onHandshakeReq c e i s) \<in> {seUpUDP s, Reset (seUpUDP s)}"
proof -
  define s1 where "s1 = (case ParseHandshakeReq (frBody (inFrame i)) of
      Inl err \<Rightarrow> modStats (\<lambda>x. x\<lparr>sxHandshakes := sxHandshakes x + 1\<rparr>) s
    | Inr req \<Rightarrow> (modStats (\<lambda>x. x\<lparr>sxHandshakes := sxHandshakes x + 1\<rparr>) s)\<lparr>seClientMAC := hrMAC req, seClientTunIP := Some (hrIcgID req)\<rparr>)"
  have s1: "seUpUDP s1 = seUpUDP s" by (simp add: s1_def split: sum.split)
  obtain b s2 where a: "checkAdmission c (\<not> isl (ParseHandshakeReq (frBody (inFrame i)))) s1 = (b, s2)" by (metis surj_pair)
  have "seUpUDP s2 = seUpUDP s" using upUDP_handlers(8) [of c _ s1] a s1 by (metis snd_conv)
  then show ?thesis
    using a by (cases b) (simp_all add: onHandshakeReq_def Let_def upUDP upUDP_reset s1_def [symmetric])
qed

lemma upUDP_handleHandshake: "seUpUDP (handleHandshake c e i s) \<in> {seUpUDP s, Reset (seUpUDP s)}"
  using upUDP_onHandshakeReq [of c e i s] by (simp add: handleHandshake_def Let_def upUDP)

lemma upUDP_deliverUDP:
  assumes "deliverUDP c e pkt s = Ret s'" shows "seUpUDP s' = seUpUDP s"
  using assms
  by (cases rule: deliverUDP_cases)
    (auto simp: udpForward_def openUDPFlow_def Let_def split: if_splits)

section \<open>Which frames can crash\<close>

definition crashing :: "byte list \<Rightarrow> bool" where
  "crashing b \<longleftrightarrow> parseIPv4 b = Panic"

lemma crashing_iff: "crashing b \<longleftrightarrow> short_total b"
  by (simp add: crashing_def short_total_iff)

lemma deliverUDP_Panic: "deliverUDP c e pkt s = Panic \<longleftrightarrow> crashing pkt"
proof (cases "parseIPv4 pkt")
  case (Ret res)
  then show ?thesis
    by (cases res) (simp_all add: deliverUDP_def crashing_def Let_def split: sum.split option.split prod.split)
qed (simp add: deliverUDP_def crashing_def)

lemma fold_outcome_Panic:
  assumes "\<And>x s. f x s = Panic \<longleftrightarrow> P x"
  shows "fold_outcome f xs s = Panic \<longleftrightarrow> (\<exists>x \<in> set xs. P x)"
proof (induction xs arbitrary: s)
  case (Cons x xs)
  then show ?case using assms [of x s] by (cases "f x s") auto
qed simp

lemma deliverAll_Panic:
  "fold_outcome (deliverUDP c e) pkts s = Panic \<longleftrightarrow> (\<exists>p \<in> set pkts. crashing p)"
  by (rule fold_outcome_Panic) (rule deliverUDP_Panic)

text \<open>No packet that is still waiting can crash.\<close>

definition calm :: "Session \<Rightarrow> bool" where
  "calm s \<longleftrightarrow> (\<forall>p \<in> vals (seUpUDP s). \<not> crashing p)"

lemma calm_upUDP: "calm s \<Longrightarrow> vals (seUpUDP s') \<subseteq> vals (seUpUDP s) \<Longrightarrow> calm s'"
  by (auto simp: calm_def)

lemma deliverAll_upUDP: "fold_outcome (deliverUDP c e) pkts s = Ret s' \<Longrightarrow> seUpUDP s' = seUpUDP s"
  by (induction pkts arbitrary: s) (auto simp: bind_outcome_Ret_iff dest: upUDP_deliverUDP)

lemma handleUDPUp_calm:
  assumes "calm s" and "\<not> crashing (frBody (inFrame i))"
  shows "\<exists>s'. handleUDPUp c e i s = Ret s' \<and> calm s'"
proof -
  obtain r ready where p: "Push (seUpUDP s) (frSeq (inFrame i)) (frBody (inFrame i)) (inAt i) (enNow e (seCalls s)) = (r, ready)"
    by (metis surj_pair)
  have v: "vals r \<union> set ready \<subseteq> insert (frBody (inFrame i)) (vals (seUpUDP s))" using Push_values [OF p] .
  then have ok: "\<forall>x \<in> vals r \<union> set ready. \<not> crashing x" using assms by (auto simp: calm_def)
  have "fold_outcome (deliverUDP c e) ready (asked (s\<lparr>seUpUDP := r\<rparr>)) \<noteq> Panic"
    using ok by (simp add: deliverAll_Panic)
  then obtain s' where s': "fold_outcome (deliverUDP c e) ready (asked (s\<lparr>seUpUDP := r\<rparr>)) = Ret s'"
    by (cases "fold_outcome (deliverUDP c e) ready (asked (s\<lparr>seUpUDP := r\<rparr>))") auto
  have "seUpUDP s' = r" using deliverAll_upUDP [OF s'] by simp
  then have "calm s'" using ok by (simp add: calm_def)
  with s' show ?thesis by (simp add: handleUDPUp_def p)
qed

lemma tickExpireUDP_calm:
  assumes "calm s"
  shows "\<exists>s'. tickExpireUDP c e now s = Ret s' \<and> calm s'"
proof -
  obtain r ready where p: "Expire (seUpUDP s) now (enNow e (seCalls s)) = (r, ready)" by (metis surj_pair)
  have ok: "\<forall>x \<in> vals r \<union> set ready. \<not> crashing x" using assms Expire_values [OF p] by (auto simp: calm_def)
  have "fold_outcome (deliverUDP c e) ready (asked (s\<lparr>seUpUDP := r\<rparr>)) \<noteq> Panic"
    using ok by (simp add: deliverAll_Panic)
  then obtain s' where s': "fold_outcome (deliverUDP c e) ready (asked (s\<lparr>seUpUDP := r\<rparr>)) = Ret s'"
    by (cases "fold_outcome (deliverUDP c e) ready (asked (s\<lparr>seUpUDP := r\<rparr>))") auto
  have "seUpUDP s' = r" using deliverAll_upUDP [OF s'] by simp
  then have "calm s'" using ok by (simp add: calm_def)
  with s' show ?thesis by (simp add: tickExpireUDP_def p)
qed

lemma calm_ticks:
  "calm s \<Longrightarrow> calm (tickMissingTCP c e now s)" "calm s \<Longrightarrow> calm (tickMissingUDP c e now s)"
  "calm s \<Longrightarrow> calm (tickExpireTCP c e now s)" "calm s \<Longrightarrow> calm (tickAcks c e now s)"
  "calm s \<Longrightarrow> calm (tickReports c now s)" "calm s \<Longrightarrow> calm (tickKeepalive c e now s)"
  "calm s \<Longrightarrow> calm (reapFlows c now s)"
proof -
  have m: "vals (fst (Missing (seUpUDP s) now 50)) = vals (seUpUDP s)" by simp
  assume c: "calm s"
  show "calm (tickMissingTCP c e now s)" using c
    by (auto simp: calm_def tickMissingTCP_def requestRetransmit_def bumpRequested_def Let_def upUDP split: prod.split)
  show "calm (tickMissingUDP c e now s)" using c m
    by (cases "Missing (seUpUDP s) now 50")
      (simp add: calm_def tickMissingUDP_def requestRetransmit_def bumpRequested_def Let_def upUDP)
  show "calm (tickExpireTCP c e now s)" using c
    by (simp add: calm_def tickExpireTCP_def upUDP split: prod.split)
  show "calm (tickAcks c e now s)" using c
    by (simp add: calm_def tickAcks_def Let_def upUDP split: option.split)
  show "calm (tickReports c now s)" using c by (simp add: calm_def tickReports_def Let_def)
  show "calm (tickKeepalive c e now s)" using c
    by (simp add: calm_def tickKeepalive_def fold_keeps [where g = seUpUDP] upUDP split: prod.split)
  show "calm (reapFlows c now s)" using c
    by (simp add: calm_def reapFlows_def reapFlow_def fold_keeps [where g = seUpUDP] upUDP split: prod.split)
qed

lemma tick_calm:
  assumes "calm s" shows "\<exists>s'. tick c e now s = Ret s' \<and> calm s'"
proof -
  obtain s1 where s1: "tickExpireUDP c e now (tickExpireTCP c e now (tickMissingUDP c e now (tickMissingTCP c e now s))) = Ret s1"
      "calm s1"
    using tickExpireUDP_calm [OF calm_ticks(3) [OF calm_ticks(2) [OF calm_ticks(1) [OF assms]]]] by blast
  then show ?thesis by (simp add: tick_def calm_ticks)
qed

lemma sessionStep_calm:
  assumes "calm s" and "\<And>i. ev = EvFrame i \<Longrightarrow> frType (inFrame i) = TypeUDP \<Longrightarrow> \<not> crashing (frBody (inFrame i))"
  shows "\<exists>s'. sessionStep c e ev s = Ret s' \<and> calm s'"
proof (cases ev)
  case (EvFrame i)
  let ?s = "setLeg (inLeg i) ((seHeap s (inLeg i))\<lparr>lgLastRx := inAt i\<rparr>) (modStats (\<lambda>x. x\<lparr>sxFramesIn := sxFramesIn x + 1\<rparr>) s)"
  have c: "calm ?s" using assms(1) by (simp add: calm_def)
  have h: "calm (handleHandshake c e i ?s)"
    using calm_upUDP [OF c, of "handleHandshake c e i ?s"] upUDP_handleHandshake [of c e i ?s] by auto
  show ?thesis
    using c h handleUDPUp_calm [OF c, of i c e] assms(2) [OF EvFrame]
    by (auto simp: EvFrame handleFrame_def Let_def calm_def upUDP split del: if_split split: if_splits)
next
  case (EvTick now)
  then show ?thesis using tick_calm [OF assms(1)] by simp
qed (use assms(1) in \<open>simp_all add: calm_def upUDP\<close>)

lemma handleFrame_crash:
  assumes "frType (inFrame i) = TypeUDP" and "short_total (frBody (inFrame i))"
    and "rStarted (seUpUDP s)" and "frSeq (inFrame i) = rNext (seUpUDP s)"
  shows "handleFrame c e i s = Panic"
proof -
  let ?s = "setLeg (inLeg i) ((seHeap s (inLeg i))\<lparr>lgLastRx := inAt i\<rparr>) (modStats (\<lambda>x. x\<lparr>sxFramesIn := sxFramesIn x + 1\<rparr>) s)"
  obtain r ready where p: "Push (seUpUDP s) (frSeq (inFrame i)) (frBody (inFrame i)) (inAt i) (enNow e (seCalls s)) = (r, ready)"
    by (metis surj_pair)
  have "frBody (inFrame i) \<in> set ready"
    using Push_next [OF assms(3,4) p] by auto
  then have "handleUDPUp c e i ?s = Panic"
    using assms(2) by (auto simp: handleUDPUp_def p deliverAll_Panic crashing_iff)
  then show ?thesis using assms(1) by (simp add: handleFrame_def Let_def)
qed

text \<open>
  C9: one malformed packet crashes the process, and nothing else does. A session run from
  creation returns, whatever its frames, upstream data and ticks are, unless a type-0 frame
  among them carries an IPv4 packet whose total length is below its header length; and any
  session whose UDP space has started panics on such a frame when its number is the next.
\<close>

theorem session_crash:
  assumes "list_all (\<lambda>ev. \<forall>i. ev = EvFrame i \<and> frType (inFrame i) = TypeUDP \<longrightarrow> \<not> short_total (frBody (inFrame i))) evs"
  shows "(\<exists>s. run c e evs (newSession c tun now heap) = Ret s)
    \<and> (frType (inFrame i) = TypeUDP \<and> short_total (frBody (inFrame i)) \<and> rStarted (seUpUDP s')
        \<and> frSeq (inFrame i) = rNext (seUpUDP s') \<longrightarrow> handleFrame c e i s' = Panic)"
proof -
  have "\<exists>s'. fold_outcome (sessionStep c e) evs s = Ret s' \<and> calm s'" if "calm s" for s
    using that assms
  proof (induction evs arbitrary: s)
    case (Cons ev evs)
    have "\<exists>s'. sessionStep c e ev s = Ret s' \<and> calm s'"
      using Cons.prems by (intro sessionStep_calm) (auto simp: crashing_iff)
    then show ?case using Cons by auto
  qed simp
  moreover have "calm (newSession c tun now heap)" by (simp add: calm_def newSession_def)
  ultimately show ?thesis unfolding run_def using handleFrame_crash by blast
qed

lemma session_crash_witness:
  "short_total [0x45, 0, 0, 10, 0, 0, 0, 0, 64, 17, 0, 0, 10, 0, 0, 2, 8, 8, 8, 8]
   \<and> (\<exists>s. run exConfig exEnv [EvFrame \<lparr>inLeg = 0, inFrame = mkFrame TypeUDP 0 7 [1, 2], inAt = 9\<rparr>] (newSession exConfig 1 5 exHeap) = Ret s)
   \<and> handleFrame exConfig exEnv
       \<lparr>inLeg = 0, inFrame = mkFrame TypeUDP 0 7 [0x45, 0, 0, 10, 0, 0, 0, 0, 64, 17, 0, 0, 10, 0, 0, 2, 8, 8, 8, 8], inAt = 9\<rparr>
       (exSession\<lparr>seUpUDP := (seUpUDP exSession)\<lparr>rStarted := True, rNext := 7\<rparr>\<rparr>) = Panic"
proof -
  let ?b = "[0x45, 0, 0, 10, 0, 0, 0, 0, 64, 17, 0, 0, 10, 0, 0, 2, 8, 8, 8, 8] :: byte list"
  have bad: "short_total ?b" by (simp add: short_total_def ip_header_ok_def beU16_def)
  have good: "\<not> short_total [1, 2]" by (simp add: short_total_def ip_header_ok_def)
  show ?thesis
    using session_crash [of "[EvFrame \<lparr>inLeg = 0, inFrame = mkFrame TypeUDP 0 7 [1, 2], inAt = 9\<rparr>]" exConfig exEnv 1 5 exHeap
        "\<lparr>inLeg = 0, inFrame = mkFrame TypeUDP 0 7 ?b, inAt = 9\<rparr>"
        "exSession\<lparr>seUpUDP := (seUpUDP exSession)\<lparr>rStarted := True, rNext := 7\<rparr>\<rparr>"] bad good
    by simp
qed

section \<open>Handshakes\<close>

lemma fold_emit: "fold (\<lambda>x. emit (g x)) xs s = s\<lparr>seOut := seOut s @ map g xs\<rparr>"
  by (induction xs arbitrary: s) (simp_all add: emit_def)

lemma closeFlows_eq: "closeFlows s = s\<lparr>seOut := seOut s @ map (\<lambda>(k, f). FlowClose f) (seFlows s)\<rparr>"
  using fold_emit [of "\<lambda>(k, f). FlowClose f" "seFlows s" s] by (simp add: closeFlows_def case_prod_unfold)

definition udpCloses :: "(udpKey \<times> udpFlow) list \<Rightarrow> effect list" where
  "udpCloses m = map (\<lambda>(k, f). UdpClose (ufKey f)) (filter (\<lambda>(k, f). \<not> ufClosed f) m)"

lemma closeUdpFlows_eq: "closeUdpFlows s = s\<lparr>seOut := seOut s @ udpCloses (seUdpFlows s)\<rparr>"
proof -
  have "fold (\<lambda>(k, f). udpClose f) m s = s\<lparr>seOut := seOut s @ udpCloses m\<rparr>" for m
    by (induction m arbitrary: s) (auto simp: udpCloses_def udpClose_def emit_def)
  then show ?thesis by (simp add: closeUdpFlows_def)
qed

lemma resetForHandshake_eq:
  "resetForHandshake c s = s\<lparr>seUpTCP := Reset (seUpTCP s), seUpUDP := Reset (seUpUDP s),
     seDownTCPSeq := 0, seDownUDPSeq := 0,
     seStashTCP := newStash (cfStashLimit c), seStashUDP := newStash (cfStashLimit c), seFlows := [], seUdpFlows := [],
     seOut := seOut s @ map (\<lambda>(k, f). FlowClose f) (seFlows s) @ udpCloses (seUdpFlows s)\<rparr>"
  by (simp add: resetForHandshake_def Let_def closeFlows_eq closeUdpFlows_eq)

text \<open>Who is let in.\<close>

definition allowed :: "Config \<Rightarrow> byte list \<Rightarrow> bool" where
  "allowed c body \<longleftrightarrow> cfAllowedDevices c = [] \<or>
     (case ParseHandshakeReq body of Inl err \<Rightarrow> False
      | Inr req \<Rightarrow> map_of (cfAllowedDevices c) (macText (hrMAC req)) = Some True)"

text \<open>A handshake request up to the decision: counted, and the identity in its body noted.\<close>

definition introduced :: "inbound \<Rightarrow> Session \<Rightarrow> Session" where
  "introduced i s =
     (let s = setLeg (inLeg i) ((seHeap s (inLeg i))\<lparr>lgLastRx := inAt i\<rparr>) (modStats (\<lambda>x. x\<lparr>sxFramesIn := sxFramesIn x + 1\<rparr>) s);
          s = modStats (\<lambda>x. x\<lparr>sxHandshakes := sxHandshakes x + 1\<rparr>) s
      in case ParseHandshakeReq (frBody (inFrame i)) of
           Inl err \<Rightarrow> s
         | Inr req \<Rightarrow> s\<lparr>seClientMAC := hrMAC req, seClientTunIP := Some (hrIcgID req)\<rparr>)"

lemma introduced_fields [simp]:
  "seOut (introduced i s) = seOut s" "seState (introduced i s) = seState s" "seUpTCP (introduced i s) = seUpTCP s"
  "seUpUDP (introduced i s) = seUpUDP s" "seDownTCPSeq (introduced i s) = seDownTCPSeq s"
  "seDownUDPSeq (introduced i s) = seDownUDPSeq s" "seStashTCP (introduced i s) = seStashTCP s"
  "seStashUDP (introduced i s) = seStashUDP s" "seFlows (introduced i s) = seFlows s" "seUdpFlows (introduced i s) = seUdpFlows s"
  "seTunIP (introduced i s) = seTunIP s" "seFresh (introduced i s) = seFresh s"
  "canWrite (seHeap (introduced i s)) l = canWrite (seHeap s) l"
  by (simp_all add: introduced_def Let_def canWrite_def split: sum.split)

lemma introduced_mac: "ParseHandshakeReq (frBody (inFrame i)) = Inr req \<Longrightarrow> seClientMAC (introduced i s) = hrMAC req"
  by (simp add: introduced_def Let_def)

lemma handshake_frame:
  assumes "frType (inFrame i) = TypeHandshake" and "frOpcode (inFrame i) = HSReqWithConfig"
  shows "handleFrame c e i s = Ret (if allowed c (frBody (inFrame i))
    then writeRaw e (inLeg i) (Encode (stamp c s (mkFrame TypeHandshake HSServerAck 0 [])))
           (bumpOut ((resetForHandshake c ((introduced i s)\<lparr>seAdmitted := True\<rparr>))\<lparr>seState := StateSrvReady\<rparr>))
    else refuse (introduced i s))"
proof -
  let ?res = "ParseHandshakeReq (frBody (inFrame i))"
  have "checkAdmission c (\<not> isl ?res) (introduced i s) =
      (if allowed c (frBody (inFrame i)) then (True, (introduced i s)\<lparr>seAdmitted := True\<rparr>) else (False, refuse (introduced i s)))"
    using introduced_mac [of i _ s] by (auto simp: allowed_def checkAdmission_def split: sum.splits)
  moreover have "handleFrame c e i s = Ret (case checkAdmission c (\<not> isl ?res) (introduced i s) of (False, s) \<Rightarrow> s
      | (True, s) \<Rightarrow> sendOn c e (Some (inLeg i)) (mkFrame TypeHandshake HSServerAck 0 [])
          ((resetForHandshake c s)\<lparr>seState := StateSrvReady\<rparr>))"
    using assms by (simp add: handleFrame_def handleHandshake_def onHandshakeReq_def introduced_def Let_def split: prod.split bool.split)
  ultimately show ?thesis by (simp add: sendOn_def stamp_def resetForHandshake_eq)
qed

text \<open>
  C10: admission and reset. A handshake request is answered exactly when no allow list is
  configured or the list holds the MAC that the request's body parses to; then the session is
  as new: both reassemblers, both numberings, both stashes and both flow tables restarted,
  every old flow closed once and one acknowledgement sent on the leg that asked. Otherwise
  the device hears nothing, one notice is raised, and flows, numberings, stashes and
  handshake state stay as they were.
\<close>

theorem handshake_admission:
  assumes "frType (inFrame i) = TypeHandshake" and "frOpcode (inFrame i) = HSReqWithConfig"
    and "handleFrame c e i s = Ret s'"
  shows "if allowed c (frBody (inFrame i))
     then seAdmitted s' \<and> seState s' = StateSrvReady
       \<and> seUpTCP s' = Reset (seUpTCP s) \<and> seUpUDP s' = Reset (seUpUDP s)
       \<and> seDownTCPSeq s' = 0 \<and> seDownUDPSeq s' = 0
       \<and> seStashTCP s' = newStash (cfStashLimit c) \<and> seStashUDP s' = newStash (cfStashLimit c)
       \<and> seFlows s' = [] \<and> seUdpFlows s' = []
       \<and> seOut s' = seOut s @ map (\<lambda>(k, f). FlowClose f) (seFlows s) @ udpCloses (seUdpFlows s)
           @ (if canWrite (seHeap s) (inLeg i)
              then [LegWrite (inLeg i) (Encode (stamp c s (mkFrame TypeHandshake HSServerAck 0 [])))] else [])
     else \<not> seAdmitted s' \<and> (\<exists>peer. seOut s' = seOut s @ [Notice ''device-refused'' peer])
       \<and> seState s' = seState s \<and> seUpTCP s' = seUpTCP s \<and> seUpUDP s' = seUpUDP s
       \<and> seDownTCPSeq s' = seDownTCPSeq s \<and> seDownUDPSeq s' = seDownUDPSeq s
       \<and> seStashTCP s' = seStashTCP s \<and> seStashUDP s' = seStashUDP s
       \<and> seFlows s' = seFlows s \<and> seUdpFlows s' = seUdpFlows s"
proof (cases "allowed c (frBody (inFrame i))")
  case True
  then show ?thesis
    using assms(3) handshake_frame [OF assms(1,2), of c e s] by (auto simp: writeRaw_same writeRaw_out resetForHandshake_eq)
next
  case False
  then show ?thesis
    using assms(3) handshake_frame [OF assms(1,2), of c e s] by (auto simp: refuse_def Let_def)
qed

lemma handshake_admission_witness:
  "\<exists>s'. handleFrame exConfig exEnv \<lparr>inLeg = 0, inFrame = mkFrame TypeHandshake HSReqWithConfig 0 [], inAt = 9\<rparr>
       (exSession\<lparr>seFlows := [(exFlow, 4)]\<rparr>) = Ret s' \<and> seState s' = StateSrvReady \<and> seFlows s' = []
     \<and> FlowClose 4 \<in> set (seOut s')"
proof -
  let ?i = "\<lparr>inLeg = 0, inFrame = mkFrame TypeHandshake HSReqWithConfig 0 [], inAt = 9\<rparr>"
  let ?s = "exSession\<lparr>seFlows := [(exFlow, 4)]\<rparr>"
  obtain s' where r: "handleFrame exConfig exEnv ?i ?s = Ret s'" by (simp add: handleFrame_def Let_def)
  have "allowed exConfig []" by (simp add: allowed_def exConfig_def)
  then have "seState s' = StateSrvReady \<and> seFlows s' = [] \<and> FlowClose 4 \<in> set (seOut s')"
    using handshake_admission [of ?i exConfig exEnv ?s s'] r by simp
  with r show ?thesis by blast
qed

end
