(* ===== verification/Session_Streams.thy ===== *)
theory Session_Streams
  imports Session_Up
begin

text \<open>
  What a session does with the user's traffic: a TCP stream goes up byte for byte through
  the reassembler, a UDP packet and its answer are translated there and back; and two
  things the code does not prevent: traffic of a device that was not admitted, and the end
  of an old socket closing a new flow.
\<close>

section \<open>The trace only grows\<close>

definition extends :: "Session \<Rightarrow> Session \<Rightarrow> bool" where
  "extends s s' \<longleftrightarrow> (\<exists>x. seOut s' = seOut s @ x) \<and> seAdmitted s' = seAdmitted s"

lemma extends_refl [simp]: "extends s s"
  by (simp add: extends_def)

lemma extends_trans [trans]: "extends s s' \<Longrightarrow> extends s' s'' \<Longrightarrow> extends s s''"
  by (auto simp: extends_def)

lemma extends_in: "extends s s' \<Longrightarrow> x \<in> set (seOut s) \<Longrightarrow> x \<in> set (seOut s')"
  by (auto simp: extends_def)

lemma sendTCPDown_extends: "extends s (sendTCPDown c e flow opc data s)"
  using sendTCPDown_trace(1) [of c e flow opc data s]
  by (simp add: extends_def sendTCPDown_def Let_def writeMaybe_def writeRaw_same split: option.split)

lemma dropFlow_extends: "extends s (dropFlow flow s)"
  by (simp add: extends_def dropFlow_def split: option.split)

lemma enqueue_extends: "extends s (enqueue fid b s)"
  by (simp add: extends_def enqueue_def)

lemma openFlow_extends: "extends s (snd (openFlow c e flow s))"
  using sendTCPDown_extends [of s c e flow TCPDisconnect "[]"]
  by (auto simp: openFlow_def Let_def extends_def split: option.split)

lemma deliverTCP_extends: "extends s (deliverTCP c e ch s)"
proof -
  obtain r s1 where o: "openFlow c e (tcFlow ch) s = (r, s1)" by (metis surj_pair)
  have "extends s s1" using openFlow_extends [of s c e "tcFlow ch"] o by simp
  then show ?thesis
    using o enqueue_extends extends_trans
    by (auto simp: deliverTCP_def dropFlow_extends enqueue_extends split: option.split)
qed

lemma deliverAll_extends: "extends s (fold (deliverTCP c e) chs s)"
  by (induction chs arbitrary: s) (auto intro: extends_trans deliverTCP_extends)

section \<open>Admission is not consulted\<close>

text \<open>
  C17: a session that was never admitted still proxies. Whether or not a handshake was
  accepted, refused or never sent, a type-1 frame with the next number that asks for a
  connection makes the session dial the address it names; the allow list stops the answer to
  the handshake only.
\<close>

theorem unadmitted_still_dials:
  assumes "\<not> seAdmitted s" and "frType (inFrame i) = TypeTCPUp"
    and "ParseTCPBody (frBody (inFrame i)) = Inr t" and "tbOpcode t = TCPConnect"
    and "rStarted (seUpTCP s)" and "tbSeq t = rNext (seUpTCP s)"
    and "map_of (seFlows s) (UpFlow t) = None" and "int (length (seFlows s)) < cfMaxFlowsPerSession c"
    and "handleFrame c e i s = Ret s'"
  shows "FlowDial (seFresh s) (UpFlow t) \<in> set (seOut s') \<and> \<not> seAdmitted s'"
proof -
  let ?s = "setLeg (inLeg i) ((seHeap s (inLeg i))\<lparr>lgLastRx := inAt i\<rparr>) (modStats (\<lambda>x. x\<lparr>sxFramesIn := sxFramesIn x + 1\<rparr>) s)"
  let ?ch = "\<lparr>tcFlow = UpFlow t, tcOp = tbOpcode t, tcData = tbData t\<rparr>"
  obtain r ready where p: "Push (seUpTCP s) (tbSeq t) ?ch (inAt i) (enNow e (seCalls s)) = (r, ready)" by (metis surj_pair)
  obtain rest where rest: "ready = ?ch # rest" using Push_next [OF assms(5,6) p] by blast
  let ?s1 = "deliverTCP c e ?ch (asked (?s\<lparr>seUpTCP := r\<rparr>))"
  have s': "s' = fold (deliverTCP c e) rest ?s1"
    using assms(2,3,9) by (simp add: handleFrame_def handleTCPUp_def Let_def p rest)
  have one: "FlowDial (seFresh s) (UpFlow t) \<in> set (seOut ?s1)" "\<not> seAdmitted ?s1"
    using assms(1,4,7,8) by (simp_all add: deliverTCP_def openFlow_def Let_def)
  then show ?thesis
    using deliverAll_extends [of ?s1 c e rest] extends_in by (auto simp: s' extends_def)
qed

lemma unadmitted_still_dials_witness:
  "\<exists>s'. handleFrame exConfig exEnv
       \<lparr>inLeg = 0, inFrame = mkFrame TypeTCPUp 0 0 (tcpAppendTo \<lparr>tbSeq = 7, tbOpcode = TCPConnect,
          tbSrc = flClient exFlow, tbDst = flServer exFlow, tbData = []\<rparr> []), inAt = 9\<rparr>
       (exSession\<lparr>seUpTCP := (seUpTCP exSession)\<lparr>rStarted := True, rNext := 7\<rparr>\<rparr>) = Ret s'
     \<and> FlowDial 0 exFlow \<in> set (seOut s') \<and> \<not> seAdmitted s'"
proof -
  let ?t = "\<lparr>tbSeq = 7, tbOpcode = TCPConnect, tbSrc = flClient exFlow, tbDst = flServer exFlow, tbData = []\<rparr>"
  let ?i = "\<lparr>inLeg = 0, inFrame = mkFrame TypeTCPUp 0 0 (tcpAppendTo ?t []), inAt = 9\<rparr>"
  let ?s = "exSession\<lparr>seUpTCP := (seUpTCP exSession)\<lparr>rStarted := True, rNext := 7\<rparr>\<rparr>"
  obtain s' where r: "handleFrame exConfig exEnv ?i ?s = Ret s'" by (simp add: handleFrame_def Let_def)
  have p: "ParseTCPBody (tcpAppendTo ?t []) = Inr ?t" using ParseTCPBody_append [of ?t] by simp
  have "FlowDial 0 exFlow \<in> set (seOut s') \<and> \<not> seAdmitted s'"
    using unadmitted_still_dials [of ?s ?i ?t exConfig exEnv s'] r p
    by (simp add: exSession_def newSession_def exConfig_def UpFlow_def)
  with r show ?thesis by blast
qed

section \<open>The end of an old socket\<close>

text \<open>
  C18: the end of an old socket closes a new flow. Events from the upstream sockets name
  their flow by its addresses only. When the device closes a connection and opens one with
  the same addresses again, the end that the old socket's reader reports afterwards closes
  the new flow, forgets it and tells the device it is disconnected.
\<close>

theorem stale_close_drops_new_flow:
  assumes "map_of (seFlows s) flow = Some old" and "int (length (seFlows s)) \<le> cfMaxFlowsPerSession c"
    and "s2 = deliverTCP c e \<lparr>tcFlow = flow, tcOp = TCPConnect, tcData = d2\<rparr>
                (deliverTCP c e \<lparr>tcFlow = flow, tcOp = TCPDisconnect, tcData = d1\<rparr> s)"
    and "s3 = handleUpstream c e (last (readPump flow reads)) s2"
  shows "map_of (seFlows s2) flow = Some (seFresh s) \<and> map_of (seFlows s3) flow = None
    \<and> seOut s3 = seOut s @ [FlowClose old, FlowDial (seFresh s) flow, FlowClose (seFresh s)]
        @ downOut ''tcp'' s [tcpDownFrame c (seTunIP s) (seDownTCPSeq s) flow TCPDisconnect []]"
proof -
  let ?s1 = "(emit (FlowClose old) s)\<lparr>seFlows := AList.delete flow (seFlows s)\<rparr>"
  have room: "int (length (AList.delete flow (seFlows s))) < cfMaxFlowsPerSession c"
    using length_delete_less [OF assms(1)] assms(2) by linarith
  have s1: "deliverTCP c e \<lparr>tcFlow = flow, tcOp = TCPDisconnect, tcData = d1\<rparr> s = ?s1"
    using assms(1) by (simp add: deliverTCP_def dropFlow_def)
  have s2: "s2 = emit (FlowDial (seFresh s) flow) (modStats (\<lambda>x. x\<lparr>sxTCPFlows := sxTCPFlows x + 1\<rparr>)
      (?s1\<lparr>seFresh := seFresh s + 1, seFlows := AList.update flow (seFresh s) (AList.delete flow (seFlows s))\<rparr>))"
    using room unfolding assms(3) s1 by (simp add: deliverTCP_def openFlow_def Let_def)
  have m2: "map_of (seFlows s2) flow = Some (seFresh s)" by (simp add: s2)
  let ?s3 = "dropFlow flow s2"
  have s3: "s3 = sendTCPDown c e flow TCPDisconnect [] ?s3"
    by (simp add: assms(4) readPump_def handleUpstream_def Let_def)
  have f2: "seOut s2 = seOut s @ [FlowClose old, FlowDial (seFresh s) flow]" "seHeap s2 = seHeap s" "seLegs s2 = seLegs s"
    "seTunIP s2 = seTunIP s" "seDownTCPSeq s2 = seDownTCPSeq s" by (simp_all add: s2)
  have d: "?s3 = (emit (FlowClose (seFresh s)) s2)\<lparr>seFlows := AList.delete flow (seFlows s2)\<rparr>"
    by (simp add: dropFlow_def m2)
  have f: "seFlows s3 = seFlows ?s3"
    by (simp add: s3 sendTCPDown_def Let_def writeMaybe_def writeRaw_same split: option.split)
  have h: "downOut ''tcp'' ?s3 fs = downOut ''tcp'' s fs" for fs
    by (rule downOut_same) (simp_all add: d f2)
  have "seOut s3 = seOut ?s3 @ downOut ''tcp'' s [tcpDownFrame c (seTunIP s) (seDownTCPSeq s) flow TCPDisconnect []]"
    using sendTCPDown_trace(1) [of c e flow TCPDisconnect "[]" ?s3] h unfolding s3 by (simp add: d f2)
  then show ?thesis using m2 f by (simp add: d f2)
qed

lemma stale_close_drops_new_flow_witness:
  "\<exists>s2 s3. map_of (seFlows s2) exFlow = Some 0
     \<and> s3 = handleUpstream exConfig exEnv (last (readPump exFlow [])) s2 \<and> map_of (seFlows s3) exFlow = None
     \<and> FlowClose 0 \<in> set (seOut s3)"
proof -
  let ?s = "exSession\<lparr>seFlows := [(exFlow, 9)]\<rparr>"
  have n: "seFresh ?s = 0" by (simp add: exSession_def newSession_def)
  show ?thesis
    using stale_close_drops_new_flow [of ?s exFlow 9 exConfig _ exEnv "[]" "[]" _ "[]", OF _ _ refl refl] n
    by (fastforce simp: exConfig_def)
qed

section \<open>UDP there and back\<close>

text \<open>
  C16: a datagram and its answer are translated there and back. When a tunnelled packet
  parses as UDP, its data goes out, unchanged, on the socket of its address pair, dialled
  first if there is none and room is left; and what that socket receives comes back as one
  packet that parses to exactly the answer, from the outside host to the inside host, with
  both checksums right.
\<close>

theorem udp_nat_roundtrip:
  assumes "parseIPv4 pkt = Ret (Inr ip)" and "ipProto ip = protoUDP" and "parseUDP ip = Inr d"
    and "key = UdpKey (udSrc d) (udDst d)"
    and "map_of (seUdpFlows s) key \<noteq> None \<or> int (length (seUdpFlows s)) < cfMaxFlowsPerSession c \<and> enDialOK e (seCalls s)"
    and "ufKey f = key" and "answer \<noteq> []" and "length answer \<le> 65507"
  shows "(\<exists>s'. deliverUDP c e pkt s = Ret s' \<and> map_of (seUdpFlows s') key \<noteq> None
      \<and> seOut s' = seOut s @ (if map_of (seUdpFlows s) key = None then [UdpDial key True] else []) @ [UdpWrite key (udData d)])
    \<and> (\<exists>u p. udpReadPump f [(answer, None)] = [u] \<and> \<not> upIsTCP u \<and> parseIPv4 (upPacket u) = Ret (Inr p)
      \<and> parseUDP p = Inr \<lparr>udSrc = udDst d, udDst = udSrc d, udData = answer\<rparr>
      \<and> checksum (take 20 (upPacket u)) = 0
      \<and> udpSum (as4 (apAddr (udDst d))) (as4 (apAddr (udSrc d))) (drop 20 (upPacket u)) = 0xffff)"
proof -
  have "\<exists>s'. deliverUDP c e pkt s = Ret s' \<and> map_of (seUdpFlows s') key \<noteq> None
      \<and> seOut s' = seOut s @ (if map_of (seUdpFlows s) key = None then [UdpDial key True] else []) @ [UdpWrite key (udData d)]"
  proof (cases "map_of (seUdpFlows s) key")
    case (Some g)
    then show ?thesis using assms(1-4) by (simp add: deliverUDP_def Let_def udpForward_def)
  next
    case None
    then show ?thesis
      using assms(1-5) by (simp add: deliverUDP_def Let_def udpForward_def openUDPFlow_def)
  qed
  moreover
  let ?pkt = "buildUDPPacket (udDst d) (udSrc d) (ufIpID f + 1) 64 answer"
  have "\<exists>u. udpReadPump f [(answer, None)] = [u] \<and> \<not> upIsTCP u \<and> upPacket u = ?pkt"
    using assms(4,6,7) by (simp add: Let_def udpReply_def)
  moreover have "\<exists>p. parseIPv4 ?pkt = Ret (Inr p) \<and> parseUDP p = Inr \<lparr>udSrc = udDst d, udDst = udSrc d, udData = answer\<rparr>"
    using udp_packet_parses [OF assms(8) refl] by blast
  moreover note udp_packet_checks [OF assms(8) refl, of "udDst d" "udSrc d" "ufIpID f + 1" 64]
  ultimately show ?thesis by metis
qed

lemma udp_nat_roundtrip_witness:
  "\<exists>s' u. deliverUDP exConfig exEnv [0x45, 0, 0, 29, 0, 7, 0, 0, 64, 17, 0, 0, 10, 0, 0, 2, 8, 8, 8, 8, 0x9c, 0x40, 0, 53, 0, 9, 0, 0, 1]
       exSession = Ret s'
     \<and> seOut s' = [UdpDial (UdpKey (AddrPort 0x0a000002 40000) (AddrPort 0x08080808 53)) True,
         UdpWrite (UdpKey (AddrPort 0x0a000002 40000) (AddrPort 0x08080808 53)) [1]]
     \<and> udpReadPump \<lparr>ufKey = UdpKey (AddrPort 0x0a000002 40000) (AddrPort 0x08080808 53), ufLastUse = 0, ufClosed = False, ufIpID = 7\<rparr>
         [([2, 3], None)] = [u] \<and> checksum (take 20 (upPacket u)) = 0"
proof -
  let ?pkt = "[0x45, 0, 0, 29, 0, 7, 0, 0, 64, 17, 0, 0, 10, 0, 0, 2, 8, 8, 8, 8, 0x9c, 0x40, 0, 53, 0, 9, 0, 0, 1] :: byte list"
  let ?ip = "\<lparr>ipSrc = 0x0a000002, ipDst = 0x08080808, ipProto = 17, ipTTL = 64, ipID = 7,
    ipPayload = [0x9c, 0x40, 0, 53, 0, 9, 0, 0, 1]\<rparr>"
  let ?d = "\<lparr>udSrc = AddrPort 0x0a000002 40000, udDst = AddrPort 0x08080808 53, udData = [1]\<rparr>"
  let ?k = "UdpKey (AddrPort 0x0a000002 40000) (AddrPort 0x08080808 53)"
  let ?f = "\<lparr>ufKey = ?k, ufLastUse = 0, ufClosed = False, ufIpID = 7\<rparr>"
  have ip: "parseIPv4 ?pkt = Ret (Inr ?ip)"
    by (simp add: parseIPv4_def go_slice_def beU16_def addr4_def beU32_def)
  have d: "parseUDP ?ip = Inr ?d" by (simp add: parseUDP_def beU16_def)
  show ?thesis
    using udp_nat_roundtrip [of ?pkt ?ip ?d ?k exSession exConfig exEnv ?f "[2, 3]"] ip d
    by (auto simp: exSession_def newSession_def exConfig_def exEnv_def)
qed

text \<open>
  C21: an answer too large for the frame format is lost to the device, number and all. A
  packet above 8182 bytes is numbered, stored and written like any other, but the bytes
  written are a frame that every receiver with the same codec refuses, now and at each
  retransmission.
\<close>

theorem oversized_answer_refused:
  assumes "8182 < length pkt" and "length pkt \<le> 65535" and "s' = sendUDPDown c e pkt s"
  shows "\<exists>b. seOut s' = seOut s @ downOut ''udp'' s [b] \<and> seStashUDP s' = put (seDownUDPSeq s) b (seStashUDP s)
    \<and> seDownUDPSeq s' = seDownUDPSeq s + 1 \<and> Decode (b @ rest) (cfMagic c) = Inl ErrBodyLen"
proof -
  let ?f = "\<lparr>frMagic = cfMagic c, frIcgID = seTunIP s, frType = TypeUDP, frOpcode = 0, frSeq = seDownUDPSeq s, frBody = pkt\<rparr>"
  let ?b = "Encode ?f"
  let ?s = "bumpOut (s\<lparr>seDownUDPSeq := seDownUDPSeq s + 1, seStashUDP := put (seDownUDPSeq s) ?b (seStashUDP s)\<rparr>)"
  have "pkt \<noteq> []" using assms(1) by auto
  then have eq: "s' = writeMaybe e (sessionPickLeg ''udp'' ?s) ?b ?s"
    by (simp add: assms(3) sendUDPDown_def Let_def stamp_def mkFrame_def)
  have "same_rank (seHeap ?s) (seHeap s)" "seLegs ?s = seLegs s" by simp_all
  note w = writeMaybe_down(1) [OF this, where e = e and b = ?b and kind = "''udp''"]
  have "Decode (Encode (?f\<lparr>frMagic := effMagic (cfMagic c)\<rparr>) @ rest) (cfMagic c) = Inl ErrBodyLen"
    using assms(1,2) by (intro Decode_oversize) simp_all
  then have "Decode (?b @ rest) (cfMagic c) = Inl ErrBodyLen" using Encode_magic [of ?f] by simp
  then show ?thesis
    using w writeMaybe_down(5,8) [OF \<open>same_rank (seHeap ?s) (seHeap s)\<close> \<open>seLegs ?s = seLegs s\<close>]
    by (intro exI [of _ ?b]) (simp add: eq)
qed

lemma oversized_answer_refused_witness:
  "\<exists>b. Decode b 0x12345678 = Inl ErrBodyLen
     \<and> seStashUDP (sendUDPDown exConfig exEnv (replicate 9000 0) exSession) = put 0 b (seStashUDP exSession)"
  using oversized_answer_refused [of "replicate 9000 0" _ exConfig exEnv exSession "[]", OF _ _ refl]
  by (auto simp: exConfig_def exSession_def newSession_def)

section \<open>Streams going up\<close>

text \<open>Segment \<open>k\<close> of a stream, as the device frames it: arriving at a time, on a leg.\<close>

definition upSegment :: "u32 \<Rightarrow> Flow \<Rightarrow> (nat \<Rightarrow> byte list) \<Rightarrow> nat \<times> instant \<times> nat \<Rightarrow> event" where
  "upSegment base flow data item =
     (case item of (k, now, l) \<Rightarrow>
        EvFrame \<lparr>inLeg = l, inFrame = mkFrame TypeTCPUp 0 0 (tcpAppendTo \<lparr>tbSeq = base + of_nat k, tbOpcode = TCPPayload,
          tbSrc = flClient flow, tbDst = flServer flow, tbData = data k\<rparr> []), inAt = now\<rparr>)"

definition payload :: "Flow \<Rightarrow> byte list \<Rightarrow> tcpChunk" where
  "payload flow d = \<lparr>tcFlow = flow, tcOp = TCPPayload, tcData = d\<rparr>"

definition enqueued :: "nat \<Rightarrow> tcpChunk list \<Rightarrow> effect list" where
  "enqueued fid chs = map (\<lambda>ch. FlowEnqueue fid (tcData ch)) (filter (\<lambda>ch. tcData ch \<noteq> []) chs)"

lemma deliver_payloads:
  assumes "set chs \<subseteq> range (payload flow)" and "map_of (seFlows s) flow = Some fid"
  shows "fold (deliverTCP c e) chs s = s\<lparr>seOut := seOut s @ enqueued fid chs\<rparr>"
  using assms
proof (induction chs arbitrary: s)
  case Nil
  then show ?case by (simp add: enqueued_def)
next
  case (Cons ch chs)
  then obtain d where "ch = payload flow d" by auto
  then have "deliverTCP c e ch s = s\<lparr>seOut := seOut s @ enqueued fid [ch]\<rparr>"
    using Cons.prems(2) by (simp add: deliverTCP_def payload_def enqueue_def enqueued_def emit_def)
  then show ?case using Cons by (simp add: enqueued_def)
qed

lemma segment_step:
  assumes "vals (seUpTCP s) \<subseteq> range (payload flow)" and "map_of (seFlows s) flow = Some fid"
  shows "\<exists>wall s'. sessionStep c e (upSegment base flow data (k, now, l)) s = Ret s'
    \<and> seUpTCP s' = fst (Push (seUpTCP s) (base + of_nat k) (payload flow (data k)) now wall)
    \<and> seOut s' = seOut s @ enqueued fid (snd (Push (seUpTCP s) (base + of_nat k) (payload flow (data k)) now wall))
    \<and> seFlows s' = seFlows s \<and> vals (seUpTCP s') \<subseteq> range (payload flow)"
proof -
  let ?wall = "enNow e (seCalls s)"
  let ?t = "\<lparr>tbSeq = base + of_nat k, tbOpcode = TCPPayload, tbSrc = flClient flow, tbDst = flServer flow, tbData = data k\<rparr>"
  let ?s = "setLeg l ((seHeap s l)\<lparr>lgLastRx := now\<rparr>) (modStats (\<lambda>x. x\<lparr>sxFramesIn := sxFramesIn x + 1\<rparr>) s)"
  have pt: "ParseTCPBody (tcpAppendTo ?t []) = Inr ?t" using ParseTCPBody_append [of ?t] by simp
  obtain r ready where p: "Push (seUpTCP s) (base + of_nat k) (payload flow (data k)) now ?wall = (r, ready)" by (metis surj_pair)
  have v: "vals r \<union> set ready \<subseteq> range (payload flow)" using Push_values [OF p] assms(1) by auto
  have "fold (deliverTCP c e) ready (asked (?s\<lparr>seUpTCP := r\<rparr>))
      = (asked (?s\<lparr>seUpTCP := r\<rparr>))\<lparr>seOut := seOut s @ enqueued fid ready\<rparr>"
    using deliver_payloads [of ready flow "asked (?s\<lparr>seUpTCP := r\<rparr>)" fid c e] v assms(2) by simp
  then have "sessionStep c e (upSegment base flow data (k, now, l)) s
      = Ret ((asked (?s\<lparr>seUpTCP := r\<rparr>))\<lparr>seOut := seOut s @ enqueued fid ready\<rparr>)"
    using pt p by (simp add: upSegment_def handleFrame_def handleTCPUp_def Let_def UpFlow_def payload_def)
  then show ?thesis using p v by (intro exI [of _ ?wall]) simp
qed

lemma enqueued_append: "enqueued fid (xs @ ys) = enqueued fid xs @ enqueued fid ys"
  by (simp add: enqueued_def)

lemma run_segments:
  assumes "vals (seUpTCP s) \<subseteq> range (payload flow)" and "map_of (seFlows s) flow = Some fid"
  shows "\<exists>items' s'. run c e (map (upSegment base flow data) items) s = Ret s' \<and> map fst items' = map fst items
    \<and> seUpTCP s' = fst (rrun (pushAll base (\<lambda>k. payload flow (data k)) items') (seUpTCP s))
    \<and> seOut s' = seOut s @ enqueued fid (snd (rrun (pushAll base (\<lambda>k. payload flow (data k)) items') (seUpTCP s)))"
  using assms
proof (induction items arbitrary: s)
  case Nil
  then show ?case by (simp add: run_def pushAll_def enqueued_def)
next
  case (Cons item items)
  obtain k now l where item: "item = (k, now, l)" by (cases item)
  obtain wall s1 where s1: "sessionStep c e (upSegment base flow data (k, now, l)) s = Ret s1"
      "seUpTCP s1 = fst (Push (seUpTCP s) (base + of_nat k) (payload flow (data k)) now wall)"
      "seOut s1 = seOut s @ enqueued fid (snd (Push (seUpTCP s) (base + of_nat k) (payload flow (data k)) now wall))"
      "seFlows s1 = seFlows s" "vals (seUpTCP s1) \<subseteq> range (payload flow)"
    using segment_step [OF Cons.prems, of c e base data k now l] by blast
  obtain items' s' where IH: "run c e (map (upSegment base flow data) items) s1 = Ret s'" "map fst items' = map fst items"
      "seUpTCP s' = fst (rrun (pushAll base (\<lambda>k. payload flow (data k)) items') (seUpTCP s1))"
      "seOut s' = seOut s1 @ enqueued fid (snd (rrun (pushAll base (\<lambda>k. payload flow (data k)) items') (seUpTCP s1)))"
    using Cons.IH [of s1] s1(4,5) Cons.prems(2) by auto
  have r: "rrun (pushAll base (\<lambda>k. payload flow (data k)) ((k, now, wall) # items')) (seUpTCP s) =
      (case Push (seUpTCP s) (base + of_nat k) (payload flow (data k)) now wall of (r1, o1) \<Rightarrow>
       case rrun (pushAll base (\<lambda>k. payload flow (data k)) items') r1 of (r2, o2) \<Rightarrow> (r2, o1 @ o2))"
    by (simp add: pushAll_def)
  show ?case
    using s1 IH
    by (intro exI [of _ "(k, now, wall) # items'"] exI [of _ s'])
      (simp add: item run_def r enqueued_append case_prod_unfold del: rrun.simps)
qed

text \<open>
  A TCP stream goes up byte for byte. When the segments of an open connection arrive on
  any legs, at any times, repeated at will and out of order by at most \<open>MaxPending\<close>, what is
  queued to its upstream socket is the data of the segments in order, each once, up to the
  first that never came, and nothing else leaves the session.
\<close>

lemma uplink_stream_intact:
  assumes "rStarted (seUpTCP s)" and "rPend (seUpTCP s) = []"
    and "0 \<le> rMaxPend (seUpTCP s)" and "rMaxPend (seUpTCP s) < 2 ^ 31"
    and "displaced (nat (rMaxPend (seUpTCP s))) (map fst items)" and "map_of (seFlows s) flow = Some fid"
  shows "\<exists>s'. run c e (map (upSegment (rNext (seUpTCP s)) flow data) items) s = Ret s'
    \<and> seOut s' = seOut s @ map (FlowEnqueue fid) (filter (\<lambda>d. d \<noteq> []) (map data [0..<prefix_len (map fst items)]))"
proof -
  have "vals (seUpTCP s) \<subseteq> range (payload flow)" using assms(2) by (simp add: vals_def)
  from run_segments [OF this assms(6), of c e "rNext (seUpTCP s)" data items] obtain items' s'
    where r: "run c e (map (upSegment (rNext (seUpTCP s)) flow data) items) s = Ret s'" "map fst items' = map fst items"
      "seOut s' = seOut s @ enqueued fid (snd (rrun (pushAll (rNext (seUpTCP s)) (\<lambda>k. payload flow (data k)) items') (seUpTCP s)))"
    by blast
  have "snd (rrun (pushAll (rNext (seUpTCP s)) (\<lambda>k. payload flow (data k)) items') (seUpTCP s))
      = map (\<lambda>k. payload flow (data k)) [0..<prefix_len (map fst items)]"
    using pushAll_lossless [OF assms(1-4), of items' "\<lambda>k. payload flow (data k)"] assms(5) r(2) by simp
  moreover have "enqueued fid (map (\<lambda>k. payload flow (data k)) ks) = map (FlowEnqueue fid) (filter (\<lambda>d. d \<noteq> []) (map data ks))" for ks
    by (induction ks) (simp_all add: enqueued_def payload_def)
  ultimately show ?thesis using r(1,3) by simp
qed

end
