(* ===== verification/Session_Ends.thy ===== *)
theory Session_Ends
  imports Session_Streams
begin

text \<open>
  What a session does about flows that have ended: a TCP flow comes back to life with the
  next data of the device, and a UDP flow whose reader has ended stays as it is.
\<close>

section \<open>Ended TCP flows\<close>

lemma redial:
  assumes "map_of (seFlows s) flow = None" and "int (length (seFlows s)) < cfMaxFlowsPerSession c" and "data \<noteq> []"
  shows "seOut (deliverTCP c e (payload flow data) s) = seOut s @ [FlowDial (seFresh s) flow, FlowEnqueue (seFresh s) data]"
    and "map_of (seFlows (deliverTCP c e (payload flow data) s)) flow = Some (seFresh s)"
  using assms by (simp_all add: deliverTCP_def payload_def openFlow_def enqueue_def Let_def)

lemma upstream_end:
  assumes "map_of (seFlows s) flow = Some f"
  shows "seFlows (handleUpstream c e (last (readPump flow reads)) s) = AList.delete flow (seFlows s)"
    and "seFresh (handleUpstream c e (last (readPump flow reads)) s) = seFresh s"
    and "\<exists>out. seOut (handleUpstream c e (last (readPump flow reads)) s) = seOut s @ FlowClose f # out"
proof -
  let ?s = "(emit (FlowClose f) s)\<lparr>seFlows := AList.delete flow (seFlows s)\<rparr>"
  have h: "handleUpstream c e (last (readPump flow reads)) s = sendTCPDown c e flow TCPDisconnect [] ?s"
    using assms by (simp add: readPump_def handleUpstream_def Let_def dropFlow_def)
  show "seFlows (handleUpstream c e (last (readPump flow reads)) s) = AList.delete flow (seFlows s)"
    "seFresh (handleUpstream c e (last (readPump flow reads)) s) = seFresh s"
    unfolding h by (simp_all add: sendTCPDown_def Let_def writeMaybe_def writeRaw_same split: option.split)
  show "\<exists>out. seOut (handleUpstream c e (last (readPump flow reads)) s) = seOut s @ FlowClose f # out"
    unfolding h using sendTCPDown_trace(1) [of c e flow TCPDisconnect "[]" ?s] by simp
qed

lemma handshake_end:
  assumes "frType (inFrame i) = TypeHandshake" and "frOpcode (inFrame i) = HSReqWithConfig" and "allowed c (frBody (inFrame i))"
    and "handleFrame c e i s = Ret s1" and "map_of (seFlows s) flow = Some f"
  shows "seFlows s1 = []" and "seFresh s1 = seFresh s" and "\<exists>mid. seOut s1 = seOut s @ mid \<and> FlowClose f \<in> set mid"
proof -
  have "FlowClose f \<in> set (map (\<lambda>(k, f). FlowClose f) (seFlows s))" using map_of_SomeD [OF assms(5)] by force
  then show "seFlows s1 = []" "seFresh s1 = seFresh s" "\<exists>mid. seOut s1 = seOut s @ mid \<and> FlowClose f \<in> set mid"
    using handshake_frame [OF assms(1,2), of c e s] assms(3,4) by (auto simp: writeRaw_same writeRaw_out resetForHandshake_eq)
qed

text \<open>
  C19: an ended flow is dialled again by stray data. When the upstream socket of a flow has
  ended, or a further handshake request of the device has been accepted (the device sends one
  on every leg, and each resets the session), the flow is closed and forgotten; data of the
  device for it that is still under way then opens a second connection to the same address
  and is sent there, from the middle of the stream.
\<close>

theorem ended_flow_redialled:
  assumes "map_of (seFlows s) flow = Some f" and "int (length (seFlows s)) \<le> cfMaxFlowsPerSession c" and "data \<noteq> []"
    and "s1 = handleUpstream c e (last (readPump flow reads)) s
       \<or> frType (inFrame i) = TypeHandshake \<and> frOpcode (inFrame i) = HSReqWithConfig
         \<and> allowed c (frBody (inFrame i)) \<and> handleFrame c e i s = Ret s1"
    and "s2 = deliverTCP c e \<lparr>tcFlow = flow, tcOp = TCPPayload, tcData = data\<rparr> s1"
  shows "\<exists>mid. seOut s2 = seOut s @ mid @ [FlowDial (seFresh s) flow, FlowEnqueue (seFresh s) data]
    \<and> FlowClose f \<in> set mid \<and> map_of (seFlows s2) flow = Some (seFresh s)"
proof -
  have less: "int (length (AList.delete flow (seFlows s))) < cfMaxFlowsPerSession c"
    using length_delete_less [OF assms(1)] assms(2) by linarith
  then have pos: "0 < cfMaxFlowsPerSession c" by linarith
  have s1: "map_of (seFlows s1) flow = None \<and> int (length (seFlows s1)) < cfMaxFlowsPerSession c
      \<and> seFresh s1 = seFresh s \<and> (\<exists>mid. seOut s1 = seOut s @ mid \<and> FlowClose f \<in> set mid)"
    using assms(4)
  proof
    assume s1: "s1 = handleUpstream c e (last (readPump flow reads)) s"
    show ?thesis using upstream_end [OF assms(1), of c e reads] less unfolding s1 by force
  next
    assume "frType (inFrame i) = TypeHandshake \<and> frOpcode (inFrame i) = HSReqWithConfig
         \<and> allowed c (frBody (inFrame i)) \<and> handleFrame c e i s = Ret s1"
    then show ?thesis using handshake_end [OF _ _ _ _ assms(1)] pos by force
  qed
  then obtain mid where "seOut s1 = seOut s @ mid" "FlowClose f \<in> set mid" by blast
  then show ?thesis
    using s1 redial [of s1 flow c data e] assms(3) unfolding assms(5) payload_def by auto
qed

text \<open>Flow 4 is closed and the data goes to a new connection, flow 0 of this session.\<close>

lemma ended_flow_redialled_witness:
  "\<exists>s1 s2. s1 = handleUpstream exConfig exEnv (last (readPump exFlow [])) (exSession\<lparr>seFlows := [(exFlow, 4)]\<rparr>)
     \<and> s2 = deliverTCP exConfig exEnv \<lparr>tcFlow = exFlow, tcOp = TCPPayload, tcData = [7]\<rparr> s1
     \<and> FlowClose 4 \<in> set (seOut s2) \<and> FlowDial 0 exFlow \<in> set (seOut s2) \<and> FlowEnqueue 0 [7] \<in> set (seOut s2)"
proof -
  let ?s = "exSession\<lparr>seFlows := [(exFlow, 4)]\<rparr>"
  let ?s1 = "handleUpstream exConfig exEnv (last (readPump exFlow [])) ?s"
  let ?s2 = "deliverTCP exConfig exEnv \<lparr>tcFlow = exFlow, tcOp = TCPPayload, tcData = [7]\<rparr> ?s1"
  have f: "seFresh ?s = 0" by (simp add: exSession_def newSession_def)
  have "\<exists>mid. seOut ?s2 = seOut ?s @ mid @ [FlowDial (seFresh ?s) exFlow, FlowEnqueue (seFresh ?s) [7]]
    \<and> FlowClose 4 \<in> set mid \<and> map_of (seFlows ?s2) exFlow = Some (seFresh ?s)"
    by (rule ended_flow_redialled [OF _ _ _ disjI1 [OF refl] refl]) (simp_all add: exConfig_def)
  then show ?thesis unfolding f by force
qed

section \<open>Ended UDP readers\<close>

lemma udpReadPump_ends:
  "udpReadPump f (reads @ (d, Some err) # later) = udpReadPump f (reads @ [(d, Some err)])"
  by (induction f reads rule: udpReadPump.induct) (simp_all add: Let_def)

definition udpPacketOf :: "udpKey \<Rightarrow> byte list \<Rightarrow> byte list \<Rightarrow> bool" where
  "udpPacketOf key pkt data \<longleftrightarrow>
     (\<exists>ip d. parseIPv4 pkt = Ret (Inr ip) \<and> ipProto ip = protoUDP \<and> parseUDP ip = Inr d
        \<and> key = UdpKey (udSrc d) (udDst d) \<and> data = udData d)"

lemma deliverUDP_known:
  assumes "udpPacketOf key pkt data" and "map_of (seUdpFlows s) key = Some f"
  shows "deliverUDP c e pkt s = Ret (udpForward e key f data s)"
  using assms by (auto simp: udpPacketOf_def deliverUDP_def Let_def)

text \<open>What the session does with its UDP sockets.\<close>

fun udpEvent :: "effect \<Rightarrow> bool" where
  "udpEvent (UdpDial key ok) = True"
| "udpEvent (UdpWrite key b) = True"
| "udpEvent (UdpClose key) = True"
| "udpEvent _ = False"

definition udpEvents :: "Session \<Rightarrow> effect list" where
  "udpEvents s = filter udpEvent (seOut s)"

lemma sendUDPDown_silent:
  "seUdpFlows (sendUDPDown c e pkt s) = seUdpFlows s" "udpEvents (sendUDPDown c e pkt s) = udpEvents s"
  by (simp_all add: sendUDPDown_def Let_def writeMaybe_def writeRaw_same writeRaw_out udpEvents_def split: option.split)

lemma udpReadPump_udp: "u \<in> set (udpReadPump f reads) \<Longrightarrow> \<not> upIsTCP u"
  by (induction f reads rule: udpReadPump.induct) (auto simp: Let_def udpReply_def split: if_splits)

text \<open>
  One thing happens to the session: a datagram of the host, or what a socket reader posted.
\<close>

definition socketStep :: "Config \<Rightarrow> env \<Rightarrow> byte list + upstreamData \<Rightarrow> Session \<Rightarrow> Session outcome" where
  "socketStep c e x s = (case x of Inl pkt \<Rightarrow> deliverUDP c e pkt s | Inr u \<Rightarrow> Ret (handleUpstream c e u s))"

fun datagrams :: "('a + 'b) list \<Rightarrow> 'a list" where
  "datagrams [] = []"
| "datagrams (Inl d # xs) = d # datagrams xs"
| "datagrams (Inr u # xs) = datagrams xs"

fun posted :: "('a + 'b) list \<Rightarrow> 'b list" where
  "posted [] = []"
| "posted (Inl d # xs) = posted xs"
| "posted (Inr u # xs) = u # posted xs"

lemma datagrams_append: "datagrams (xs @ ys) = datagrams xs @ datagrams ys"
  by (induction xs rule: datagrams.induct) simp_all

lemma posted_append: "posted (xs @ ys) = posted xs @ posted ys"
  by (induction xs rule: posted.induct) simp_all

definition udpOpen :: "udpKey \<Rightarrow> Session \<Rightarrow> bool" where
  "udpOpen key s \<longleftrightarrow> distinct (map fst (seUdpFlows s)) \<and> map_of (seUdpFlows s) key \<noteq> None"

lemma socketStep_known:
  assumes "udpOpen key s" and "list_all2 (udpPacketOf key) (datagrams [x]) datas" and "\<forall>u \<in> set (posted [x]). \<not> upIsTCP u"
  shows "\<exists>s'. socketStep c e x s = Ret s' \<and> udpOpen key s' \<and> udpEvents s' = udpEvents s @ map (UdpWrite key) datas"
proof (cases x)
  case (Inl pkt)
  then obtain data where d: "udpPacketOf key pkt data" "datas = [data]" using assms(2) by (auto simp: list_all2_Cons1)
  obtain f where f: "map_of (seUdpFlows s) key = Some f" using assms(1) by (auto simp: udpOpen_def)
  have "udpOpen key (udpForward e key f data s)" "udpEvents (udpForward e key f data s) = udpEvents s @ [UdpWrite key data]"
    using assms(1) by (simp_all add: udpOpen_def udpForward_def udpEvents_def Let_def distinct_update)
  then show ?thesis using deliverUDP_known [OF d(1) f] by (simp add: socketStep_def Inl d(2))
next
  case (Inr u)
  then have "handleUpstream c e u s = sendUDPDown c e (upPacket u) s" using assms(3) by (simp add: handleUpstream_def)
  then have "socketStep c e x s = Ret (sendUDPDown c e (upPacket u) s)" by (simp add: socketStep_def Inr)
  moreover have "udpOpen key (sendUDPDown c e (upPacket u) s)" using assms(1) unfolding udpOpen_def sendUDPDown_silent .
  moreover have "datas = []" using assms(2) by (simp add: Inr)
  ultimately show ?thesis by (simp add: sendUDPDown_silent)
qed

lemma socketSteps_known:
  assumes "udpOpen key s" and "list_all2 (udpPacketOf key) (datagrams xs) datas" and "\<forall>u \<in> set (posted xs). \<not> upIsTCP u"
  shows "\<exists>s'. fold_outcome (socketStep c e) xs s = Ret s' \<and> udpOpen key s' \<and> udpEvents s' = udpEvents s @ map (UdpWrite key) datas"
  using assms
proof (induction xs arbitrary: s datas)
  case (Cons x xs)
  have d: "datagrams (x # xs) = datagrams [x] @ datagrams xs" and p: "posted (x # xs) = posted [x] @ posted xs"
    using datagrams_append [of "[x]" xs] posted_append [of "[x]" xs] by simp_all
  obtain ds1 ds2 where ds: "datas = ds1 @ ds2" "list_all2 (udpPacketOf key) (datagrams [x]) ds1" "list_all2 (udpPacketOf key) (datagrams xs) ds2"
    using Cons.prems(2) unfolding d by (auto simp: list_all2_append1)
  obtain s1 where s1: "socketStep c e x s = Ret s1" "udpOpen key s1" "udpEvents s1 = udpEvents s @ map (UdpWrite key) ds1"
    using socketStep_known [OF Cons.prems(1) ds(2), of c e] Cons.prems(3) unfolding p by auto
  from Cons.IH [OF s1(2) ds(3)] Cons.prems(3) obtain s2 where
    "fold_outcome (socketStep c e) xs s1 = Ret s2" "udpOpen key s2" "udpEvents s2 = udpEvents s1 @ map (UdpWrite key) ds2"
    unfolding p by auto
  with s1 ds(1) show ?case by simp
qed simp

lemma udpForward_entry:
  "map_of (seUdpFlows (udpForward e key f data s)) key = Some (f\<lparr>ufLastUse := enNow e (seCalls s)\<rparr>)"
  by (simp add: udpForward_def Let_def)

lemma reapFlows_keeps:
  assumes "map_of (seUdpFlows s) key = Some f" and "timeSub now (ufLastUse f) \<le> cfUDPFlowIdle c" and "distinct (map fst (seUdpFlows s))"
  shows "map_of (seUdpFlows (reapFlows c now s)) key = Some f"
proof -
  have "map_of (seUdpFlows (fold (reapFlow c now) m t)) key = Some f"
    if "map_of (seUdpFlows t) key = Some f" "\<forall>g. (key, g) \<in> set m \<longrightarrow> g = f" for m t
    using that
  proof (induction m arbitrary: t)
    case (Cons kf m)
    obtain k g where kf: "kf = (k, g)" by (cases kf)
    have "map_of (seUdpFlows (reapFlow c now kf t)) key = Some f"
    proof (cases "k = key")
      case True
      then have "g = f" using Cons.prems(2) kf by simp
      then show ?thesis using Cons.prems(1) assms(2) by (simp add: reapFlow_def kf)
    next
      case False
      then show ?thesis using Cons.prems(1) by (simp add: reapFlow_def kf udpClose_def)
    qed
    then show ?case using Cons.IH Cons.prems(2) by simp
  qed simp
  moreover have "\<forall>g. (key, g) \<in> set (seUdpFlows s) \<longrightarrow> g = f"
    using assms(1) map_of_is_SomeI [OF assms(3)] by fastforce
  ultimately show ?thesis unfolding reapFlows_def using assms(1) by blast
qed

lemma deliverUDP_new:
  assumes "map_of (seUdpFlows s) key = None" and "int (length (seUdpFlows s)) < cfMaxFlowsPerSession c" and "enDialOK e (seCalls s)"
    and "distinct (map fst (seUdpFlows s))" and "udpPacketOf key pkt data" and "deliverUDP c e pkt s = Ret s1"
  shows "udpOpen key s1" and "udpEvents s1 = udpEvents s @ [UdpDial key True, UdpWrite key data]"
proof -
  obtain ip d where p: "parseIPv4 pkt = Ret (Inr ip)" "ipProto ip = protoUDP" "parseUDP ip = Inr d"
    and k: "key = UdpKey (udSrc d) (udDst d)" "data = udData d"
    using assms(5) by (auto simp: udpPacketOf_def)
  obtain f s0 where o: "openUDPFlow e key (ipID ip) s = (Some f, s0)" "seUdpFlows s0 = AList.update key f (seUdpFlows s)"
      "seOut s0 = seOut s @ [UdpDial key True]"
    using assms(3) by (simp add: openUDPFlow_def Let_def)
  have "s1 = udpForward e key f data s0"
    using assms(1,2,6) p o(1) unfolding k by (simp add: deliverUDP_def Let_def)
  then show "udpOpen key s1" "udpEvents s1 = udpEvents s @ [UdpDial key True, UdpWrite key data]"
    using o(2,3) assms(4) by (simp_all add: udpOpen_def udpForward_def udpEvents_def Let_def distinct_update)
qed

text \<open>
  C20: a UDP flow outlives its reader. A datagram of the inside host dials a flow, whose
  reader starts on the entry just made; at the first error of the socket, such as a
  destination that refuses a datagram, the reader ends and hands back nothing that arrives
  later. Let the session handle all that the reader ever posts, in any interleaving with
  further datagrams of the flow: the flow is still in the table, every datagram is written to
  the same socket, which is never closed and no other dialled, and no tick within the idle
  time of the last datagram removes the entry. So the answers stay lost for as long as the
  host keeps asking.
\<close>

theorem udp_flow_outlives_reader:
  assumes "map_of (seUdpFlows s) key = None" and "int (length (seUdpFlows s)) < cfMaxFlowsPerSession c" and "enDialOK e (seCalls s)"
    and "distinct (map fst (seUdpFlows s))" and "udpPacketOf key pkt data" and "deliverUDP c e pkt s = Ret s1"
    and "f = the (map_of (seUdpFlows s1) key)" and "posted xs = udpReadPump f (reads @ (d, Some err) # later)"
    and "list_all2 (udpPacketOf key) (datagrams xs) datas"
  shows "udpReadPump f (reads @ (d, Some err) # later) = udpReadPump f (reads @ [(d, Some err)])
    \<and> (\<exists>s2. fold_outcome (socketStep c e) xs s1 = Ret s2 \<and> map_of (seUdpFlows s2) key \<noteq> None
        \<and> udpEvents s2 = udpEvents s @ [UdpDial key True, UdpWrite key data] @ map (UdpWrite key) datas
        \<and> (\<forall>ys p s' now. xs = ys @ [Inl p] \<and> fold_outcome (socketStep c e) ys s1 = Ret s'
              \<and> timeSub now (enNow e (seCalls s')) \<le> cfUDPFlowIdle c
             \<longrightarrow> map_of (seUdpFlows (reapFlows c now s2)) key \<noteq> None))"
proof -
  note new = deliverUDP_new [OF assms(1-6)]
  have udp: "\<forall>u \<in> set (posted xs). \<not> upIsTCP u" unfolding assms(8) using udpReadPump_udp by blast
  obtain s2 where s2: "fold_outcome (socketStep c e) xs s1 = Ret s2" "udpOpen key s2" "udpEvents s2 = udpEvents s1 @ map (UdpWrite key) datas"
    using socketSteps_known [OF new(1) assms(9) udp] by blast
  have "map_of (seUdpFlows (reapFlows c now s2)) key \<noteq> None"
    if xs: "xs = ys @ [Inl p]" and s': "fold_outcome (socketStep c e) ys s1 = Ret s'"
      and now: "timeSub now (enNow e (seCalls s')) \<le> cfUDPFlowIdle c" for ys p s' now
  proof -
    obtain ds1 ds2 where ds: "list_all2 (udpPacketOf key) (datagrams ys) ds1" "list_all2 (udpPacketOf key) [p] ds2"
      using assms(9) by (auto simp: xs datagrams_append list_all2_append1)
    then obtain dt where dt: "udpPacketOf key p dt" by (auto simp: list_all2_Cons1)
    have "udpOpen key s'"
      using socketSteps_known [OF new(1) ds(1), of c e] udp s' by (auto simp: xs posted_append)
    then obtain g where g: "map_of (seUdpFlows s') key = Some g" by (auto simp: udpOpen_def)
    have "s2 = udpForward e key g dt s'"
      using s2(1) s' deliverUDP_known [OF dt g, of c e] by (simp add: xs fold_outcome_append socketStep_def)
    then have "map_of (seUdpFlows s2) key = Some (g\<lparr>ufLastUse := enNow e (seCalls s')\<rparr>)" by (simp add: udpForward_entry)
    from reapFlows_keeps [OF this] now s2(2) show ?thesis by (simp add: udpOpen_def)
  qed
  then show ?thesis using s2 new(2) udpReadPump_ends unfolding udpOpen_def by (intro conjI exI [of _ s2]) auto
qed

text \<open>
  The answer 5 is read, then the destination refuses; the two further questions are written to
  the dead socket, and the answer 6 that is waiting is never read.
\<close>

lemma udp_flow_outlives_reader_witness:
  "\<exists>key pkt s1 f s2. deliverUDP exConfig exEnv pkt exSession = Ret s1 \<and> map_of (seUdpFlows s1) key = Some f
     \<and> udpReadPump f [([5], None), ([], Some ''connection refused''), ([6], None)] = [udpReply (f\<lparr>ufIpID := ufIpID f + 1\<rparr>) [5]]
     \<and> fold_outcome (socketStep exConfig exEnv) [Inl pkt, Inr (udpReply (f\<lparr>ufIpID := ufIpID f + 1\<rparr>) [5]), Inl pkt] s1 = Ret s2
     \<and> map_of (seUdpFlows s2) key \<noteq> None
     \<and> udpEvents s2 = [UdpDial key True, UdpWrite key [1], UdpWrite key [1], UdpWrite key [1]]"
proof -
  let ?pkt = "[0x45, 0, 0, 29, 0, 7, 0, 0, 64, 17, 0, 0, 10, 0, 0, 2, 8, 8, 8, 8, 0x9c, 0x40, 0, 53, 0, 9, 0, 0, 1] :: byte list"
  let ?ip = "\<lparr>ipSrc = 0x0a000002, ipDst = 0x08080808, ipProto = 17, ipTTL = 64, ipID = 7,
    ipPayload = [0x9c, 0x40, 0, 53, 0, 9, 0, 0, 1]\<rparr>"
  let ?k = "UdpKey (AddrPort 0x0a000002 40000) (AddrPort 0x08080808 53)"
  have "parseIPv4 ?pkt = Ret (Inr ?ip)" "parseUDP ?ip = Inr \<lparr>udSrc = AddrPort 0x0a000002 40000, udDst = AddrPort 0x08080808 53, udData = [1]\<rparr>"
    by (simp_all add: parseIPv4_def go_slice_def beU16_def addr4_def beU32_def parseUDP_def)
  then have p: "udpPacketOf ?k ?pkt [1]" by (simp add: udpPacketOf_def)
  have o: "udpEvents exSession = []" "seUdpFlows exSession = []" by (simp_all add: udpEvents_def exSession_def newSession_def)
  have "deliverUDP exConfig exEnv ?pkt exSession \<noteq> Panic"
    using \<open>parseIPv4 ?pkt = Ret (Inr ?ip)\<close> by (simp add: deliverUDP_def Let_def split: sum.split option.split prod.split)
  then obtain s1 where s1: "deliverUDP exConfig exEnv ?pkt exSession = Ret s1" by (cases "deliverUDP exConfig exEnv ?pkt exSession") auto
  have room: "map_of (seUdpFlows exSession) ?k = None" "int (length (seUdpFlows exSession)) < cfMaxFlowsPerSession exConfig"
    "enDialOK exEnv (seCalls exSession)" "distinct (map fst (seUdpFlows exSession))"
    by (simp_all add: o exConfig_def exEnv_def)
  obtain f where f: "map_of (seUdpFlows s1) ?k = Some f" using deliverUDP_new(1) [OF room p s1] by (auto simp: udpOpen_def)
  let ?u = "udpReply (f\<lparr>ufIpID := ufIpID f + 1\<rparr>) [5]"
  have r: "udpReadPump f [([5], None), ([], Some ''connection refused''), ([6], None)] = [?u]" by simp
  have "\<exists>s2. fold_outcome (socketStep exConfig exEnv) [Inl ?pkt, Inr ?u, Inl ?pkt] s1 = Ret s2 \<and> map_of (seUdpFlows s2) ?k \<noteq> None
        \<and> udpEvents s2 = udpEvents exSession @ [UdpDial ?k True, UdpWrite ?k [1]] @ map (UdpWrite ?k) [[1], [1]]"
    using udp_flow_outlives_reader [OF room p s1 refl, of "[Inl ?pkt, Inr ?u, Inl ?pkt]" "[([5], None)]" "[]" "''connection refused''" "[([6], None)]" "[[1], [1]]"]
      p f by auto
  then obtain s2 where "fold_outcome (socketStep exConfig exEnv) [Inl ?pkt, Inr ?u, Inl ?pkt] s1 = Ret s2" "map_of (seUdpFlows s2) ?k \<noteq> None"
    "udpEvents s2 = [UdpDial ?k True, UdpWrite ?k [1], UdpWrite ?k [1], UdpWrite ?k [1]]" unfolding o by auto
  with s1 f r show ?thesis by (intro exI [of _ ?k] exI [of _ ?pkt] exI [of _ s1] exI [of _ f] exI [of _ s2] conjI)
qed

end
