(* ===== verification/Notices.thy ===== *)
theory Notices
  imports Prelude
begin

text \<open>
  \<open>icg/concentrator/notices.go\<close>: the bounded list of events shown to the operator, in which
  a repeated event is counted in place. The index that finds the repeats holds positions of
  the ring and is rebuilt when the ring shifts; it is shown to act like a search of the
  ring.
\<close>

record Notice =
  ntAt :: instant
  ntLevel :: string
  ntKind :: string
  ntMsg :: string
  ntFix :: string
  ntPeer :: string
  ntCount :: int

record noticeLog =
  nlRing :: "Notice list"
  nlIndex :: "(string \<times> nat) list"

definition maxNotices :: nat where "maxNotices = 200"

definition emptyLog :: noticeLog where
  "emptyLog = \<lparr>nlRing = [], nlIndex = []\<rparr>"

definition noticeKey :: "Notice \<Rightarrow> string" where
  "noticeKey nt = ntKind nt @ [CHR 0x00] @ ntPeer nt @ [CHR 0x00] @ ntMsg nt"

definition rebuildIndex :: "Notice list \<Rightarrow> (string \<times> nat) list" where
  "rebuildIndex ring = fold (\<lambda>(i, e). AList.update (noticeKey e) i) (enumerate 0 ring) []"

definition appendNotice :: "Notice \<Rightarrow> noticeLog \<Rightarrow> noticeLog" where
  "appendNotice nt n =
     (let ring = nlRing n @ [nt\<lparr>ntCount := 1\<rparr>];
          index = AList.update (noticeKey nt) (length ring - 1) (nlIndex n)
      in if length ring > maxNotices
         then let ring = drop (length ring - maxNotices) ring
              in \<lparr>nlRing = ring, nlIndex = rebuildIndex ring\<rparr>
         else \<lparr>nlRing = ring, nlIndex = index\<rparr>)"

definition noticeAdd :: "Notice \<Rightarrow> noticeLog \<Rightarrow> noticeLog" where
  "noticeAdd nt n =
     (case map_of (nlIndex n) (noticeKey nt) of
        None \<Rightarrow> appendNotice nt n
      | Some i \<Rightarrow>
          if i < length (nlRing n) \<and> ntKind (nlRing n ! i) = ntKind nt
          then n\<lparr>nlRing := (nlRing n)[i := (nlRing n ! i)\<lparr>ntCount := ntCount (nlRing n ! i) + 1, ntAt := ntAt nt\<rparr>]\<rparr>
          else appendNotice nt n)"

definition noticeSnapshot :: "noticeLog \<Rightarrow> Notice list" where
  "noticeSnapshot n = rev (nlRing n)"

section \<open>The list it implements\<close>

text \<open>The same log without an index: look through the entries.\<close>

definition listAdd :: "Notice \<Rightarrow> Notice list \<Rightarrow> Notice list" where
  "listAdd nt es =
     (if noticeKey nt \<in> noticeKey ` set es
      then map (\<lambda>e. if noticeKey e = noticeKey nt then e\<lparr>ntCount := ntCount e + 1, ntAt := ntAt nt\<rparr> else e) es
      else drop (Suc (length es) - maxNotices) (es @ [nt\<lparr>ntCount := 1\<rparr>]))"

lemma noticeKey_fields [simp]:
  "noticeKey (e\<lparr>ntCount := k\<rparr>) = noticeKey e" "noticeKey (e\<lparr>ntAt := t\<rparr>) = noticeKey e"
  by (simp_all add: noticeKey_def)

definition plainKind :: "Notice \<Rightarrow> bool" where
  "plainKind nt \<longleftrightarrow> CHR 0x00 \<notin> set (ntKind nt)"

lemma noticeKey_kind:
  assumes "noticeKey a = noticeKey b" and "plainKind a" and "plainKind b" shows "ntKind a = ntKind b"
proof -
  have "takeWhile (\<lambda>x. x \<noteq> CHR 0x00) (noticeKey e) = ntKind e" if "plainKind e" for e
    using that by (auto simp: noticeKey_def plainKind_def takeWhile_append)
  then show ?thesis using assms by metis
qed

text \<open>The index is exact: a key leads to the one place of the ring that has it.\<close>

definition log_ok :: "noticeLog \<Rightarrow> bool" where
  "log_ok n \<longleftrightarrow> length (nlRing n) \<le> maxNotices \<and> list_all plainKind (nlRing n)
     \<and> distinct (map noticeKey (nlRing n))
     \<and> (\<forall>k i. map_of (nlIndex n) k = Some i \<longleftrightarrow> i < length (nlRing n) \<and> noticeKey (nlRing n ! i) = k)"

lemma rebuildIndex_exact:
  assumes "distinct (map noticeKey ring)"
  shows "map_of (rebuildIndex ring) k = Some i \<longleftrightarrow> i < length ring \<and> noticeKey (ring ! i) = k"
  using assms
proof (induction ring arbitrary: i rule: rev_induct)
  case Nil
  then show ?case by (simp add: rebuildIndex_def)
next
  case (snoc e ring)
  have r: "rebuildIndex (ring @ [e]) = AList.update (noticeKey e) (length ring) (rebuildIndex ring)"
    by (simp add: rebuildIndex_def enumerate_append_eq)
  have d: "distinct (map noticeKey ring)" and new: "noticeKey e \<notin> set (map noticeKey ring)" using snoc.prems by auto
  have "noticeKey (ring ! i) \<noteq> noticeKey e" if "i < length ring" for i using new that by (metis length_map nth_map nth_mem)
  then show ?case using snoc.IH [OF d, of i] by (auto simp: r nth_append less_Suc_eq)
qed

lemma noticeAdd_ok:
  assumes "log_ok n" and "plainKind nt"
  shows "log_ok (noticeAdd nt n) \<and> nlRing (noticeAdd nt n) = listAdd nt (nlRing n)"
proof (cases "map_of (nlIndex n) (noticeKey nt)")
  case None
  let ?ring = "nlRing n @ [nt\<lparr>ntCount := 1\<rparr>]"
  have new: "noticeKey nt \<notin> noticeKey ` set (nlRing n)"
  proof
    assume "noticeKey nt \<in> noticeKey ` set (nlRing n)"
    then obtain i where "i < length (nlRing n)" "noticeKey (nlRing n ! i) = noticeKey nt" by (auto simp: in_set_conv_nth)
    then have "map_of (nlIndex n) (noticeKey nt) = Some i" using assms(1) unfolding log_ok_def by blast
    with None show False by simp
  qed
  have d: "distinct (map noticeKey ?ring)" using assms(1) new by (auto simp: log_ok_def)
  have a: "noticeAdd nt n = appendNotice nt n" using None by (simp add: noticeAdd_def)
  have k: "list_all plainKind ?ring" using assms by (simp add: log_ok_def plainKind_def)
  show ?thesis
  proof (cases "length ?ring > maxNotices")
    case True
    let ?d = "drop (length ?ring - maxNotices) ?ring"
    have "distinct (map noticeKey ?d)" using distinct_drop [OF d, of "length ?ring - maxNotices"] by (simp only: drop_map)
    moreover have "list_all plainKind ?d" using k by (auto simp: list_all_iff dest: in_set_dropD)
    moreover have "length ?d \<le> maxNotices" by simp
    ultimately have "log_ok \<lparr>nlRing = ?d, nlIndex = rebuildIndex ?d\<rparr>"
      using rebuildIndex_exact by (simp add: log_ok_def)
    then show ?thesis using True a new by (simp add: appendNotice_def listAdd_def Let_def)
  next
    case False
    have "map_of (AList.update (noticeKey nt) (length (nlRing n)) (nlIndex n)) q = Some i
        \<longleftrightarrow> i < length ?ring \<and> noticeKey (?ring ! i) = q" for q i
    proof -
      have "noticeKey (nlRing n ! i) \<noteq> noticeKey nt" if "i < length (nlRing n)" using new nth_mem [OF that] by (metis imageI)
      then show ?thesis using assms(1) by (auto simp: log_ok_def nth_append less_Suc_eq)
    qed
    then have "log_ok \<lparr>nlRing = ?ring, nlIndex = AList.update (noticeKey nt) (length (nlRing n)) (nlIndex n)\<rparr>"
      using False d k by (simp add: log_ok_def)
    then show ?thesis using False a new by (simp add: appendNotice_def listAdd_def Let_def)
  qed
next
  case (Some i)
  have i: "i < length (nlRing n)" "noticeKey (nlRing n ! i) = noticeKey nt"
    using assms(1) Some by (auto simp: log_ok_def)
  have kind: "ntKind (nlRing n ! i) = ntKind nt"
    using noticeKey_kind [OF i(2)] assms i(1) by (simp add: log_ok_def list_all_length)
  let ?e = "(nlRing n ! i)\<lparr>ntCount := ntCount (nlRing n ! i) + 1, ntAt := ntAt nt\<rparr>"
  have add: "noticeAdd nt n = n\<lparr>nlRing := (nlRing n)[i := ?e]\<rparr>" using Some i kind by (simp add: noticeAdd_def)
  have keys: "map noticeKey ((nlRing n)[i := ?e]) = map noticeKey (nlRing n)"
    using i(1) by (intro nth_equalityI) (auto simp: nth_list_update)
  have "list_all plainKind ((nlRing n)[i := ?e])"
    using assms(1) i(1) by (auto simp: log_ok_def list_all_length nth_list_update plainKind_def)
  then have "log_ok (noticeAdd nt n)"
  proof -
    have "noticeKey ((nlRing n)[i := ?e] ! j) = noticeKey (nlRing n ! j)" if "j < length (nlRing n)" for j
      using arg_cong [OF keys, of "\<lambda>l. l ! j"] that by (simp del: map_update)
    with assms(1) keys \<open>list_all plainKind ((nlRing n)[i := ?e])\<close> show ?thesis by (simp add: log_ok_def add cong: conj_cong)
  qed
  moreover have "(nlRing n)[i := ?e] = map (\<lambda>e. if noticeKey e = noticeKey nt then e\<lparr>ntCount := ntCount e + 1, ntAt := ntAt nt\<rparr> else e) (nlRing n)"
  proof (rule nth_equalityI)
    fix j assume j: "j < length ((nlRing n)[i := ?e])"
    then have "noticeKey (nlRing n ! j) = noticeKey nt \<longleftrightarrow> j = i"
      using assms(1) i nth_eq_iff_index_eq [of "map noticeKey (nlRing n)" j i] by (auto simp: log_ok_def)
    then show "(nlRing n)[i := ?e] ! j = map (\<lambda>e. if noticeKey e = noticeKey nt then e\<lparr>ntCount := ntCount e + 1, ntAt := ntAt nt\<rparr> else e) (nlRing n) ! j"
      using j by (auto simp: nth_list_update)
  qed simp
  moreover have "noticeKey nt \<in> noticeKey ` set (nlRing n)" using i nth_mem by (metis image_eqI)
  ultimately show ?thesis by (simp add: add listAdd_def)
qed

lemma distinct_mapI: "distinct (map g (map h xs)) \<Longrightarrow> distinct (map h xs)"
  unfolding distinct_map [of g] by (rule conjunct1)

section \<open>Property\<close>

text \<open>
  C34: the notice list is what an operator expects of it. Over any sequence of events the
  indexed ring equals a plain list in which a repeated event bumps its one entry and a new
  one is appended, the oldest entry leaving beyond 200; no two entries are the same event.
\<close>

theorem notices_as_list:
  assumes "list_all (\<lambda>nt. CHR 0x00 \<notin> set (ntKind nt)) nts"
  shows "noticeSnapshot (fold noticeAdd nts emptyLog) = rev (fold listAdd nts [])
    \<and> length (noticeSnapshot (fold noticeAdd nts emptyLog)) \<le> 200
    \<and> distinct (map (\<lambda>e. (ntKind e, ntPeer e, ntMsg e)) (noticeSnapshot (fold noticeAdd nts emptyLog)))"
proof -
  have "log_ok (fold noticeAdd nts n) \<and> nlRing (fold noticeAdd nts n) = fold listAdd nts (nlRing n)" if "log_ok n" for n
    using that assms
  proof (induction nts arbitrary: n)
    case (Cons nt nts)
    then show ?case using noticeAdd_ok [of n nt] by (simp add: plainKind_def)
  qed simp
  moreover have "log_ok emptyLog" by (simp add: log_ok_def emptyLog_def)
  ultimately have ok: "log_ok (fold noticeAdd nts emptyLog)" and r: "nlRing (fold noticeAdd nts emptyLog) = fold listAdd nts []"
    by (auto simp: emptyLog_def)
  define es where "es = fold listAdd nts []"
  have es: "length es \<le> 200" "distinct (map noticeKey es)" using ok r by (simp_all only: log_ok_def maxNotices_def es_def)
  have eq: "map noticeKey es = map (\<lambda>(k, p, m). k @ [CHR 0x00] @ p @ [CHR 0x00] @ m) (map (\<lambda>e. (ntKind e, ntPeer e, ntMsg e)) es)"
    by (simp add: noticeKey_def)
  have "distinct (map (\<lambda>e. (ntKind e, ntPeer e, ntMsg e)) es)" by (rule distinct_mapI) (rule es(2) [unfolded eq])
  then have "distinct (map (\<lambda>e. (ntKind e, ntPeer e, ntMsg e)) (rev es))" by (simp only: rev_map [symmetric] distinct_rev)
  moreover have "noticeSnapshot (fold noticeAdd nts emptyLog) = rev es" by (simp only: noticeSnapshot_def r es_def)
  ultimately show ?thesis using es(1) by (simp only: es_def length_rev simp_thms)
qed

lemma notices_as_list_witness:
  "let nt = \<lparr>ntAt = 7, ntLevel = ''warn'', ntKind = ''framing-lost'', ntMsg = ''m'', ntFix = '''', ntPeer = ''p'', ntCount = 0\<rparr>
   in noticeSnapshot (fold noticeAdd [nt, nt, nt] emptyLog) = [nt\<lparr>ntCount := 3\<rparr>]"
  using notices_as_list [of "let nt = \<lparr>ntAt = 7, ntLevel = ''warn'', ntKind = ''framing-lost'', ntMsg = ''m'',
     ntFix = '''', ntPeer = ''p'', ntCount = 0\<rparr> in [nt, nt, nt]"]
  by (simp add: Let_def listAdd_def noticeKey_def maxNotices_def)

end
