(* ===== verification/Server.thy ===== *)
theory Server
  imports Session_Loop Notices
begin

text \<open>
  \<open>icg/concentrator/server.go\<close>: configuration defaults, the table of sessions, the two serve
  loops and the reaper. The server runs one goroutine per connection, per UDP port, per
  session, and the reaper; what each of them does between two waits is one definition here,
  and \<open>Server_Runs\<close> interleaves them. A session's inbox, which \<open>post\<close>, \<open>attachLeg\<close> and
  \<open>detachLeg\<close> of \<open>session.go\<close> fill, is a list bounded by the channel's capacity.
\<close>

section \<open>Configuration\<close>

record ServerConfig = Config +
  svTCPAddr :: string
  svUDPBase :: int
  svUDPLegs :: int
  svSessionIdle :: duration
  svVersion :: string

definition Minute :: duration where "Minute = 60 * Second"

definition setDefaults :: "ServerConfig \<Rightarrow> ServerConfig" where
  "setDefaults c =
     (let c = (if svTCPAddr c = '''' then c\<lparr>svTCPAddr := '':10088''\<rparr> else c);
          c = (if svUDPBase c = 0 then c\<lparr>svUDPBase := 10000\<rparr> else c);
          c = (if svUDPLegs c = 0 then c\<lparr>svUDPLegs := 4\<rparr> else c);
          c = (if cfMagic c = 0 then c\<lparr>cfMagic := DefaultMagic\<rparr> else c);
          c = (if cfKeepaliveInterval c = 0 then c\<lparr>cfKeepaliveInterval := Second\<rparr> else c);
          c = (if cfAckInterval c = 0 then c\<lparr>cfAckInterval := 200 * Millisecond\<rparr> else c);
          c = (if cfStashLimit c = 0 then c\<lparr>cfStashLimit := 8192\<rparr> else c);
          c = (if cfMaxFlowsPerSession c = 0 then c\<lparr>cfMaxFlowsPerSession := 4096\<rparr> else c);
          c = (if cfUDPFlowIdle c = 0 then c\<lparr>cfUDPFlowIdle := 60 * Second\<rparr> else c);
          c = (if svSessionIdle c = 0 then c\<lparr>svSessionIdle := 5 * Minute\<rparr> else c)
      in if cfStatsInterval c = 0 then c\<lparr>cfStatsInterval := 30 * Second\<rparr>
         else if cfStatsInterval c < 0 then c\<lparr>cfStatsInterval := 0\<rparr>
         else c)"

text \<open>The port each UDP leg is bound to, in \<open>Run\<close>.\<close>

definition listenPort :: "ServerConfig \<Rightarrow> nat \<Rightarrow> int" where
  "listenPort c i = (if svUDPBase c = 0 then 0 else svUDPBase c + int i)"

definition sessionConfig :: "ServerConfig \<Rightarrow> Config" where
  "sessionConfig c = Config.truncate c"

section \<open>A session and its inbox\<close>

text \<open>\<open>bxStopped\<close>: the session was cancelled; \<open>bxDone\<close>: its goroutine has returned.\<close>

definition chanCap :: nat where "chanCap = 512"

record box =
  bxKey :: u32
  bxIn :: "event list"
  bxDropped :: u64
  bxLastRx :: int
  bxStopped :: bool
  bxDone :: bool
  bxSess :: Session

text \<open>\<open>UnixNano\<close>, and back.\<close>

definition unixNano :: "instant \<Rightarrow> int" where
  "unixNano t = t - unixEpochMS * Millisecond"

definition timeUnixNano :: "int \<Rightarrow> instant" where
  "timeUnixNano ns = ns + unixEpochMS * Millisecond"

definition post :: "instant \<Rightarrow> Frame \<Rightarrow> nat \<Rightarrow> box \<Rightarrow> box" where
  "post now f l b =
     (let b = b\<lparr>bxLastRx := unixNano now\<rparr>
      in if length (bxIn b) < chanCap then b\<lparr>bxIn := bxIn b @ [EvFrame \<lparr>inLeg = l, inFrame = f, inAt = now\<rparr>]\<rparr>
         else b\<lparr>bxDropped := bxDropped b + 1\<rparr>)"

text \<open>The blocking sends: \<open>None\<close> while the channel is full.\<close>

definition sendMsg :: "event \<Rightarrow> box \<Rightarrow> box option" where
  "sendMsg m b = (if length (bxIn b) < chanCap then Some (b\<lparr>bxIn := bxIn b @ [m]\<rparr>) else None)"

definition attachLeg :: "nat \<Rightarrow> box \<Rightarrow> box option" where
  "attachLeg l = sendMsg (EvAddLeg l)"

definition detachLeg :: "legKey \<Rightarrow> box \<Rightarrow> box option" where
  "detachLeg k = sendMsg (EvDropLeg k)"

definition IdleFor :: "instant \<Rightarrow> box \<Rightarrow> duration" where
  "IdleFor now b = (if bxLastRx b = 0 then 0 else timeSub now (timeUnixNano (bxLastRx b)))"

definition stop :: "box \<Rightarrow> box" where
  "stop b = b\<lparr>bxStopped := True\<rparr>"

section \<open>The server\<close>

record tcpConn =
  tnRemote :: string
  tnSess :: "nat option"

record peerLeg =
  plLeg :: nat
  plSess :: nat

text \<open>
  Sessions are numbered by creation: goroutines keep pointers to sessions that the table has
  already dropped. \<open>svOwner\<close> is not in the code: it records, for each leg, the session it was
  bound to and the identity in the frame that bound it.
\<close>

record Server =
  svSessions :: "(u32 \<times> nat) list"
  svBox :: "nat \<Rightarrow> box"
  svNextBox :: nat
  svNextLeg :: nat
  svConns :: "(nat \<times> tcpConn) list"
  svPeers :: "nat \<Rightarrow> (string \<times> peerLeg) list"
  svBadPeers :: "(string \<times> bool) list"
  svNotices :: noticeLog
  svOwner :: "nat \<Rightarrow> (nat \<times> u32) option"

definition noLeg :: Leg where
  "noLeg = \<lparr>lgKey = \<lparr>lkKind = '''', lkID = ''''\<rparr>, lgKind = '''', lgRemote = None, lgTunnelID = 0, lgHasWrite = False,
     lgLastRx = 0, lgRtt = 0, lgClosed = False, lgWriteErrs = 0\<rparr>"

definition newBox :: "ServerConfig \<Rightarrow> u32 \<Rightarrow> instant \<Rightarrow> box" where
  "newBox c tunIP now = \<lparr>bxKey = tunIP, bxIn = [], bxDropped = 0, bxLastRx = 0, bxStopped = False, bxDone = False,
     bxSess = newSession (sessionConfig c) tunIP now (\<lambda>_. noLeg)\<rparr>"

definition newServer :: "ServerConfig \<Rightarrow> Server" where
  "newServer c = \<lparr>svSessions = [], svBox = (\<lambda>_. newBox c 0 0), svNextBox = 0, svNextLeg = 0, svConns = [],
     svPeers = (\<lambda>_. []), svBadPeers = [], svNotices = emptyLog, svOwner = (\<lambda>_. None)\<rparr>"

definition putBox :: "nat \<Rightarrow> box \<Rightarrow> Server \<Rightarrow> Server" where
  "putBox b x srv = srv\<lparr>svBox := (svBox srv)(b := x)\<rparr>"

definition notice :: "instant \<Rightarrow> string \<Rightarrow> string \<Rightarrow> string \<Rightarrow> string \<Rightarrow> string \<Rightarrow> Server \<Rightarrow> Server" where
  "notice now level kind peer fix msg srv =
     srv\<lparr>svNotices := noticeAdd \<lparr>ntAt = now, ntLevel = level, ntKind = kind, ntMsg = msg, ntFix = fix,
       ntPeer = peer, ntCount = 0\<rparr> (svNotices srv)\<rparr>"

definition session :: "ServerConfig \<Rightarrow> instant \<Rightarrow> u32 \<Rightarrow> Server \<Rightarrow> nat \<times> Server" where
  "session c now tunIP srv =
     (case map_of (svSessions srv) tunIP of
        Some b \<Rightarrow> (b, srv)
      | None \<Rightarrow>
          let b = svNextBox srv
          in (b, (putBox b (newBox c tunIP now) srv)\<lparr>svNextBox := b + 1, svSessions := AList.update tunIP b (svSessions srv)\<rparr>))"

text \<open>A leg becomes part of a session with the first frame seen on it.\<close>

definition bindLeg :: "ServerConfig \<Rightarrow> instant \<Rightarrow> Frame \<Rightarrow> nat \<Rightarrow> Leg \<Rightarrow> Server \<Rightarrow> (nat \<times> Server) option" where
  "bindLeg c now f l leg srv =
     (case session c now (frIcgID f) srv of
        (b, srv) \<Rightarrow>
          let x = svBox srv b in
          case attachLeg l (x\<lparr>bxSess := setLeg l leg (bxSess x)\<rparr>) of
            None \<Rightarrow> None
          | Some x \<Rightarrow> Some (b, (putBox b x srv)\<lparr>svOwner := (svOwner srv)(l \<mapsto> (b, frIcgID f))\<rparr>))"

definition postTo :: "instant \<Rightarrow> Frame \<Rightarrow> nat \<Rightarrow> nat \<Rightarrow> Server \<Rightarrow> Server" where
  "postTo now f l b srv = putBox b (post now f l (svBox srv b)) srv"

definition closeLeg :: "nat \<Rightarrow> nat \<Rightarrow> Server \<Rightarrow> Server" where
  "closeLeg l b srv =
     (let x = svBox srv b in putBox b (x\<lparr>bxSess := setLeg l (legClose (seHeap (bxSess x) l)) (bxSess x)\<rparr>) srv)"

definition detachFrom :: "nat \<Rightarrow> nat \<Rightarrow> Server \<Rightarrow> Server option" where
  "detachFrom l b srv =
     (let x = svBox srv b in
      case detachLeg (lgKey (seHeap (bxSess x) l)) x of None \<Rightarrow> None | Some x \<Rightarrow> Some (putBox b x srv))"

section \<open>TCP connections\<close>

definition tcpLeg :: "string \<Rightarrow> Leg" where
  "tcpLeg remote = \<lparr>lgKey = \<lparr>lkKind = ''tcp'', lkID = remote\<rparr>, lgKind = ''tcp'', lgRemote = Some remote,
     lgTunnelID = -1, lgHasWrite = True, lgLastRx = 0, lgRtt = 0, lgClosed = False, lgWriteErrs = 0\<rparr>"

definition acceptTCP :: "string \<Rightarrow> Server \<Rightarrow> Server" where
  "acceptTCP remote srv =
     srv\<lparr>svNextLeg := svNextLeg srv + 1,
         svConns := AList.update (svNextLeg srv) \<lparr>tnRemote = remote, tnSess = None\<rparr> (svConns srv)\<rparr>"

text \<open>The body of the read loop for one frame, and the deferred work when the loop ends.\<close>

definition serveTCPFrame :: "ServerConfig \<Rightarrow> instant \<Rightarrow> nat \<Rightarrow> Frame \<Rightarrow> Server \<Rightarrow> Server option" where
  "serveTCPFrame c now l f srv =
     (case map_of (svConns srv) l of
        None \<Rightarrow> None
      | Some cn \<Rightarrow>
          case tnSess cn of
            Some b \<Rightarrow> Some (postTo now f l b srv)
          | None \<Rightarrow>
              case bindLeg c now f l (tcpLeg (tnRemote cn)) srv of
                None \<Rightarrow> None
              | Some (b, srv) \<Rightarrow>
                  Some (postTo now f l b (srv\<lparr>svConns := AList.update l (cn\<lparr>tnSess := Some b\<rparr>) (svConns srv)\<rparr>)))"

definition serveTCPEnd :: "instant \<Rightarrow> nat \<Rightarrow> nat \<Rightarrow> Server \<Rightarrow> Server option" where
  "serveTCPEnd now l resyncs srv =
     (case map_of (svConns srv) l of
        None \<Rightarrow> None
      | Some cn \<Rightarrow>
          let srv = srv\<lparr>svConns := AList.delete l (svConns srv)\<rparr> in
          case tnSess cn of
            Some b \<Rightarrow> detachFrom l b (closeLeg l b srv)
          | None \<Rightarrow> Some (notice now ''warn'' ''no-valid-frame'' (tnRemote cn)
              ''check the device is using this port and this TunnelIdentifier''
              (''a peer connected and disconnected without ever sending a valid ICG frame ('' @ dec_digits resyncs @ '' resyncs)'') srv))"

section \<open>UDP ports\<close>

definition maxPeers :: nat where "maxPeers = 64"

definition udpLegID :: "nat \<Rightarrow> string \<Rightarrow> string" where
  "udpLegID idx addr = dec_digits idx @ ''/'' @ addr"

definition udpLeg :: "nat \<Rightarrow> string \<Rightarrow> Leg" where
  "udpLeg idx addr = \<lparr>lgKey = \<lparr>lkKind = ''udp'', lkID = udpLegID idx addr\<rparr>, lgKind = ''udp'', lgRemote = Some addr,
     lgTunnelID = int idx, lgHasWrite = True, lgLastRx = 0, lgRtt = 0, lgClosed = False, lgWriteErrs = 0\<rparr>"

text \<open>The peer table is dropped as a whole when it is full.\<close>

fun dropPeers :: "(string \<times> peerLeg) list \<Rightarrow> Server \<Rightarrow> Server option" where
  "dropPeers [] srv = Some srv"
| "dropPeers ((a, pl) # ps) srv =
     (case detachFrom (plLeg pl) (plSess pl) (closeLeg (plLeg pl) (plSess pl) srv) of
        None \<Rightarrow> None | Some srv \<Rightarrow> dropPeers ps srv)"

definition setPeers :: "nat \<Rightarrow> (string \<times> peerLeg) list \<Rightarrow> Server \<Rightarrow> Server" where
  "setPeers idx ps srv = srv\<lparr>svPeers := (svPeers srv)(idx := ps)\<rparr>"

definition resetPeers :: "nat \<Rightarrow> Server \<Rightarrow> Server option" where
  "resetPeers idx srv =
     (if length (svPeers srv idx) \<ge> maxPeers
      then case dropPeers (svPeers srv idx) srv of None \<Rightarrow> None | Some srv \<Rightarrow> Some (setPeers idx [] srv)
      else Some srv)"

definition serveUDPFrame :: "ServerConfig \<Rightarrow> instant \<Rightarrow> nat \<Rightarrow> string \<Rightarrow> Frame \<Rightarrow> Server \<Rightarrow> Server option" where
  "serveUDPFrame c now idx addr f srv =
     (case map_of (svPeers srv idx) addr of
        Some pl \<Rightarrow> Some (postTo now f (plLeg pl) (plSess pl) srv)
      | None \<Rightarrow>
          case resetPeers idx srv of
            None \<Rightarrow> None
          | Some srv \<Rightarrow>
              let l = svNextLeg srv in
              case bindLeg c now f l (udpLeg idx addr) (srv\<lparr>svNextLeg := l + 1\<rparr>) of
                None \<Rightarrow> None
              | Some (b, srv) \<Rightarrow>
                  Some (postTo now f l b
                    (setPeers idx (AList.update addr \<lparr>plLeg = l, plSess = b\<rparr> (svPeers srv idx)) srv)))"

text \<open>The frames of one datagram, and the error that ended it, if any.\<close>

function datagramFrames :: "byte list \<Rightarrow> u32 \<Rightarrow> Frame list \<times> icg_error option" where
  "datagramFrames buf magic =
     (if buf = [] then ([], None)
      else case Decode buf magic of
          Inl err \<Rightarrow> ([], Some err)
        | Inr (f, used) \<Rightarrow> (case datagramFrames (drop used buf) magic of (fs, err) \<Rightarrow> (f # fs, err)))"
  by pat_completeness auto
termination
  by (relation "measure (\<lambda>(buf, magic). length buf)") (auto dest: Decode_consumed)

declare datagramFrames.simps [simp del]

section \<open>Complaints\<close>

definition hexOf :: "u32 \<Rightarrow> nat \<Rightarrow> char" where
  "hexOf v i = ''0123456789abcdef'' ! unat (drop_bit (4 * i) v AND 0xf)"

definition hex32 :: "u32 \<Rightarrow> string" where
  "hex32 v = ''0x'' @ map (hexOf v) [7, 6, 5, 4, 3, 2, 1, 0]"

text \<open>The verbs \<open>%x\<close> on an integer and \<open>% x\<close> on bytes.\<close>

definition hexPlain :: "u32 \<Rightarrow> string" where
  "hexPlain v = (let ds = dropWhile (\<lambda>ch. ch = CHR ''0'') (map (hexOf v) [7, 6, 5, 4, 3, 2, 1, 0])
     in if ds = [] then ''0'' else ds)"

fun hexSpaced :: "byte list \<Rightarrow> string" where
  "hexSpaced [] = ''''"
| "hexSpaced [b] = [hexDigit (drop_bit 4 b), hexDigit b]"
| "hexSpaced (b # c # bs) = [hexDigit (drop_bit 4 b), hexDigit b, CHR '' ''] @ hexSpaced (c # bs)"

definition identifierFix :: "ServerConfig \<Rightarrow> u32 \<Rightarrow> string" where
  "identifierFix c got = ''set icg.conf TunnelIdentifier='' @ hexPlain (cfMagic c)
     @ '' on the device, or restart icgd with -magic '' @ hexPlain got"

definition OnDesync :: "ServerConfig \<Rightarrow> instant \<Rightarrow> string \<Rightarrow> byte list \<Rightarrow> Server \<Rightarrow> Server" where
  "OnDesync c now remote prefix srv =
     (if length prefix \<ge> 4 \<and> leU32 prefix \<noteq> cfMagic c
      then notice now ''warn'' ''magic-mismatch'' remote (identifierFix c (leU32 prefix))
             (''wrong TunnelIdentifier: the peer sent magic '' @ hex32 (leU32 prefix) @ '', we expect '' @ hex32 (cfMagic c)) srv
      else notice now ''warn'' ''framing-lost'' remote
             ''check the peer really is zte_icg_agg and that nothing is rewriting the stream''
             (''lost frame framing; the magic matched but the length did not (saw '' @ hexSpaced prefix @ '')'') srv)"

text \<open>The error's own text (\<open>%v\<close>) is a parameter.\<close>

definition reportBadDatagram :: "ServerConfig \<Rightarrow> instant \<Rightarrow> string \<Rightarrow> byte list \<Rightarrow> string \<Rightarrow> Server \<Rightarrow> Server" where
  "reportBadDatagram c now addr b errText srv =
     (let first = (map_of (svBadPeers srv) addr \<noteq> Some True);
          srv = (if first \<and> length (svBadPeers srv) < 256
                 then srv\<lparr>svBadPeers := AList.update addr True (svBadPeers srv)\<rparr> else srv)
      in if \<not> first then srv
         else if length b \<ge> 4 \<and> leU32 b \<noteq> cfMagic c
         then notice now ''warn'' ''magic-mismatch-udp'' addr (identifierFix c (leU32 b))
                (''UDP datagram with the wrong TunnelIdentifier: peer sent '' @ hex32 (leU32 b) @ '', we expect '' @ hex32 (cfMagic c)) srv
         else notice now ''warn'' ''bad-udp-datagram'' addr ''check nothing else is sending to this UDP port''
                (''unparseable UDP datagram, '' @ dec_digits (length b) @ '' bytes, head '' @ hexSpaced (take 16 b) @ '' ('' @ errText @ '')'') srv)"

fun serveUDPFrames :: "ServerConfig \<Rightarrow> instant \<Rightarrow> nat \<Rightarrow> string \<Rightarrow> Frame list \<Rightarrow> Server \<Rightarrow> Server option" where
  "serveUDPFrames c now idx addr [] srv = Some srv"
| "serveUDPFrames c now idx addr (f # fs) srv =
     (case serveUDPFrame c now idx addr f srv of None \<Rightarrow> None | Some srv \<Rightarrow> serveUDPFrames c now idx addr fs srv)"

definition serveDatagram :: "ServerConfig \<Rightarrow> instant \<Rightarrow> nat \<Rightarrow> string \<Rightarrow> byte list \<Rightarrow> string \<Rightarrow> Server \<Rightarrow> Server option" where
  "serveDatagram c now idx addr buf errText srv =
     (case datagramFrames buf (cfMagic c) of
        (fs, err) \<Rightarrow>
          if fs = [] \<and> err \<noteq> None then Some (reportBadDatagram c now addr buf errText srv)
          else serveUDPFrames c now idx addr fs srv)"

section \<open>The reaper\<close>

definition reapSession :: "ServerConfig \<Rightarrow> instant \<Rightarrow> u32 \<times> nat \<Rightarrow> Server \<Rightarrow> Server" where
  "reapSession c now kb srv =
     (case kb of (k, b) \<Rightarrow>
        if IdleFor now (svBox srv b) > svSessionIdle c
        then (putBox b (stop (svBox srv b)) srv)\<lparr>svSessions := AList.delete k (svSessions srv)\<rparr>
        else srv)"

definition reapSessions :: "ServerConfig \<Rightarrow> instant \<Rightarrow> Server \<Rightarrow> Server" where
  "reapSessions c now srv = fold (reapSession c now) (svSessions srv) srv"

end
