(* ===== verification/Server_Runs.thy ===== *)
theory Server_Runs
  imports Server Session_Down
begin

text \<open>
  The server at work: its goroutines interleaved, one step each, in any order. The invariant
  ties every leg to the one session it was bound to, so that what holds of a session alone
  holds of all of them side by side.
\<close>

section \<open>Steps\<close>

text \<open>
  A step that would block is not enabled, and a step that panics ends the process, so there
  is none. A cancelled session may still take messages until it notices.
\<close>

inductive server_step :: "ServerConfig \<Rightarrow> env \<Rightarrow> Server \<Rightarrow> Server \<Rightarrow> bool"
  for c :: ServerConfig and e :: env where
  Accept: "server_step c e srv (acceptTCP remote srv)"
| TCPFrame: "serveTCPFrame c now l f srv = Some srv' \<Longrightarrow> server_step c e srv srv'"
| TCPEnd: "serveTCPEnd now l resyncs srv = Some srv' \<Longrightarrow> server_step c e srv srv'"
| Desync: "server_step c e srv (OnDesync c now remote prefix srv)"
| Datagram: "serveDatagram c now idx addr buf errText srv = Some srv' \<Longrightarrow> server_step c e srv srv'"
| Message: "b < svNextBox srv \<Longrightarrow> \<not> bxDone (svBox srv b) \<Longrightarrow> bxIn (svBox srv b) = m # ms \<Longrightarrow>
    sessionStep (sessionConfig c) e m (bxSess (svBox srv b)) = Ret t \<Longrightarrow>
    server_step c e srv (putBox b ((svBox srv b)\<lparr>bxIn := ms, bxSess := t\<rparr>) srv)"
| Upstream: "b < svNextBox srv \<Longrightarrow> \<not> bxDone (svBox srv b) \<Longrightarrow>
    sessionStep (sessionConfig c) e (EvUpstream u) (bxSess (svBox srv b)) = Ret t \<Longrightarrow>
    server_step c e srv (putBox b ((svBox srv b)\<lparr>bxSess := t\<rparr>) srv)"
| Tick: "b < svNextBox srv \<Longrightarrow> \<not> bxDone (svBox srv b) \<Longrightarrow>
    sessionStep (sessionConfig c) e (EvTick now) (bxSess (svBox srv b)) = Ret t \<Longrightarrow>
    server_step c e srv (putBox b ((svBox srv b)\<lparr>bxSess := t\<rparr>) srv)"
| Done: "b < svNextBox srv \<Longrightarrow> \<not> bxDone (svBox srv b) \<Longrightarrow> bxStopped (svBox srv b) \<Longrightarrow>
    server_step c e srv (putBox b ((svBox srv b)\<lparr>bxDone := True, bxSess := shutdown (bxSess (svBox srv b))\<rparr>) srv)"
| Reap: "server_step c e srv (reapSessions c now srv)"

section \<open>The invariant\<close>

definition owned :: "Server \<Rightarrow> nat \<Rightarrow> nat set" where
  "owned srv b = {l. \<exists>k. svOwner srv l = Some (b, k)}"

definition box_ok :: "nat set \<Rightarrow> ServerConfig \<Rightarrow> box \<Rightarrow> bool" where
  "box_ok L c x \<longleftrightarrow> sess_ok L (sessionConfig c) (bxKey x) (bxSess x) \<and> (\<forall>m \<in> set (bxIn x). event_legs m \<subseteq> L)"

definition core_ok :: "ServerConfig \<Rightarrow> Server \<Rightarrow> bool" where
  "core_ok c srv \<longleftrightarrow>
     (\<forall>k b. map_of (svSessions srv) k = Some b \<longrightarrow> b < svNextBox srv \<and> bxKey (svBox srv b) = k)
     \<and> (\<forall>b < svNextBox srv. box_ok (owned srv b) c (svBox srv b))
     \<and> (\<forall>l b k. svOwner srv l = Some (b, k) \<longrightarrow> b < svNextBox srv \<and> bxKey (svBox srv b) = k \<and> l < svNextLeg srv)
     \<and> (\<forall>l cn b. map_of (svConns srv) l = Some cn \<longrightarrow> tnSess cn = Some b \<longrightarrow> l \<in> owned srv b)
     \<and> (\<forall>idx a pl. (a, pl) \<in> set (svPeers srv idx) \<longrightarrow> plLeg pl \<in> owned srv (plSess pl))"

definition unbound_ok :: "Server \<Rightarrow> bool" where
  "unbound_ok srv \<longleftrightarrow> (\<forall>l cn. map_of (svConns srv) l = Some cn \<longrightarrow> l < svNextLeg srv
     \<and> (tnSess cn = None \<longrightarrow> svOwner srv l = None))"

lemma core_parts:
  assumes "core_ok c srv"
  shows "map_of (svSessions srv) k = Some b \<Longrightarrow> b < svNextBox srv \<and> bxKey (svBox srv b) = k"
    and "b < svNextBox srv \<Longrightarrow> box_ok (owned srv b) c (svBox srv b)"
    and "svOwner srv l = Some (b, k) \<Longrightarrow> b < svNextBox srv \<and> bxKey (svBox srv b) = k \<and> l < svNextLeg srv"
    and "map_of (svConns srv) l = Some cn \<Longrightarrow> tnSess cn = Some b \<Longrightarrow> l \<in> owned srv b"
    and "(a, pl) \<in> set (svPeers srv idx) \<Longrightarrow> plLeg pl \<in> owned srv (plSess pl)"
  using assms unfolding core_ok_def by blast+

lemma owned_less: "core_ok c srv \<Longrightarrow> l \<in> owned srv b \<Longrightarrow> b < svNextBox srv"
  using core_parts(3) by (auto simp: owned_def)

lemma sess_ok_mono: "sess_ok L c tun s \<Longrightarrow> L \<subseteq> L' \<Longrightarrow> sess_ok L' c tun s"
proof -
  have "wire_ok L c tun x \<Longrightarrow> L \<subseteq> L' \<Longrightarrow> wire_ok L' c tun x" for x by (cases x) auto
  then show "sess_ok L c tun s \<Longrightarrow> L \<subseteq> L' \<Longrightarrow> sess_ok L' c tun s"
    unfolding sess_ok_def list_all_iff by blast
qed

lemma box_ok_mono: "box_ok L c x \<Longrightarrow> L \<subseteq> L' \<Longrightarrow> box_ok L' c x"
  unfolding box_ok_def using sess_ok_mono by blast

lemma putBox_fields [simp]:
  "svSessions (putBox b x srv) = svSessions srv" "svNextBox (putBox b x srv) = svNextBox srv"
  "svNextLeg (putBox b x srv) = svNextLeg srv" "svConns (putBox b x srv) = svConns srv"
  "svPeers (putBox b x srv) = svPeers srv" "svOwner (putBox b x srv) = svOwner srv"
  "svBox (putBox b x srv) = (svBox srv)(b := x)" "owned (putBox b x srv) = owned srv"
  by (simp_all add: putBox_def owned_def fun_eq_iff)

lemma core_putBox:
  assumes "core_ok c srv" and "bxKey x = bxKey (svBox srv b)" and "b < svNextBox srv \<Longrightarrow> box_ok (owned srv b) c x"
  shows "core_ok c (putBox b x srv)"
  using assms unfolding core_ok_def by auto

lemma unbound_putBox [simp]: "unbound_ok (putBox b x srv) = unbound_ok srv"
  by (simp add: unbound_ok_def)

lemma notice_fields [simp]:
  "core_ok c (notice now lv kd p fx ms srv) = core_ok c srv" "unbound_ok (notice now lv kd p fx ms srv) = unbound_ok srv"
  by (simp_all add: notice_def core_ok_def unbound_ok_def owned_def)

section \<open>Operations\<close>

lemma postTo_ok:
  assumes "core_ok c srv" and "l \<in> owned srv b"
  shows "core_ok c (postTo now f l b srv)"
proof -
  have "box_ok (owned srv b) c (svBox srv b)" using core_parts(2) [OF assms(1) owned_less [OF assms]] .
  then have "box_ok (owned srv b) c (post now f l (svBox srv b))"
    using assms(2) by (auto simp: box_ok_def post_def Let_def)
  then show ?thesis
    unfolding postTo_def using assms(1) by (intro core_putBox) (simp_all add: post_def Let_def)
qed

lemma closeLeg_ok: "core_ok c srv \<Longrightarrow> core_ok c (closeLeg l b srv)"
  unfolding closeLeg_def Let_def
  by (intro core_putBox) (simp_all add: box_ok_def core_parts(2) [unfolded box_ok_def])

lemma closeLeg_fields [simp]:
  "svOwner (closeLeg l b srv) = svOwner srv" "svPeers (closeLeg l b srv) = svPeers srv"
  "svConns (closeLeg l b srv) = svConns srv" "svNextLeg (closeLeg l b srv) = svNextLeg srv"
  "unbound_ok (closeLeg l b srv) = unbound_ok srv"
  by (simp_all add: closeLeg_def Let_def)

lemma detachFrom_ok:
  assumes "core_ok c srv" and "detachFrom l b srv = Some srv'"
  shows "core_ok c srv' \<and> svOwner srv' = svOwner srv \<and> svPeers srv' = svPeers srv \<and> svConns srv' = svConns srv
    \<and> svNextLeg srv' = svNextLeg srv"
proof -
  from assms(2) obtain x where x: "detachLeg (lgKey (seHeap (bxSess (svBox srv b)) l)) (svBox srv b) = Some x"
    "srv' = putBox b x srv" by (auto simp: detachFrom_def Let_def split: option.splits)
  have "core_ok c (putBox b x srv)"
    using x(1) assms(1) core_parts(2) [OF assms(1), of b]
    by (intro core_putBox) (auto simp: detachLeg_def sendMsg_def box_ok_def split: if_splits)
  then show ?thesis using x(2) by simp
qed

lemma newBox_ok: "box_ok L c (newBox c k now)"
  by (simp add: box_ok_def newBox_def newSession_ok)

lemma session_ok:
  assumes "core_ok c srv" and "session c now k srv = (b, srv')"
  shows "core_ok c srv' \<and> b < svNextBox srv' \<and> bxKey (svBox srv' b) = k \<and> svOwner srv' = svOwner srv
    \<and> svPeers srv' = svPeers srv \<and> svConns srv' = svConns srv \<and> svNextLeg srv' = svNextLeg srv"
proof (cases "map_of (svSessions srv) k")
  case (Some b')
  then show ?thesis using assms core_parts(1) [OF assms(1) Some] by (simp add: session_def)
next
  case None
  let ?n = "svNextBox srv"
  let ?srv = "(putBox ?n (newBox c k now) srv)\<lparr>svNextBox := ?n + 1, svSessions := AList.update k ?n (svSessions srv)\<rparr>"
  have s: "srv' = ?srv" "b = ?n" using assms(2) None by (auto simp: session_def Let_def)
  have o: "owned ?srv = owned srv" by (simp add: owned_def fun_eq_iff)
  have less: "bb < ?n" if "svOwner srv l = Some (bb, kk)" for l bb kk using core_parts(3) [OF assms(1) that] by simp
  have key: "bxKey (newBox c k now) = k" by (simp add: newBox_def)
  have "core_ok c ?srv"
    unfolding core_ok_def o using assms(1) key newBox_ok [of _ c k now]
    by (auto simp: less_Suc_eq core_parts dest: less) (auto simp: core_ok_def)
  then show ?thesis using s key by simp
qed

lemma bindLeg_ok:
  assumes "core_ok c srv" and "svOwner srv l = None" and "l < svNextLeg srv" and "bindLeg c now f l leg srv = Some (b, srv')"
  shows "core_ok c srv' \<and> svOwner srv' = (svOwner srv)(l \<mapsto> (b, frIcgID f)) \<and> svPeers srv' = svPeers srv
    \<and> svConns srv' = svConns srv \<and> svNextLeg srv' = svNextLeg srv"
proof -
  obtain b1 s1 where s: "session c now (frIcgID f) srv = (b1, s1)" by (metis surj_pair)
  from assms(4) obtain x where x: "attachLeg l ((svBox s1 b1)\<lparr>bxSess := setLeg l leg (bxSess (svBox s1 b1))\<rparr>) = Some x"
      "b = b1" "srv' = (putBox b x s1)\<lparr>svOwner := (svOwner s1)(l \<mapsto> (b, frIcgID f))\<rparr>"
    by (auto simp: bindLeg_def s Let_def split: option.splits)
  have s1: "core_ok c s1" "b < svNextBox s1" "bxKey (svBox s1 b) = frIcgID f" "svOwner s1 = svOwner srv"
      "svPeers s1 = svPeers srv" "svConns s1 = svConns srv" "svNextLeg s1 = svNextLeg srv"
    using session_ok [OF assms(1) s] x(2) by auto
  have own: "owned srv' bb = (if bb = b then insert l (owned s1 b) else owned s1 bb)" for bb
    using assms(2) s1(4) by (auto simp: owned_def x(3) split: if_splits)
  then have mono: "owned s1 bb \<subseteq> owned srv' bb" for bb by auto
  have key: "bxKey x = frIcgID f" using x(1,2) s1(3) by (auto simp: attachLeg_def sendMsg_def split: if_splits)
  have bx: "box_ok (owned srv' b) c x"
    using x(1,2) core_parts(2) [OF s1(1,2), THEN box_ok_mono, OF mono] own [of b]
    by (auto simp: attachLeg_def sendMsg_def box_ok_def split: if_splits)
  have box: "svBox srv' = (svBox s1)(b := x)" by (simp add: x(3))
  have boxes: "box_ok (owned srv' bb) c (svBox srv' bb)" if "bb < svNextBox srv'" for bb
    using bx box that core_parts(2) [OF s1(1), of bb, THEN box_ok_mono, OF _ mono] by (auto simp: x(3))
  have keys: "bxKey (svBox srv' bb) = bxKey (svBox s1 bb)" for bb using key s1(3) by (simp add: box)
  have f: "svSessions srv' = svSessions s1" "svNextBox srv' = svNextBox s1" "svNextLeg srv' = svNextLeg s1"
      "svConns srv' = svConns s1" "svPeers srv' = svPeers s1" "svOwner srv' = (svOwner srv)(l \<mapsto> (b, frIcgID f))"
    using s1(4) by (simp_all add: x(3))
  have "bb < svNextBox s1 \<and> bxKey (svBox s1 bb) = k \<and> ll < svNextLeg s1" if "svOwner srv' ll = Some (bb, k)" for ll bb k
    using that core_parts(3) [OF s1(1), of ll bb k] s1(2-4,7) assms(3) by (auto simp: f(6) split: if_splits)
  then have "core_ok c srv'"
    unfolding core_ok_def f(1-5) keys
    using boxes core_parts [OF s1(1)] subsetD [OF mono] unfolding f(2) by blast
  then show ?thesis using s1 f by simp
qed

lemma owned_conns [simp]: "owned (srv\<lparr>svConns := cs\<rparr>) = owned srv" "owned (srv\<lparr>svNextLeg := n\<rparr>) = owned srv"
  "owned (srv\<lparr>svPeers := ps\<rparr>) = owned srv"
  by (simp_all add: owned_def fun_eq_iff)

lemma core_conns:
  "core_ok c srv \<Longrightarrow> (\<And>l cn b. map_of cs l = Some cn \<Longrightarrow> tnSess cn = Some b \<Longrightarrow> l \<in> owned srv b) \<Longrightarrow> core_ok c (srv\<lparr>svConns := cs\<rparr>)"
  "core_ok c srv \<Longrightarrow> (\<And>idx a pl. (a, pl) \<in> set (ps idx) \<Longrightarrow> plLeg pl \<in> owned srv (plSess pl)) \<Longrightarrow> core_ok c (srv\<lparr>svPeers := ps\<rparr>)"
  unfolding core_ok_def by auto

lemma core_legs: "core_ok c srv \<Longrightarrow> svNextLeg srv \<le> n \<Longrightarrow> core_ok c (srv\<lparr>svNextLeg := n\<rparr>)"
  unfolding core_ok_def by simp (meson less_le_trans)

definition srv_ok :: "ServerConfig \<Rightarrow> Server \<Rightarrow> bool" where
  "srv_ok c srv \<longleftrightarrow> core_ok c srv \<and> unbound_ok srv"

lemma owner_fresh: "core_ok c srv \<Longrightarrow> svOwner srv (svNextLeg srv) = None"
  using core_parts(3) [of c srv "svNextLeg srv"] by (metis not_Some_eq nat_neq_iff surj_pair)

lemma acceptTCP_ok: "srv_ok c srv \<Longrightarrow> srv_ok c (acceptTCP remote srv)"
proof -
  assume ok: "srv_ok c srv"
  let ?cs = "AList.update (svNextLeg srv) \<lparr>tnRemote = remote, tnSess = None\<rparr> (svConns srv)"
  have "core_ok c (srv\<lparr>svNextLeg := svNextLeg srv + 1\<rparr>)"
    using ok by (intro core_legs) (simp_all add: srv_ok_def)
  then have "core_ok c (srv\<lparr>svNextLeg := svNextLeg srv + 1, svConns := ?cs\<rparr>)"
    using ok by (intro core_conns(1)) (auto simp: srv_ok_def core_parts(4) split: if_splits)
  moreover have "svOwner srv (svNextLeg srv) = None" using ok owner_fresh [of c srv] by (simp add: srv_ok_def)
  ultimately show ?thesis
    using ok by (auto simp: srv_ok_def acceptTCP_def unbound_ok_def less_Suc_eq split: if_splits)
qed

lemma serveTCPFrame_ok:
  assumes "srv_ok c srv" and "serveTCPFrame c now l f srv = Some srv'"
  shows "srv_ok c srv'"
proof -
  have core: "core_ok c srv" and ub: "unbound_ok srv" using assms(1) by (simp_all add: srv_ok_def)
  obtain cn where cn: "map_of (svConns srv) l = Some cn" using assms(2) by (auto simp: serveTCPFrame_def split: option.splits)
  show ?thesis
  proof (cases "tnSess cn")
    case (Some b)
    then have "srv' = postTo now f l b srv" using assms(2) cn by (simp add: serveTCPFrame_def)
    then show ?thesis
      using postTo_ok [OF core core_parts(4) [OF core cn Some]] ub by (simp add: srv_ok_def postTo_def)
  next
    case None
    obtain b s1 where bd: "bindLeg c now f l (tcpLeg (tnRemote cn)) srv = Some (b, s1)"
      and s': "srv' = postTo now f l b (s1\<lparr>svConns := AList.update l (cn\<lparr>tnSess := Some b\<rparr>) (svConns s1)\<rparr>)"
      using assms(2) cn None by (auto simp: serveTCPFrame_def split: option.splits)
    have l: "svOwner srv l = None" "l < svNextLeg srv" using ub cn None by (auto simp: unbound_ok_def)
    note b = bindLeg_ok [OF core l bd]
    let ?s2 = "s1\<lparr>svConns := AList.update l (cn\<lparr>tnSess := Some b\<rparr>) (svConns s1)\<rparr>"
    have own: "l \<in> owned s1 b" using b by (simp add: owned_def)
    have c2: "core_ok c ?s2"
      using b own core_parts(4) [of c s1] by (intro core_conns(1)) (auto split: if_splits)
    have "unbound_ok ?s2" using ub b l(2) by (auto simp: unbound_ok_def split: if_splits)
    then show ?thesis using postTo_ok [OF c2, of l b] own s' by (simp add: srv_ok_def postTo_def)
  qed
qed

lemma serveTCPEnd_ok:
  assumes "srv_ok c srv" and "serveTCPEnd now l resyncs srv = Some srv'"
  shows "srv_ok c srv'"
proof -
  let ?s = "srv\<lparr>svConns := AList.delete l (svConns srv)\<rparr>"
  have core: "core_ok c ?s"
    using assms(1) by (intro core_conns(1)) (auto simp: srv_ok_def core_parts(4) split: if_splits)
  have ub: "unbound_ok ?s" using assms(1) by (auto simp: srv_ok_def unbound_ok_def split: if_splits)
  obtain cn where cn: "map_of (svConns srv) l = Some cn" using assms(2) by (auto simp: serveTCPEnd_def split: option.splits)
  show ?thesis
  proof (cases "tnSess cn")
    case None
    then show ?thesis using assms(2) cn core ub by (auto simp: serveTCPEnd_def srv_ok_def Let_def)
  next
    case (Some b)
    then have "detachFrom l b (closeLeg l b ?s) = Some srv'" using assms(2) cn by (simp add: serveTCPEnd_def Let_def)
    from detachFrom_ok [OF closeLeg_ok [OF core] this] ub show ?thesis by (simp add: srv_ok_def unbound_ok_def)
  qed
qed

lemma dropPeers_ok:
  "core_ok c srv \<Longrightarrow> dropPeers ps srv = Some srv' \<Longrightarrow>
     core_ok c srv' \<and> svOwner srv' = svOwner srv \<and> svPeers srv' = svPeers srv \<and> svConns srv' = svConns srv
     \<and> svNextLeg srv' = svNextLeg srv"
proof (induction ps srv rule: dropPeers.induct)
  case (2 a pl ps srv)
  obtain s1 where s1: "detachFrom (plLeg pl) (plSess pl) (closeLeg (plLeg pl) (plSess pl) srv) = Some s1"
    "dropPeers ps s1 = Some srv'" using 2(3) by (auto split: option.splits)
  note d = detachFrom_ok [OF closeLeg_ok [OF 2(2)] s1(1)]
  then show ?case using 2(1) [OF s1(1) _ s1(2)] by simp
qed simp

lemma resetPeers_ok:
  assumes "core_ok c srv" and "resetPeers idx srv = Some srv'"
  shows "core_ok c srv' \<and> svOwner srv' = svOwner srv \<and> svConns srv' = svConns srv \<and> svNextLeg srv' = svNextLeg srv"
proof (cases "length (svPeers srv idx) \<ge> maxPeers")
  case True
  then obtain s1 where s1: "dropPeers (svPeers srv idx) srv = Some s1" "srv' = setPeers idx [] s1"
    using assms(2) by (auto simp: resetPeers_def split: option.splits)
  note d = dropPeers_ok [OF assms(1) s1(1)]
  have "core_ok c (s1\<lparr>svPeers := (svPeers s1)(idx := [])\<rparr>)"
    using d by (intro core_conns(2)) (auto simp: core_parts(5) split: if_splits)
  then show ?thesis using d s1(2) by (simp add: setPeers_def)
qed (use assms in \<open>simp add: resetPeers_def\<close>)

lemma serveUDPFrame_ok:
  assumes "srv_ok c srv" and "serveUDPFrame c now idx addr f srv = Some srv'"
  shows "srv_ok c srv'"
proof -
  have core: "core_ok c srv" and ub: "unbound_ok srv" using assms(1) by (simp_all add: srv_ok_def)
  show ?thesis
  proof (cases "map_of (svPeers srv idx) addr")
    case (Some pl)
    then have "srv' = postTo now f (plLeg pl) (plSess pl) srv" using assms(2) by (simp add: serveUDPFrame_def)
    then show ?thesis
      using postTo_ok [OF core core_parts(5) [OF core map_of_SomeD [OF Some]]] ub by (simp add: srv_ok_def postTo_def)
  next
    case None
    obtain s1 b s2 where s1: "resetPeers idx srv = Some s1"
      and s2: "bindLeg c now f (svNextLeg s1) (udpLeg idx addr) (s1\<lparr>svNextLeg := svNextLeg s1 + 1\<rparr>) = Some (b, s2)"
      and s': "srv' = postTo now f (svNextLeg s1) b (setPeers idx (AList.update addr \<lparr>plLeg = svNextLeg s1, plSess = b\<rparr> (svPeers s2 idx)) s2)"
      using assms(2) None by (auto simp: serveUDPFrame_def Let_def split: option.splits)
    note r = resetPeers_ok [OF core s1]
    let ?s = "s1\<lparr>svNextLeg := svNextLeg s1 + 1\<rparr>"
    have core1: "core_ok c ?s" using r by (intro core_legs) simp_all
    have fresh: "svOwner ?s (svNextLeg s1) = None" using r owner_fresh [of c s1] by simp
    note b = bindLeg_ok [OF core1 fresh _ s2]
    let ?ps = "(svPeers s2)(idx := AList.update addr \<lparr>plLeg = svNextLeg s1, plSess = b\<rparr> (svPeers s2 idx))"
    have own: "svNextLeg s1 \<in> owned s2 b" using b by (simp add: owned_def)
    have upd: "set (AList.update k v m) \<subseteq> insert (k, v) (set m)" for k and v :: peerLeg and m by (induction m) auto
    have c3: "core_ok c (s2\<lparr>svPeers := ?ps\<rparr>)"
      using b own core_parts(5) [of c s2] upd by (intro core_conns(2)) (fastforce split: if_splits)+
    have ub3: "unbound_ok (s2\<lparr>svPeers := ?ps\<rparr>)"
      using ub r b by (auto simp: unbound_ok_def dest: less_SucI)
    show ?thesis using postTo_ok [OF c3, of "svNextLeg s1" b] own ub3 s' by (simp add: srv_ok_def postTo_def setPeers_def)
  qed
qed

lemma serveUDPFrames_ok: "srv_ok c srv \<Longrightarrow> serveUDPFrames c now idx addr fs srv = Some srv' \<Longrightarrow> srv_ok c srv'"
  by (induction fs arbitrary: srv) (auto split: option.splits dest: serveUDPFrame_ok)

lemma srv_notice [simp]: "srv_ok c (notice now lv kd p fx ms srv) = srv_ok c srv"
  by (simp add: srv_ok_def)

lemma reportBadDatagram_ok: "srv_ok c srv \<Longrightarrow> srv_ok c (reportBadDatagram c now addr b et srv)"
proof -
  have "srv_ok c (srv\<lparr>svBadPeers := x\<rparr>) = srv_ok c srv" for x
    by (simp add: srv_ok_def core_ok_def unbound_ok_def owned_def)
  then show "srv_ok c srv \<Longrightarrow> srv_ok c (reportBadDatagram c now addr b et srv)"
    by (simp add: reportBadDatagram_def Let_def)
qed

lemma serveDatagram_ok: "srv_ok c srv \<Longrightarrow> serveDatagram c now idx addr buf et srv = Some srv' \<Longrightarrow> srv_ok c srv'"
  by (auto simp: serveDatagram_def reportBadDatagram_ok split: prod.splits if_splits dest: serveUDPFrames_ok)

lemma reapSession_ok: "srv_ok c srv \<Longrightarrow> srv_ok c (reapSession c now kb srv)"
proof -
  assume ok: "srv_ok c srv"
  obtain k b where kb: "kb = (k, b)" by (cases kb)
  let ?s = "putBox b (stop (svBox srv b)) srv"
  have "core_ok c ?s"
    using ok core_parts(2) [of c srv b] by (intro core_putBox) (auto simp: srv_ok_def stop_def box_ok_def)
  then have "core_ok c (?s\<lparr>svSessions := AList.delete k (svSessions srv)\<rparr>)"
    unfolding core_ok_def by (auto simp: owned_def)
  moreover have "unbound_ok (?s\<lparr>svSessions := AList.delete k (svSessions srv)\<rparr>)"
    using ok by (simp add: srv_ok_def unbound_ok_def)
  ultimately show ?thesis using ok by (simp add: reapSession_def kb srv_ok_def)
qed

lemma reapSessions_ok: "srv_ok c srv \<Longrightarrow> srv_ok c (reapSessions c now srv)"
  unfolding reapSessions_def by (rule fold_ok [where P = "srv_ok c"]) (rule reapSession_ok)

lemma sess_box_ok:
  assumes "srv_ok c srv" and "b < svNextBox srv" and "event_legs m \<subseteq> owned srv b" and "set ms \<subseteq> set (bxIn (svBox srv b))"
    and "sessionStep (sessionConfig c) e m (bxSess (svBox srv b)) = Ret t"
  shows "srv_ok c (putBox b ((svBox srv b)\<lparr>bxIn := ms, bxSess := t\<rparr>) srv)"
proof -
  have box: "box_ok (owned srv b) c (svBox srv b)" using assms(1,2) core_parts(2) by (simp add: srv_ok_def)
  then have "sess_ok (owned srv b) (sessionConfig c) (bxKey (svBox srv b)) t"
    using sessionStep_ok [OF _ assms(3,5)] by (simp add: box_ok_def)
  then have "box_ok (owned srv b) c ((svBox srv b)\<lparr>bxIn := ms, bxSess := t\<rparr>)"
    using box assms(4) by (auto simp: box_ok_def)
  then show ?thesis using assms(1) by (auto simp: srv_ok_def intro!: core_putBox)
qed

lemma shutdown_ok: "sess_ok L c tun s \<Longrightarrow> sess_ok L c tun (shutdown s)"
proof -
  have "sess_ok L c tun s \<Longrightarrow> sess_ok L c tun (closeFlows s)" for s
    unfolding closeFlows_def by (rule fold_ok [where P = "sess_ok L c tun"]) auto
  moreover have "sess_ok L c tun s \<Longrightarrow> sess_ok L c tun (closeUdpFlows s)" for s
    unfolding closeUdpFlows_def by (rule fold_ok [where P = "sess_ok L c tun"]) (auto simp: udpClose_def)
  ultimately show "sess_ok L c tun s \<Longrightarrow> sess_ok L c tun (shutdown s)" by (simp add: shutdown_def)
qed

lemma OnDesync_ok: "srv_ok c srv \<Longrightarrow> srv_ok c (OnDesync c' now remote prefix srv)"
  by (simp add: OnDesync_def)

lemma server_step_ok: "server_step c e srv srv' \<Longrightarrow> srv_ok c srv \<Longrightarrow> srv_ok c srv'"
proof (induction rule: server_step.induct)
  case (Message b srv m ms t)
  have "set (bxIn (svBox srv b)) = set (m # ms)" using Message(3) by simp
  moreover have "\<forall>m \<in> set (bxIn (svBox srv b)). event_legs m \<subseteq> owned srv b"
    using Message(1,5) core_parts(2) [of c srv b] by (simp add: srv_ok_def box_ok_def)
  ultimately show ?case using Message sess_box_ok [of c srv b m ms] by auto
next
  case (Upstream b srv u t)
  then show ?case using sess_box_ok [of c srv b "EvUpstream u" "bxIn (svBox srv b)"] by auto
next
  case (Tick b srv now t)
  then show ?case using sess_box_ok [of c srv b "EvTick now" "bxIn (svBox srv b)"] by auto
next
  case (Done b srv)
  then have "box_ok (owned srv b) c (svBox srv b)" using core_parts(2) by (simp add: srv_ok_def)
  then have "box_ok (owned srv b) c ((svBox srv b)\<lparr>bxDone := True, bxSess := shutdown (bxSess (svBox srv b))\<rparr>)"
    by (simp add: box_ok_def shutdown_ok)
  then show ?case using Done(4) by (auto simp: srv_ok_def intro!: core_putBox)
qed (auto intro: acceptTCP_ok serveTCPFrame_ok serveTCPEnd_ok serveDatagram_ok reapSessions_ok OnDesync_ok)

lemma newServer_ok: "srv_ok c (newServer c)"
  by (simp add: srv_ok_def core_ok_def unbound_ok_def newServer_def)

lemma server_runs_ok: "(server_step c e)\<^sup>*\<^sup>* (newServer c) srv \<Longrightarrow> srv_ok c srv"
  by (induction rule: rtranclp_induct) (auto intro: newServer_ok server_step_ok)

section \<open>Properties\<close>

text \<open>
  C13: the server keeps its sessions apart. However the connections, UDP ports, sessions and
  the reaper interleave, every frame a session ever wrote went out on a leg that was bound
  to this very session by a frame with the session's identity, and carries that identity
  itself; so nothing of one device ever leaves on a leg of another, even when a later frame
  on the leg names someone else.
\<close>

theorem server_isolates:
  assumes "(server_step c e)\<^sup>*\<^sup>* (newServer c) srv" and "b < svNextBox srv"
  shows "list_all (\<lambda>x. case x of
      LegWrite l y \<Rightarrow> svOwner srv l = Some (b, bxKey (svBox srv b)) \<and> wire_frame (sessionConfig c) (bxKey (svBox srv b)) y
    | _ \<Rightarrow> True) (seOut (bxSess (svBox srv b)))"
proof -
  have core: "core_ok c srv" using server_runs_ok [OF assms(1)] by (simp add: srv_ok_def)
  have "list_all (wire_ok (owned srv b) (sessionConfig c) (bxKey (svBox srv b))) (seOut (bxSess (svBox srv b)))"
    using core_parts(2) [OF core assms(2)] by (simp add: box_ok_def sess_ok_def)
  moreover have "svOwner srv l = Some (b, bxKey (svBox srv b))" if "l \<in> owned srv b" for l
    using that core_parts(3) [OF core] by (fastforce simp: owned_def)
  ultimately show ?thesis by (auto simp: list_all_iff split: effect.splits)
qed

text \<open>A connection whose keepalive is answered, from start-up on.\<close>

definition exServerConfig :: ServerConfig where
  "exServerConfig = setDefaults \<lparr>cfMagic = 0, cfKeepaliveInterval = 0, cfAckInterval = 0,
     cfReorder = \<lparr>rcMaxPending = 0, rcRetransmitAfter = 0, rcSkipAfter = 0, rcSettle = 0\<rparr>, cfStashLimit = 0,
     cfMaxFlowsPerSession = 0, cfUDPFlowIdle = 0, cfStatsInterval = 0, cfAllowedDevices = [],
     svTCPAddr = '''', svUDPBase = 0, svUDPLegs = 0, svSessionIdle = 0, svVersion = ''''\<rparr>"

lemma server_isolates_witness:
  "\<exists>srv y. (server_step exServerConfig exEnv)\<^sup>*\<^sup>* (newServer exServerConfig) srv
     \<and> LegWrite 0 y \<in> set (seOut (bxSess (svBox srv 0))) \<and> svOwner srv 0 = Some (0, 9)"
proof -
  let ?c = exServerConfig
  let ?f = "\<lparr>frMagic = DefaultMagic, frIcgID = 9, frType = TypeHandshake, frOpcode = HSKeepalive, frSeq = 0, frBody = []\<rparr>"
  define s1 where "s1 = acceptTCP ''peer'' (newServer ?c)"
  define t0 where "t0 = setLeg 0 (tcpLeg ''peer'') (newSession (sessionConfig ?c) 9 5 (\<lambda>_. noLeg))"
  define i where "i = \<lparr>inLeg = 0, inFrame = ?f, inAt = 5\<rparr>"
  obtain s2 where s2: "serveTCPFrame ?c 5 0 ?f s1 = Some s2" "bxIn (svBox s2 0) = [EvAddLeg 0, EvFrame i]"
      "bxSess (svBox s2 0) = t0" "\<not> bxDone (svBox s2 0)" "svNextBox s2 = 1" "svOwner s2 0 = Some (0, 9)" "bxKey (svBox s2 0) = 9"
    by (simp add: s1_def serveTCPFrame_def acceptTCP_def newServer_def bindLeg_def session_def Let_def attachLeg_def sendMsg_def
        newBox_def chanCap_def postTo_def post_def t0_def i_def)
  define t1 where "t1 = t0\<lparr>seLegs := AList.update (lgKey (seHeap t0 0)) 0 (seLegs t0)\<rparr>"
  have m1: "sessionStep (sessionConfig ?c) exEnv (EvAddLeg 0) t0 = Ret t1" by (simp add: t1_def)
  let ?s3 = "putBox 0 ((svBox s2 0)\<lparr>bxIn := [EvFrame i], bxSess := t1\<rparr>) s2"
  have f1: "seHeap t1 0 = tcpLeg ''peer''" by (simp add: t1_def t0_def)
  have "\<exists>t2. sessionStep (sessionConfig ?c) exEnv (EvFrame i) t1 = Ret t2 \<and> (\<exists>y. LegWrite 0 y \<in> set (seOut t2))"
    by (auto simp: i_def handleFrame_def handleHandshake_def noteTunnelID_def TunnelIDFromFakePing_def sendOn_def writeRaw_def
        Let_def f1 tcpLeg_def exEnv_def)
  then obtain t2 y where m2: "sessionStep (sessionConfig ?c) exEnv (EvFrame i) t1 = Ret t2" and y: "LegWrite 0 y \<in> set (seOut t2)"
    by blast
  let ?s4 = "putBox 0 ((svBox ?s3 0)\<lparr>bxIn := [], bxSess := t2\<rparr>) ?s3"
  have "(server_step ?c exEnv)\<^sup>*\<^sup>* (newServer ?c) s1" unfolding s1_def by (intro r_into_rtranclp server_step.Accept)
  also have "(server_step ?c exEnv)\<^sup>*\<^sup>* s1 s2" using s2(1) by (intro r_into_rtranclp server_step.TCPFrame)
  also have "(server_step ?c exEnv)\<^sup>*\<^sup>* s2 ?s3"
  proof (rule r_into_rtranclp, rule server_step.Message)
    show "sessionStep (sessionConfig ?c) exEnv (EvAddLeg 0) (bxSess (svBox s2 0)) = Ret t1" unfolding s2(3) by (rule m1)
  qed (simp_all add: s2)
  also have "(server_step ?c exEnv)\<^sup>*\<^sup>* ?s3 ?s4"
    using s2 m2 by (intro r_into_rtranclp server_step.Message [of 0 _ "EvFrame i"]) simp_all
  finally have run: "(server_step ?c exEnv)\<^sup>*\<^sup>* (newServer ?c) ?s4" .
  have "0 < svNextBox ?s4" "LegWrite 0 y \<in> set (seOut (bxSess (svBox ?s4 0)))" "bxKey (svBox ?s4 0) = 9"
    using s2 y by simp_all
  with server_isolates [OF run this(1)] run show ?thesis by (fastforce simp: list_all_iff)
qed

text \<open>Going over the table: an entry found idle is stopped and deleted, and stays so.\<close>

lemma reapSession_fields [simp]:
  "svPeers (reapSession c now kb srv) = svPeers srv" "svNextBox (reapSession c now kb srv) = svNextBox srv"
  "bxLastRx (svBox (reapSession c now kb srv) b) = bxLastRx (svBox srv b)"
  "bxStopped (svBox srv b) \<Longrightarrow> bxStopped (svBox (reapSession c now kb srv) b)"
  "map_of (svSessions srv) k = None \<Longrightarrow> map_of (svSessions (reapSession c now kb srv)) k = None"
  by (auto simp: reapSession_def stop_def split: prod.split)

lemma reapAll_fields:
  "svPeers (fold (reapSession c now) kbs srv) = svPeers srv \<and> svNextBox (fold (reapSession c now) kbs srv) = svNextBox srv
   \<and> (\<forall>b. bxStopped (svBox srv b) \<longrightarrow> bxStopped (svBox (fold (reapSession c now) kbs srv) b))
   \<and> (\<forall>k. map_of (svSessions srv) k = None \<longrightarrow> map_of (svSessions (fold (reapSession c now) kbs srv)) k = None)"
  by (induction kbs arbitrary: srv) auto

lemma reapAll_idle:
  "(k, b) \<in> set kbs \<Longrightarrow> IdleFor now (svBox srv b) > svSessionIdle c \<Longrightarrow>
     bxStopped (svBox (fold (reapSession c now) kbs srv) b) \<and> map_of (svSessions (fold (reapSession c now) kbs srv)) k = None"
proof (induction kbs arbitrary: srv)
  case (Cons kb kbs)
  let ?s = "reapSession c now kb srv"
  show ?case
  proof (cases "kb = (k, b)")
    case True
    then have "bxStopped (svBox ?s b)" "map_of (svSessions ?s) k = None"
      using Cons.prems(2) by (simp_all add: reapSession_def stop_def)
    then show ?thesis using reapAll_fields [of c now kbs ?s] by simp
  next
    case False
    have "IdleFor now (svBox ?s b) = IdleFor now (svBox srv b)" by (simp add: IdleFor_def)
    then show ?thesis using Cons False by auto
  qed
qed simp

text \<open>
  C22: a UDP peer outlives its reaped session. When a session has been idle too long it is
  stopped and leaves the table, but the peer table of the UDP port still leads to it: the
  next frame from the same address is put into the inbox of the stopped session, or dropped
  when that is full, and no session is looked up or created for it, so a device that comes
  back from the same address is not served.
\<close>

theorem udp_peer_outlives_session:
  assumes "map_of (svPeers srv idx) addr = Some pl" and "map_of (svSessions srv) k = Some (plSess pl)"
    and "IdleFor now (svBox srv (plSess pl)) > svSessionIdle c" and "srv1 = reapSessions c now srv"
    and "serveUDPFrame c now' idx addr f srv1 = Some srv2"
  shows "bxStopped (svBox srv1 (plSess pl)) \<and> map_of (svSessions srv1) k = None
    \<and> svSessions srv2 = svSessions srv1 \<and> svNextBox srv2 = svNextBox srv1
    \<and> svBox srv2 = (svBox srv1)(plSess pl := post now' f (plLeg pl) (svBox srv1 (plSess pl)))
    \<and> bxStopped (svBox srv2 (plSess pl))"
proof -
  have s1: "bxStopped (svBox srv1 (plSess pl))" "map_of (svSessions srv1) k = None"
    using reapAll_idle [OF map_of_SomeD [OF assms(2)] assms(3)] by (simp_all add: assms(4) reapSessions_def)
  have "svPeers srv1 = svPeers srv" using reapAll_fields by (simp add: assms(4) reapSessions_def)
  then have "srv2 = postTo now' f (plLeg pl) (plSess pl) srv1" using assms(1,5) by (simp add: serveUDPFrame_def)
  then show ?thesis using s1 by (simp add: postTo_def post_def Let_def)
qed

lemma udp_peer_outlives_session_witness:
  "\<exists>srv srv1 srv2. srv1 = reapSessions exServerConfig (6 * Minute + 7) srv \<and> map_of (svSessions srv1) 9 = None
     \<and> serveUDPFrame exServerConfig (7 * Minute) 0 ''peer'' (mkFrame TypeHandshake HSKeepalive 0 []) srv1 = Some srv2
     \<and> bxStopped (svBox srv2 0) \<and> svSessions srv2 = svSessions srv1"
proof -
  let ?c = exServerConfig
  let ?f = "\<lparr>frMagic = DefaultMagic, frIcgID = 9, frType = TypeHandshake, frOpcode = HSKeepalive, frSeq = 0, frBody = []\<rparr>"
  obtain srv where srv: "serveUDPFrame ?c 5 0 ''peer'' ?f (newServer ?c) = Some srv"
      "map_of (svPeers srv 0) ''peer'' = Some \<lparr>plLeg = 0, plSess = 0\<rparr>" "map_of (svSessions srv) 9 = Some 0"
      "bxLastRx (svBox srv 0) = unixNano 5"
    by (simp add: serveUDPFrame_def resetPeers_def maxPeers_def newServer_def bindLeg_def session_def Let_def attachLeg_def
        sendMsg_def newBox_def chanCap_def postTo_def post_def setPeers_def)
  have idle: "svSessionIdle ?c < IdleFor (6 * Minute + 7) (svBox srv 0)"
    by (simp add: IdleFor_def srv(4) unixNano_def timeUnixNano_def timeSub_def exServerConfig_def setDefaults_def Let_def
        Minute_def Second_def unixEpochMS_def Millisecond_def)
  have "svPeers (reapSessions ?c (6 * Minute + 7) srv) 0 = svPeers srv 0"
    using reapAll_fields by (simp add: reapSessions_def)
  then obtain srv2 where srv2: "serveUDPFrame ?c (7 * Minute) 0 ''peer'' (mkFrame TypeHandshake HSKeepalive 0 [])
      (reapSessions ?c (6 * Minute + 7) srv) = Some srv2"
    using srv(2) by (simp add: serveUDPFrame_def)
  show ?thesis
    using udp_peer_outlives_session [OF srv(2) _ _ refl srv2, of 9] srv(3) idle srv2 by auto
qed

text \<open>
  C15: the loop over a datagram ends and takes it apart without loss. It yields at most one
  frame per 18 bytes; the datagram is exactly the encodings of those frames in order,
  followed by a rest that is empty when the loop ended by itself and otherwise is what the
  codec refused.
\<close>

theorem datagram_taken_apart:
  "case datagramFrames buf m of
     (fs, err) \<Rightarrow> 18 * length fs \<le> length buf \<and> list_all (frame_ok m) fs
       \<and> (\<exists>rest. buf = concat (map Encode fs) @ rest
            \<and> (case err of None \<Rightarrow> rest = [] | Some x \<Rightarrow> rest \<noteq> [] \<and> Decode rest m = Inl x))"
proof (induction buf m rule: datagramFrames.induct)
  case (1 buf m)
  show ?case
  proof (cases "buf = []")
    case True
    then show ?thesis by (simp add: datagramFrames.simps)
  next
    case False
    show ?thesis
    proof (cases "Decode buf m")
      case (Inl x)
      then show ?thesis using False by (simp add: datagramFrames.simps [of buf])
    next
      case (Inr fn)
      obtain f n where fn: "fn = (f, n)" by (cases fn)
      obtain fs err where r: "datagramFrames (drop n buf) m = (fs, err)" by (metis surj_pair)
      have e: "take n buf = Encode f" "frame_ok m f" using Encode_Decode [of buf m f n] Inr fn by auto
      have n: "18 \<le> n" "n \<le> length buf" using Decode_consumed [of buf m f n] Inr fn by auto
      obtain rest where rest: "drop n buf = concat (map Encode fs) @ rest"
          "case err of None \<Rightarrow> rest = [] | Some x \<Rightarrow> rest \<noteq> [] \<and> Decode rest m = Inl x"
          "18 * length fs \<le> length buf - n" "list_all (frame_ok m) fs"
        using 1 [OF False Inr fn [symmetric]] by (auto simp: r)
      have b: "buf = concat (map Encode (f # fs)) @ rest" using e(1) rest(1) by simp (metis append_take_drop_id)
      have step: "datagramFrames buf m = (f # fs, err)"
        using False Inr fn r by (simp add: datagramFrames.simps [of buf])
      have "\<exists>rest. buf = concat (map Encode (f # fs)) @ rest
          \<and> (case err of None \<Rightarrow> rest = [] | Some x \<Rightarrow> rest \<noteq> [] \<and> Decode rest m = Inl x)"
        using b rest(2) by blast
      moreover have "18 * length (f # fs) \<le> length buf" using rest(3) n by simp
      ultimately show ?thesis using rest(4) e(2) by (simp only: step prod.case list.pred_inject simp_thms)
    qed
  qed
qed

end
