(* ===== verification/Server_Life.thy ===== *)
theory Server_Life
  imports Server
begin

text \<open>
  \<open>Run\<close> of \<open>icg/concentrator/server.go\<close> from its first line to its last: binding the
  listeners, the goroutines it starts and waits for, and the shutdown. What the goroutines do
  with frames is in \<open>Server\<close>; here a goroutine is its number, and what matters is when it
  starts and when it may end.
\<close>

section \<open>Listening sockets\<close>

datatype listenAddr = TCPAt string | UDPAt int

text \<open>The open listening sockets by number; call \<open>n\<close> of \<open>Listen\<close> works if \<open>ok n\<close>.\<close>

record sockets =
  skOpen :: "(nat \<times> listenAddr) list"
  skNext :: nat

definition listenOn :: "(nat \<Rightarrow> bool) \<Rightarrow> listenAddr \<Rightarrow> sockets \<Rightarrow> nat option \<times> sockets" where
  "listenOn ok a sk =
     (if ok (skNext sk) then (Some (skNext sk), \<lparr>skOpen = skOpen sk @ [(skNext sk, a)], skNext = skNext sk + 1\<rparr>)
      else (None, sk\<lparr>skNext := skNext sk + 1\<rparr>))"

definition closeSock :: "nat \<Rightarrow> sockets \<Rightarrow> sockets" where
  "closeSock n sk = sk\<lparr>skOpen := AList.delete n (skOpen sk)\<rparr>"

definition isOpen :: "sockets \<Rightarrow> nat \<Rightarrow> bool" where
  "isOpen sk n \<longleftrightarrow> map_of (skOpen sk) n \<noteq> None"

section \<open>Binding\<close>

datatype bindError = ListenTCP string | ListenUDP int

fun bindUDP :: "ServerConfig \<Rightarrow> (nat \<Rightarrow> bool) \<Rightarrow> nat \<Rightarrow> nat list \<Rightarrow> nat list \<Rightarrow> sockets \<Rightarrow> (bindError + nat list) \<times> sockets" where
  "bindUDP c ok ln [] udp sk = (Inr udp, sk)"
| "bindUDP c ok ln (i # is) udp sk =
     (let port = listenPort c i in
      case listenOn ok (UDPAt port) sk of
        (None, sk) \<Rightarrow> (Inl (ListenUDP port), fold closeSock udp (closeSock ln sk))
      | (Some uc, sk) \<Rightarrow> bindUDP c ok ln is (udp @ [uc]) sk)"

text \<open>\<open>make\<close> with a negative capacity panics.\<close>

definition bindListeners :: "ServerConfig \<Rightarrow> (nat \<Rightarrow> bool) \<Rightarrow> sockets \<Rightarrow> ((bindError + nat \<times> nat list) \<times> sockets) outcome" where
  "bindListeners c ok sk =
     (case listenOn ok (TCPAt (svTCPAddr c)) sk of
        (None, sk) \<Rightarrow> Ret (Inl (ListenTCP (svTCPAddr c)), sk)
      | (Some ln, sk) \<Rightarrow>
          if svUDPLegs c < 0 then Panic
          else case bindUDP c ok ln [0..<nat (svUDPLegs c)] [] sk of
              (Inl err, sk) \<Rightarrow> Ret (Inl err, sk)
            | (Inr udp, sk) \<Rightarrow> Ret (Inr (ln, udp), sk))"

section \<open>The goroutines\<close>

datatype sockError = NetErrClosed | SockFailed string

text \<open>
  \<open>rnAccept\<close> is what \<open>acceptTCP\<close> returned; \<open>rnReaders\<close> the UDP ports, \<open>rnConns\<close> the
  connections and \<open>rnSessions\<close> the sessions whose goroutines the wait group counts;
  \<open>rnStopped\<close> the sessions the reaper cancelled; \<open>rnResult\<close> what \<open>Run\<close> returned.
\<close>

record running =
  rnSocks :: sockets
  rnLn :: "nat option"
  rnUDP :: "nat list"
  rnReady :: bool
  rnCtxDone :: bool
  rnAccept :: "sockError option"
  rnReaders :: "nat list"
  rnReaper :: bool
  rnConns :: "nat list"
  rnSessions :: "nat list"
  rnStopped :: "nat list"
  rnSpawned :: nat
  rnResult :: "sockError option option"

definition unbound :: "sockets \<Rightarrow> running" where
  "unbound sk = \<lparr>rnSocks = sk, rnLn = None, rnUDP = [], rnReady = False, rnCtxDone = False, rnAccept = None,
     rnReaders = [], rnReaper = False, rnConns = [], rnSessions = [], rnStopped = [], rnSpawned = 0, rnResult = None\<rparr>"

definition startRunning :: "nat \<times> nat list \<Rightarrow> running \<Rightarrow> running" where
  "startRunning lu r = r\<lparr>rnLn := Some (fst lu), rnUDP := snd lu, rnReady := True,
     rnReaders := [0..<length (snd lu)], rnReaper := True\<rparr>"

text \<open>\<open>TCPAddr\<close> and \<open>UDPAddrs\<close>; \<open>addrOf n\<close> is the address the kernel gave socket \<open>n\<close>.\<close>

definition boundTCPAddr :: "(nat \<Rightarrow> string) \<Rightarrow> running \<Rightarrow> string option" where
  "boundTCPAddr addrOf r = map_option addrOf (rnLn r)"

definition boundUDPAddrs :: "(nat \<Rightarrow> string) \<Rightarrow> running \<Rightarrow> string list" where
  "boundUDPAddrs addrOf r = map addrOf (rnUDP r)"

definition closeListeners :: "running \<Rightarrow> running" where
  "closeListeners r =
     r\<lparr>rnSocks := fold closeSock (rnUDP r) (case rnLn r of None \<Rightarrow> rnSocks r | Some ln \<Rightarrow> closeSock ln (rnSocks r))\<rparr>"

definition lnOpen :: "running \<Rightarrow> bool" where
  "lnOpen r \<longleftrightarrow> (case rnLn r of None \<Rightarrow> False | Some ln \<Rightarrow> isOpen (rnSocks r) ln)"

definition runResult :: "sockError \<Rightarrow> bool \<Rightarrow> sockError option" where
  "runResult err ctxDone = (if err = NetErrClosed \<and> ctxDone then None else Some err)"

definition waitOver :: "running \<Rightarrow> bool" where
  "waitOver r \<longleftrightarrow> rnReaders r = [] \<and> \<not> rnReaper r \<and> rnConns r = [] \<and> rnSessions r = []"

text \<open>
  \<open>Signal\<close>: the context given to \<open>Run\<close> ends. \<open>Watch\<close>: the goroutine that waits for that.
  \<open>ConnFrame\<close>: a connection yields a frame, which moves its deadline. \<open>ConnEnd\<close>: a read on it
  fails, because the device hung up or said nothing for 90 seconds; nothing in the server
  closes it before.
\<close>

datatype life =
    Signal | Watch | AcceptConn | AcceptErr sockError | NewSession | ConnFrame nat | ConnEnd nat
  | UDPEnd nat | Reap nat | SessionEnd nat | ReaperEnd | Return

fun lifeStep :: "life \<Rightarrow> running \<Rightarrow> running option" where
  "lifeStep Signal r = Some (r\<lparr>rnCtxDone := True\<rparr>)"
| "lifeStep Watch r = (if rnCtxDone r then Some (closeListeners r) else None)"
| "lifeStep AcceptConn r =
     (if rnAccept r = None \<and> lnOpen r then Some (r\<lparr>rnConns := rnConns r @ [rnSpawned r], rnSpawned := rnSpawned r + 1\<rparr>) else None)"
| "lifeStep (AcceptErr err) r =
     (if rnAccept r = None \<and> (err = NetErrClosed \<longleftrightarrow> \<not> lnOpen r) then Some (r\<lparr>rnAccept := Some err, rnCtxDone := True\<rparr>) else None)"
| "lifeStep NewSession r =
     (if rnConns r \<noteq> [] \<or> rnReaders r \<noteq> []
      then Some (r\<lparr>rnSessions := rnSessions r @ [rnSpawned r], rnSpawned := rnSpawned r + 1\<rparr>) else None)"
| "lifeStep (ConnFrame l) r = (if l \<in> set (rnConns r) then Some r else None)"
| "lifeStep (ConnEnd l) r = (if l \<in> set (rnConns r) then Some (r\<lparr>rnConns := removeAll l (rnConns r)\<rparr>) else None)"
| "lifeStep (UDPEnd i) r = (if i \<in> set (rnReaders r) then Some (r\<lparr>rnReaders := removeAll i (rnReaders r)\<rparr>) else None)"
| "lifeStep (Reap b) r =
     (if rnReaper r \<and> b \<in> set (rnSessions r) then Some (r\<lparr>rnStopped := b # rnStopped r\<rparr>) else None)"
| "lifeStep (SessionEnd b) r =
     (if b \<in> set (rnSessions r) \<and> (rnCtxDone r \<or> b \<in> set (rnStopped r))
      then Some (r\<lparr>rnSessions := removeAll b (rnSessions r)\<rparr>) else None)"
| "lifeStep ReaperEnd r = (if rnReaper r \<and> rnCtxDone r then Some (r\<lparr>rnReaper := False\<rparr>) else None)"
| "lifeStep Return r =
     (case rnAccept r of
        None \<Rightarrow> None
      | Some err \<Rightarrow> if waitOver r \<and> rnResult r = None then Some (r\<lparr>rnResult := Some (runResult err (rnCtxDone r))\<rparr>) else None)"

fun lifeRun :: "life list \<Rightarrow> running \<Rightarrow> running option" where
  "lifeRun [] r = Some r"
| "lifeRun (x # xs) r = (case lifeStep x r of None \<Rightarrow> None | Some r \<Rightarrow> lifeRun xs r)"

section \<open>Binding is all or nothing\<close>

definition fresh :: "sockets \<Rightarrow> bool" where
  "fresh sk \<longleftrightarrow> (\<forall>x \<in> set (skOpen sk). fst x < skNext sk)"

lemma closeSocks_open: "skOpen (fold closeSock ns sk) = filter (\<lambda>x. fst x \<notin> set ns) (skOpen sk)"
proof (induction ns arbitrary: sk)
  case (Cons n ns)
  have "skOpen (closeSock n sk) = filter (\<lambda>x. fst x \<noteq> n) (skOpen sk)"
    by (auto simp: closeSock_def AList.delete_eq intro!: filter_cong)
  then show ?case unfolding fold_simps Cons.IH by (auto intro!: filter_cong)
qed simp

lemma closeSocks_next [simp]: "skNext (fold closeSock ns sk) = skNext sk"
  by (induction ns arbitrary: sk) (simp_all add: closeSock_def)

lemma closed_not_open:
  "n \<in> set ns \<Longrightarrow> \<not> isOpen (fold closeSock ns sk) n"
  "\<not> isOpen sk n \<Longrightarrow> \<not> isOpen (fold closeSock ns sk) n"
  "\<not> isOpen (closeSock n sk) n"
  by (auto simp: isOpen_def closeSocks_open map_of_eq_None_iff closeSock_def)

definition udpAt :: "ServerConfig \<Rightarrow> nat \<Rightarrow> listenAddr" where
  "udpAt c i = UDPAt (listenPort c i)"

lemma bindUDP_all:
  assumes "\<forall>k < length is. ok (skNext sk + k)"
  shows "bindUDP c ok ln is udp sk = (Inr (udp @ [skNext sk..<skNext sk + length is]),
     \<lparr>skOpen = skOpen sk @ zip [skNext sk..<skNext sk + length is] (map (udpAt c) is), skNext = skNext sk + length is\<rparr>)"
  using assms
proof (induction "is" arbitrary: udp sk)
  case (Cons i "is")
  let ?sk = "\<lparr>skOpen = skOpen sk @ [(skNext sk, udpAt c i)], skNext = skNext sk + 1\<rparr>"
  have l: "listenOn ok (UDPAt (listenPort c i)) sk = (Some (skNext sk), ?sk)"
    using Cons.prems by (auto simp: listenOn_def udpAt_def)
  have "\<forall>k < length is. ok (skNext ?sk + k)" using Cons.prems by auto
  moreover have "[skNext sk..<skNext sk + length (i # is)] = skNext sk # [skNext ?sk..<skNext ?sk + length is]"
    by (simp add: upt_conv_Cons del: upt_Suc)
  ultimately show ?case using Cons.IH [of ?sk] by (simp add: l del: upt_Suc)
qed simp

lemma bindUDP_refused:
  assumes "skOpen sk = base @ new" and "fst ` set new = insert ln (set udp)" and "fst ` set base \<inter> insert ln (set udp) = {}"
    and "\<forall>x \<in> set base. fst x < skNext sk" and "\<forall>k < length pre. ok (skNext sk + k)" and "\<not> ok (skNext sk + length pre)"
  shows "bindUDP c ok ln (pre @ i # suf) udp sk =
    (Inl (ListenUDP (listenPort c i)), \<lparr>skOpen = base, skNext = skNext sk + length pre + 1\<rparr>)"
  using assms
proof (induction pre arbitrary: udp sk new)
  case Nil
  let ?sk = "fold closeSock udp (closeSock ln (sk\<lparr>skNext := skNext sk + 1\<rparr>))"
  have "skOpen ?sk = filter (\<lambda>x. fst x \<notin> insert ln (set udp)) (skOpen sk)"
    using closeSocks_open [of "ln # udp" "sk\<lparr>skNext := skNext sk + 1\<rparr>"] by simp
  moreover have "filter (\<lambda>x. fst x \<notin> insert ln (set udp)) new = []"
    unfolding filter_empty_conv using Nil.prems(2) by blast
  moreover have "filter (\<lambda>x. fst x \<notin> insert ln (set udp)) base = base"
    unfolding filter_id_conv using Nil.prems(3) by blast
  ultimately have "skOpen ?sk = base" using Nil.prems(1) by simp
  moreover have "skNext ?sk = skNext sk + 1" by (simp add: closeSock_def)
  ultimately have "?sk = \<lparr>skOpen = base, skNext = skNext sk + 1\<rparr>" by (intro sockets.equality) simp_all
  then show ?case using Nil.prems(6) by (simp add: listenOn_def)
next
  case (Cons j pre)
  let ?sk = "\<lparr>skOpen = skOpen sk @ [(skNext sk, udpAt c j)], skNext = skNext sk + 1\<rparr>"
  have l: "listenOn ok (UDPAt (listenPort c j)) sk = (Some (skNext sk), ?sk)"
    using Cons.prems(5) by (auto simp: listenOn_def udpAt_def)
  have "bindUDP c ok ln (pre @ i # suf) (udp @ [skNext sk]) ?sk =
    (Inl (ListenUDP (listenPort c i)), \<lparr>skOpen = base, skNext = skNext ?sk + length pre + 1\<rparr>)"
  proof (rule Cons.IH [of _ "new @ [(skNext sk, udpAt c j)]"])
    have "skNext sk \<notin> fst ` set base" using Cons.prems(4) by auto
    then show "fst ` set base \<inter> insert ln (set (udp @ [skNext sk])) = {}" using Cons.prems(3) by simp
    show "\<forall>k < length pre. ok (skNext ?sk + k)"
    proof (intro allI impI)
      fix k assume "k < length pre"
      then show "ok (skNext ?sk + k)" using Cons.prems(5) [rule_format, of "k + 1"] by simp
    qed
    show "\<forall>x \<in> set base. fst x < skNext ?sk" using Cons.prems(4) by (auto intro: less_SucI)
    show "\<not> ok (skNext ?sk + length pre)" using Cons.prems(6) by simp
    show "fst ` set (new @ [(skNext sk, udpAt c j)]) = insert ln (set (udp @ [skNext sk]))"
      using Cons.prems(2) by auto
  qed (simp add: Cons.prems(1))
  then show ?case by (simp add: l)
qed


lemma base_Let:
  "(\<And>d. svUDPBase d = svUDPBase x \<Longrightarrow> svUDPBase (F d) \<noteq> 0) \<Longrightarrow> svUDPBase (Let x F) \<noteq> 0"
  by (simp add: Let_def)

lemma setDefaults_base: "svUDPBase (setDefaults c) \<noteq> 0"
  unfolding setDefaults_def by (intro base_Let) (simp split: if_splits)

definition listensFrom :: "ServerConfig \<Rightarrow> listenAddr list" where
  "listensFrom c = TCPAt (svTCPAddr c) # map (udpAt c) [0..<nat (svUDPLegs c)]"

lemma bind_all:
  assumes legs: "0 \<le> svUDPLegs c" and works: "\<forall>k \<le> nat (svUDPLegs c). ok (skNext sk + k)"
  shows "bindListeners c ok sk = Ret (Inr (skNext sk, [skNext sk + 1..<skNext sk + 1 + nat (svUDPLegs c)]),
    \<lparr>skOpen = skOpen sk @ zip [skNext sk..<skNext sk + 1 + nat (svUDPLegs c)] (listensFrom c),
     skNext = skNext sk + 1 + nat (svUDPLegs c)\<rparr>)"
proof -
  let ?n = "nat (svUDPLegs c)" and ?sk = "\<lparr>skOpen = skOpen sk @ [(skNext sk, TCPAt (svTCPAddr c))], skNext = skNext sk + 1\<rparr>"
  have l: "listenOn ok (TCPAt (svTCPAddr c)) sk = (Some (skNext sk), ?sk)" using works by (auto simp: listenOn_def)
  have "ok (skNext ?sk + k)" if "k < ?n" for k using works [rule_format, of "k + 1"] that by simp
  then have "\<forall>k < length [0..<?n]. ok (skNext ?sk + k)" by simp
  moreover have "[skNext sk..<skNext sk + 1 + ?n] = skNext sk # [skNext ?sk..<skNext ?sk + ?n]"
    by (simp add: upt_conv_Cons del: upt_Suc)
  ultimately show ?thesis
    using legs bindUDP_all [of "[0..<?n]" ok ?sk c "skNext sk" "[]"]
    by (simp add: bindListeners_def l listensFrom_def del: upt_Suc)
qed

lemma bind_refused:
  assumes fresh: "fresh sk" and legs: "0 \<le> svUDPLegs c" and k: "k \<le> nat (svUDPLegs c)"
    and works: "\<forall>j < k. ok (skNext sk + j)" and refused: "\<not> ok (skNext sk + k)"
  shows "bindListeners c ok sk = Ret (Inl (case listensFrom c ! k of TCPAt a \<Rightarrow> ListenTCP a | UDPAt p \<Rightarrow> ListenUDP p),
    \<lparr>skOpen = skOpen sk, skNext = skNext sk + k + 1\<rparr>)"
proof (cases k)
  case 0
  then show ?thesis using refused by (simp add: bindListeners_def listenOn_def listensFrom_def)
next
  case (Suc m)
  let ?n = "nat (svUDPLegs c)" and ?sk = "\<lparr>skOpen = skOpen sk @ [(skNext sk, TCPAt (svTCPAddr c))], skNext = skNext sk + 1\<rparr>"
  have l: "listenOn ok (TCPAt (svTCPAddr c)) sk = (Some (skNext sk), ?sk)" using works Suc by (auto simp: listenOn_def)
  have m: "m < ?n" using k Suc by simp
  then have parts: "[0..<?n] = [0..<m] @ m # [Suc m..<?n]"
    using upt_add_eq_append [of 0 m "?n - m"] by (simp add: upt_conv_Cons del: upt_Suc)
  have "bindUDP c ok (skNext sk) ([0..<m] @ m # [Suc m..<?n]) [] ?sk =
      (Inl (ListenUDP (listenPort c m)), \<lparr>skOpen = skOpen sk, skNext = skNext ?sk + length [0..<m] + 1\<rparr>)"
    using fresh works refused Suc
    by (intro bindUDP_refused [of _ _ "[(skNext sk, TCPAt (svTCPAddr c))]"]) (auto simp: fresh_def)
  then show ?thesis
    using legs m by (simp add: bindListeners_def l listensFrom_def udpAt_def Suc parts nth_append del: upt_Suc)
qed

text \<open>
  C25: binding is all or nothing. With a configuration that \<open>New\<close> has completed: if every
  \<open>Listen\<close> works, \<open>Run\<close> holds the TCP listener and one UDP socket per leg on consecutive
  ports from the base, and nothing else new; if one is refused, the error names it and every
  socket opened before it is closed again, so that what is open is what was open before. A
  negative number of legs is a panic, once the TCP listener is open.
\<close>

theorem bind_all_or_nothing:
  assumes "fresh sk" and "c = setDefaults c0"
  shows "(0 \<le> svUDPLegs c \<and> (\<forall>k \<le> nat (svUDPLegs c). ok (skNext sk + k)) \<longrightarrow>
      (\<exists>ln udp sk'. bindListeners c ok sk = Ret (Inr (ln, udp), sk') \<and> length udp = nat (svUDPLegs c)
         \<and> skOpen sk' = skOpen sk @ (ln, TCPAt (svTCPAddr c))
              # zip udp (map (\<lambda>i. UDPAt (svUDPBase c + int i)) [0..<nat (svUDPLegs c)])))
    \<and> (\<forall>k \<le> nat (svUDPLegs c). 0 \<le> svUDPLegs c \<and> (\<forall>j < k. ok (skNext sk + j)) \<and> \<not> ok (skNext sk + k) \<longrightarrow>
      (\<exists>sk'. bindListeners c ok sk =
           Ret (Inl (if k = 0 then ListenTCP (svTCPAddr c) else ListenUDP (svUDPBase c + int (k - 1))), sk')
         \<and> skOpen sk' = skOpen sk))
    \<and> (bindListeners c ok sk = Panic \<longleftrightarrow> svUDPLegs c < 0 \<and> ok (skNext sk))"
proof -
  have udpAt: "udpAt c = (\<lambda>i. UDPAt (svUDPBase c + int i))"
    using setDefaults_base [of c0] assms(2) by (auto simp: udpAt_def listenPort_def)
  have "bindListeners c ok sk = Panic \<longleftrightarrow> svUDPLegs c < 0 \<and> ok (skNext sk)"
    by (auto simp: bindListeners_def listenOn_def split: prod.splits sum.splits)
  moreover have "\<exists>ln udp sk'. bindListeners c ok sk = Ret (Inr (ln, udp), sk') \<and> length udp = nat (svUDPLegs c)
         \<and> skOpen sk' = skOpen sk @ (ln, TCPAt (svTCPAddr c)) # zip udp (map (udpAt c) [0..<nat (svUDPLegs c)])"
    if "0 \<le> svUDPLegs c \<and> (\<forall>k \<le> nat (svUDPLegs c). ok (skNext sk + k))"
  proof -
    have "[skNext sk..<skNext sk + 1 + m] = skNext sk # [skNext sk + 1..<skNext sk + 1 + m]" for m
      by (simp add: upt_conv_Cons del: upt_Suc)
    then show ?thesis using that bind_all [of c ok sk] by (simp add: listensFrom_def del: upt_Suc)
  qed
  moreover have "\<exists>sk'. bindListeners c ok sk =
           Ret (Inl (if k = 0 then ListenTCP (svTCPAddr c) else ListenUDP (svUDPBase c + int (k - 1))), sk')
         \<and> skOpen sk' = skOpen sk"
    if "k \<le> nat (svUDPLegs c)" "0 \<le> svUDPLegs c \<and> (\<forall>j < k. ok (skNext sk + j)) \<and> \<not> ok (skNext sk + k)" for k
  proof -
    have "(case listensFrom c ! k of TCPAt a \<Rightarrow> ListenTCP a | UDPAt p \<Rightarrow> ListenUDP p) =
        (if k = 0 then ListenTCP (svTCPAddr c) else ListenUDP (svUDPBase c + int (k - 1)))"
      using that(1) by (cases k) (simp_all add: listensFrom_def udpAt)
    then show ?thesis using that bind_refused [OF assms(1), of c k ok] by auto
  qed
  ultimately show ?thesis unfolding udpAt by blast
qed


text \<open>Leg 2 of 4 is refused: the TCP listener and the first two UDP sockets are closed again.\<close>

lemma bind_all_or_nothing_witness:
  "\<exists>c. svUDPLegs (setDefaults c) = 4 \<and> (\<exists>sk'. bindListeners (setDefaults c) (\<lambda>n. n \<noteq> 3) \<lparr>skOpen = [], skNext = 0\<rparr>
       = Ret (Inl (ListenUDP (svUDPBase (setDefaults c) + 2)), sk') \<and> skOpen sk' = [])"
proof -
  let ?sk = "\<lparr>skOpen = [], skNext = 0\<rparr>"
  let ?c = "\<lparr>cfMagic = 1, cfKeepaliveInterval = 1, cfAckInterval = 1,
      cfReorder = \<lparr>rcMaxPending = 0, rcRetransmitAfter = 0, rcSkipAfter = 0, rcSettle = 0\<rparr>,
      cfStashLimit = 1, cfMaxFlowsPerSession = 1, cfUDPFlowIdle = 1, cfStatsInterval = 1,
      cfAllowedDevices = [], svTCPAddr = '':1'', svUDPBase = 7000, svUDPLegs = 4,
      svSessionIdle = 1, svVersion = ''''\<rparr>"
  have c: "setDefaults ?c = ?c" by (simp add: setDefaults_def)
  have "fresh ?sk" by (simp add: fresh_def)
  from bind_all_or_nothing [where sk = ?sk and c = "setDefaults ?c" and c0 = ?c and ok = "\<lambda>n. n \<noteq> 3", OF this refl]
  have "\<forall>k \<le> nat (svUDPLegs (setDefaults ?c)). 0 \<le> svUDPLegs (setDefaults ?c)
        \<and> (\<forall>j < k. skNext ?sk + j \<noteq> 3) \<and> \<not> skNext ?sk + k \<noteq> 3 \<longrightarrow>
      (\<exists>sk'. bindListeners (setDefaults ?c) (\<lambda>n. n \<noteq> 3) ?sk =
           Ret (Inl (if k = 0 then ListenTCP (svTCPAddr (setDefaults ?c))
             else ListenUDP (svUDPBase (setDefaults ?c) + int (k - 1))), sk')
         \<and> skOpen sk' = skOpen ?sk)" by blast
  from this [rule_format, of 3]
  have "\<exists>sk'. bindListeners (setDefaults ?c) (\<lambda>n. n \<noteq> 3) ?sk = Ret (Inl (ListenUDP (svUDPBase (setDefaults ?c) + 2)), sk')
      \<and> skOpen sk' = []" by (simp add: c)
  then show ?thesis by (intro exI [of _ ?c] conjI) (simp add: c)
qed

section \<open>Shutting down\<close>

lemma lifeRun_append:
  "lifeRun (xs @ ys) r = (case lifeRun xs r of None \<Rightarrow> None | Some r \<Rightarrow> lifeRun ys r)"
  by (induction xs arbitrary: r) (auto split: option.splits)

lemma lifeRun_then: "lifeRun xs r = Some r1 \<Longrightarrow> lifeRun ys r1 = Some r2 \<Longrightarrow> lifeRun (xs @ ys) r = Some r2"
  by (simp add: lifeRun_append)

text \<open>A connection stays until it ends by itself, and \<open>Run\<close> waits for it.\<close>

lemma conn_stays_step:
  assumes "lifeStep x r = Some r'" and "l \<in> set (rnConns r)" and "x \<noteq> ConnEnd l" and "rnResult r = None"
  shows "l \<in> set (rnConns r') \<and> rnResult r' = None"
  using assms by (cases x) (auto simp: closeListeners_def waitOver_def split: if_splits option.splits)

lemma conn_stays:
  "lifeRun xs r = Some r' \<Longrightarrow> l \<in> set (rnConns r) \<Longrightarrow> ConnEnd l \<notin> set xs \<Longrightarrow> rnResult r = None
   \<Longrightarrow> l \<in> set (rnConns r') \<and> rnResult r' = None"
proof (induction xs arbitrary: r)
  case (Cons x xs)
  from Cons.prems(1) obtain r1 where r1: "lifeStep x r = Some r1" "lifeRun xs r1 = Some r'" by (auto split: option.splits)
  have "l \<in> set (rnConns r1) \<and> rnResult r1 = None" using r1(1) Cons.prems by (intro conn_stays_step) auto
  then show ?case using Cons.IH [OF r1(2)] Cons.prems(3) by auto
qed simp

text \<open>
  A group of goroutines, each of which may end by its own event: all of them can.
\<close>

locale goroutines =
  fixes ends :: "nat \<Rightarrow> life" and may :: "running \<Rightarrow> bool" and members :: "running \<Rightarrow> nat list"
    and put :: "nat list \<Rightarrow> running \<Rightarrow> running"
  assumes one_ends: "may r \<Longrightarrow> l \<in> set (members r) \<Longrightarrow> lifeStep (ends l) r = Some (put (removeAll l (members r)) r)"
    and members_put: "members (put ls r) = ls"
    and put_put: "put ls (put ms r) = put ls r"
    and put_members: "put (members r) r = r"
    and may_put: "may r \<Longrightarrow> may (put ls r)"
begin

lemma all_end: "may r \<Longrightarrow> \<exists>xs. set xs \<subseteq> ends ` set (members r) \<and> lifeRun xs r = Some (put [] r)"
proof (induction "length (members r)" arbitrary: r rule: less_induct)
  case less
  show ?case
  proof (cases "members r")
    case Nil
    then have "lifeRun [] r = Some (put [] r)" using put_members [of r] by simp
    then show ?thesis by (intro exI [of _ "[]"]) simp
  next
    case (Cons l ls)
    let ?r = "put (removeAll l (members r)) r"
    have "length (members ?r) < length (members r)" unfolding members_put Cons by (simp add: le_imp_less_Suc)
    from less.hyps [OF this may_put [OF less.prems]] obtain xs where
      xs: "set xs \<subseteq> ends ` set (members ?r)" "lifeRun xs ?r = Some (put [] ?r)" by blast
    have "lifeRun (ends l # xs) r = Some (put [] r)"
      using xs(2) one_ends [OF less.prems, of l] Cons by (simp add: put_put)
    moreover have "set (ends l # xs) \<subseteq> ends ` set (members r)" using xs(1) Cons by (auto simp: members_put)
    ultimately show ?thesis by blast
  qed
qed

end

interpretation conns: goroutines ConnEnd "\<lambda>r. True" rnConns "\<lambda>ls r. r\<lparr>rnConns := ls\<rparr>"
  by unfold_locales simp_all

interpretation readers: goroutines UDPEnd "\<lambda>r. True" rnReaders "\<lambda>ls r. r\<lparr>rnReaders := ls\<rparr>"
  by unfold_locales simp_all

interpretation sessions: goroutines SessionEnd rnCtxDone rnSessions "\<lambda>ls r. r\<lparr>rnSessions := ls\<rparr>"
  by unfold_locales simp_all

lemma closeListeners_closed:
  "\<not> lnOpen (closeListeners r)" "u \<in> set (rnUDP r) \<Longrightarrow> \<not> isOpen (rnSocks (closeListeners r)) u"
  by (auto simp: lnOpen_def closeListeners_def closed_not_open split: option.splits)

text \<open>The order of a shutdown: the accept loop ends, the connections do, then everything else.\<close>

lemma accept_ends:
  assumes "rnCtxDone r"
  obtains xs r' where "set xs \<subseteq> {Watch, AcceptErr NetErrClosed}" and "lifeRun xs r = Some r'"
    and "rnAccept r' \<noteq> None" and "rnAccept r = None \<longrightarrow> rnAccept r' = Some NetErrClosed" and "rnCtxDone r'"
    and "rnResult r' = rnResult r" and "rnConns r' = rnConns r" and "\<not> lnOpen r'"
    and "\<forall>u \<in> set (rnUDP r'). \<not> isOpen (rnSocks r') u"
proof (cases "rnAccept r")
  case None
  let ?r = "(closeListeners r)\<lparr>rnAccept := Some NetErrClosed, rnCtxDone := True\<rparr>"
  have "rnAccept (closeListeners r) = None" using None by (simp add: closeListeners_def)
  then have "lifeRun [Watch, AcceptErr NetErrClosed] r = Some ?r"
    using assms closeListeners_closed(1) by simp
  moreover have "lnOpen ?r = lnOpen (closeListeners r)" by (simp add: lnOpen_def cong: option.case_cong)
  ultimately show thesis
    using closeListeners_closed by (intro that [of "[Watch, AcceptErr NetErrClosed]" ?r]) (auto simp: closeListeners_def)
next
  case (Some err)
  have "lifeRun [Watch] r = Some (closeListeners r)" using assms by simp
  then show thesis
    using closeListeners_closed Some assms by (intro that [of "[Watch]" "closeListeners r"]) (auto simp: closeListeners_def)
qed

lemma others_end:
  assumes "rnCtxDone r" and "rnAccept r = Some err" and "rnResult r = None" and "rnConns r = []"
  obtains xs r' where "\<forall>l. ConnEnd l \<notin> set xs" and "lifeRun xs r = Some r'" and "rnResult r' = Some (runResult err True)"
    and "rnLn r' = rnLn r" and "rnUDP r' = rnUDP r" and "rnSocks r' = rnSocks r"
proof -
  obtain xs where xs: "set xs \<subseteq> UDPEnd ` set (rnReaders r)" "lifeRun xs r = Some (r\<lparr>rnReaders := []\<rparr>)"
    using readers.all_end [of r] by blast
  let ?r1 = "r\<lparr>rnReaders := []\<rparr>"
  obtain ys where ys: "set ys \<subseteq> SessionEnd ` set (rnSessions ?r1)" "lifeRun ys ?r1 = Some (?r1\<lparr>rnSessions := []\<rparr>)"
    using sessions.all_end [of ?r1] assms(1) by auto
  let ?r2 = "?r1\<lparr>rnSessions := []\<rparr>"
  define zs where "zs = (if rnReaper r then [ReaperEnd] else [])"
  have "lifeRun zs ?r2 = Some (?r2\<lparr>rnReaper := False\<rparr>)"
    using assms(1) by (auto simp: zs_def)
  moreover have "lifeRun [Return] (?r2\<lparr>rnReaper := False\<rparr>)
      = Some (?r2\<lparr>rnReaper := False, rnResult := Some (runResult err True)\<rparr>)"
    using assms by (simp add: waitOver_def)
  ultimately have "lifeRun (xs @ ys @ zs @ [Return]) r = Some (?r2\<lparr>rnReaper := False, rnResult := Some (runResult err True)\<rparr>)"
    using xs(2) ys(2) by (intro lifeRun_then)
  moreover have "\<forall>l. ConnEnd l \<notin> set (xs @ ys @ zs @ [Return])" using xs(1) ys(1) by (auto simp: zs_def)
  ultimately show thesis
    by (intro that [of "xs @ ys @ zs @ [Return]" "?r2\<lparr>rnReaper := False, rnResult := Some (runResult err True)\<rparr>"]) simp_all
qed

text \<open>
  C24: the server cannot shut down without its devices. Once the context is over, \<open>Run\<close> can
  return exactly if every connection that is open ends by itself: for any set of
  connections, there is a continuation in which at most these end and \<open>Run\<close> has returned if
  and only if they are all there are. (It then returns nil, if the accept loop was still
  running, with every listener closed.) Nothing in the server closes an accepted connection,
  and a device that sends its keepalives moves the deadline for ever.
\<close>

theorem shutdown_needs_devices:
  assumes "rnCtxDone r" and "rnResult r = None"
  shows "(\<exists>xs r'. lifeRun xs r = Some r' \<and> rnResult r' \<noteq> None \<and> {l. ConnEnd l \<in> set xs} \<subseteq> D
            \<and> (rnAccept r = None \<longrightarrow> rnResult r' = Some None)
            \<and> \<not> lnOpen r' \<and> (\<forall>u \<in> set (rnUDP r'). \<not> isOpen (rnSocks r') u))
         \<longleftrightarrow> set (rnConns r) \<subseteq> D"
proof
  assume "\<exists>xs r'. lifeRun xs r = Some r' \<and> rnResult r' \<noteq> None \<and> {l. ConnEnd l \<in> set xs} \<subseteq> D
            \<and> (rnAccept r = None \<longrightarrow> rnResult r' = Some None)
            \<and> \<not> lnOpen r' \<and> (\<forall>u \<in> set (rnUDP r'). \<not> isOpen (rnSocks r') u)"
  then obtain xs r' where run: "lifeRun xs r = Some r'" "rnResult r' \<noteq> None" and D: "{l. ConnEnd l \<in> set xs} \<subseteq> D"
    by (elim exE conjE) (rule that)
  have "ConnEnd l \<in> set xs" if "l \<in> set (rnConns r)" for l
    using conn_stays [OF run(1) that _ assms(2)] run(2) by auto
  then show "set (rnConns r) \<subseteq> D" using D by auto
next
  assume D: "set (rnConns r) \<subseteq> D"
  obtain xs r1 where xs: "set xs \<subseteq> {Watch, AcceptErr NetErrClosed}" "lifeRun xs r = Some r1" "rnAccept r1 \<noteq> None"
    "rnAccept r = None \<longrightarrow> rnAccept r1 = Some NetErrClosed" "rnCtxDone r1" "rnResult r1 = rnResult r" "rnConns r1 = rnConns r"
    "\<not> lnOpen r1" "\<forall>u \<in> set (rnUDP r1). \<not> isOpen (rnSocks r1) u"
    using accept_ends [OF assms(1)] .
  obtain err where err: "rnAccept r1 = Some err" using xs(3) by blast
  obtain ys where ys: "set ys \<subseteq> ConnEnd ` set (rnConns r1)" "lifeRun ys r1 = Some (r1\<lparr>rnConns := []\<rparr>)"
    using conns.all_end [of r1] by blast
  obtain zs r2 where zs: "\<forall>l. ConnEnd l \<notin> set zs" "lifeRun zs (r1\<lparr>rnConns := []\<rparr>) = Some r2"
    "rnResult r2 = Some (runResult err True)" "rnLn r2 = rnLn (r1\<lparr>rnConns := []\<rparr>)" "rnUDP r2 = rnUDP (r1\<lparr>rnConns := []\<rparr>)"
    "rnSocks r2 = rnSocks (r1\<lparr>rnConns := []\<rparr>)"
  proof (rule others_end [of "r1\<lparr>rnConns := []\<rparr>" err])
    show "rnCtxDone (r1\<lparr>rnConns := []\<rparr>)" "rnAccept (r1\<lparr>rnConns := []\<rparr>) = Some err" "rnResult (r1\<lparr>rnConns := []\<rparr>) = None"
      using xs(5,6) err assms(2) by simp_all
  qed (simp, rule that)
  have "lifeRun (xs @ ys @ zs) r = Some r2" using xs(2) ys(2) zs(2) by (intro lifeRun_then)
  moreover have "{l. ConnEnd l \<in> set (xs @ ys @ zs)} \<subseteq> D" using xs(1,7) ys(1) zs(1) D by auto
  moreover have "rnAccept r = None \<longrightarrow> rnResult r2 = Some None" using xs(4) err zs(3) by (auto simp: runResult_def)
  moreover have "\<not> lnOpen r2" "\<forall>u \<in> set (rnUDP r2). \<not> isOpen (rnSocks r2) u"
    using xs(8,9) unfolding lnOpen_def zs(4-6) by (simp_all cong: option.case_cong)
  ultimately show "\<exists>xs r'. lifeRun xs r = Some r' \<and> rnResult r' \<noteq> None \<and> {l. ConnEnd l \<in> set xs} \<subseteq> D
            \<and> (rnAccept r = None \<longrightarrow> rnResult r' = Some None)
            \<and> \<not> lnOpen r' \<and> (\<forall>u \<in> set (rnUDP r'). \<not> isOpen (rnSocks r') u)"
    using zs(3) by (intro exI [of _ "xs @ ys @ zs"] exI [of _ r2] conjI) (assumption | simp)+
qed

text \<open>A server with one device, after the signal: with no connection allowed to end, no run returns.\<close>

lemma shutdown_needs_devices_witness:
  "\<exists>r. lifeRun [AcceptConn, NewSession, Signal] (startRunning (0, [1]) (unbound \<lparr>skOpen = [(0, TCPAt '':1''), (1, UDPAt 7000)], skNext = 2\<rparr>)) = Some r
     \<and> \<not> (\<exists>xs r'. lifeRun xs r = Some r' \<and> rnResult r' \<noteq> None \<and> {l. ConnEnd l \<in> set xs} \<subseteq> {}
            \<and> (rnAccept r = None \<longrightarrow> rnResult r' = Some None)
            \<and> \<not> lnOpen r' \<and> (\<forall>u \<in> set (rnUDP r'). \<not> isOpen (rnSocks r') u))"
proof -
  let ?r0 = "startRunning (0, [1]) (unbound \<lparr>skOpen = [(0, TCPAt '':1''), (1, UDPAt 7000)], skNext = 2\<rparr>)"
  obtain r where r: "lifeRun [AcceptConn, NewSession, Signal] ?r0 = Some r" "rnCtxDone r" "rnResult r = None" "rnConns r = [0]"
    by (simp add: startRunning_def unbound_def lnOpen_def isOpen_def)
  have "\<not> set (rnConns r) \<subseteq> {}" using r(4) by simp
  then show ?thesis using r(1) shutdown_needs_devices [OF r(2,3), of "{}"] by (intro exI [of _ r] conjI) simp_all
qed

text \<open>\<open>Run\<close> returns nil only after the signal: without it the listener is never closed.\<close>

definition unasked :: "running \<Rightarrow> bool" where
  "unasked r \<longleftrightarrow> rnResult r \<noteq> Some None
     \<and> (case rnAccept r of None \<Rightarrow> \<not> rnCtxDone r \<and> lnOpen r | Some err \<Rightarrow> err \<noteq> NetErrClosed)"

lemma unasked_step: "lifeStep x r = Some r' \<Longrightarrow> x \<noteq> Signal \<Longrightarrow> unasked r \<Longrightarrow> unasked r'"
  by (cases x) (auto simp: unasked_def runResult_def closeListeners_def lnOpen_def split: if_splits option.splits)

lemma nil_was_asked:
  "lifeRun xs r = Some r' \<Longrightarrow> unasked r \<Longrightarrow> rnResult r' = Some None \<Longrightarrow> Signal \<in> set xs"
proof (induction xs arbitrary: r)
  case (Cons x xs)
  from Cons.prems(1) obtain r1 where r1: "lifeStep x r = Some r1" "lifeRun xs r1 = Some r'" by (auto split: option.splits)
  show ?case
  proof (cases "x = Signal")
    case False
    then show ?thesis using Cons.IH [OF r1(2) unasked_step [OF r1(1) False Cons.prems(2)] Cons.prems(3)] by simp
  qed simp
qed (simp add: unasked_def)

end
