(* ===== verification/Tcp_Flow.thy ===== *)
theory Tcp_Flow
  imports Prelude "HOL-Library.Sublist"
begin

text \<open>
  The goroutines around one proxied connection, from \<open>icg/concentrator/tcpflow.go\<close>: the dial
  goroutine that adopts the socket, the write pump, the session that enqueues, and whoever
  closes the flow first. They share the flow under a mutex and two channels; each piece of
  code between two synchronisations is one step, and the steps interleave freely.
\<close>

section \<open>State\<close>

text \<open>Where the dial goroutine, the one run of \<open>close\<close> and the write pump stand.\<close>

datatype dialing = Dialing | Connected | Rejected | Attached | DialOver
datatype closing = NotClosed | Locked bool | Signalled bool | FullyClosed
datatype socketState = NoSocket | SocketOpen | SocketClosed
datatype pumping = PumpOff | PumpOn | PumpWriting "byte list" | PumpFlush | PumpFlushing "byte list" | PumpOver

text \<open>
  \<open>tfWaiting\<close> is the chunk of an \<open>enqueue\<close> that blocks; \<open>tfSent\<close> what the socket took,
  \<open>tfOffered\<close> the chunks given to \<open>enqueue\<close>, \<open>tfGaveUp\<close> whether one timed out: these three
  record the past.
\<close>

record tcpFlow =
  tfConn :: bool
  tfClosed :: bool
  tfDone :: bool
  tfWrites :: "byte list list"
  tfWaiting :: "byte list option"
  tfDial :: dialing
  tfClosing :: closing
  tfSocket :: socketState
  tfPump :: pumping
  tfSent :: "byte list list"
  tfOffered :: "byte list list"
  tfGaveUp :: bool

definition writesCap :: nat where "writesCap = 64"

definition newFlow :: tcpFlow where
  "newFlow = \<lparr>tfConn = False, tfClosed = False, tfDone = False, tfWrites = [], tfWaiting = None, tfDial = Dialing,
     tfClosing = NotClosed, tfSocket = NoSocket, tfPump = PumpOff, tfSent = [], tfOffered = [], tfGaveUp = False\<rparr>"

section \<open>Operations\<close>

definition adopt :: "tcpFlow \<Rightarrow> bool \<times> tcpFlow" where
  "adopt f = (if tfClosed f then (False, f) else (True, f\<lparr>tfConn := True\<rparr>))"

text \<open>The dial goroutine after a successful dial: adopt, then either both pumps or hang up.\<close>

definition afterDial :: "tcpFlow \<Rightarrow> tcpFlow" where
  "afterDial f = (case adopt f of
      (False, f) \<Rightarrow> f\<lparr>tfDial := Rejected\<rparr>
    | (True, f) \<Rightarrow> f\<lparr>tfDial := Attached, tfPump := PumpOn\<rparr>)"

text \<open>\<open>enqueue\<close> up to where it may block, and the three ways out of the block.\<close>

definition enqueueStart :: "byte list \<Rightarrow> tcpFlow \<Rightarrow> tcpFlow" where
  "enqueueStart b f =
     (if b = [] then f
      else let f = f\<lparr>tfOffered := tfOffered f @ [b]\<rparr>
           in if tfDone f then f
              else if length (tfWrites f) < writesCap then f\<lparr>tfWrites := tfWrites f @ [b]\<rparr>
              else f\<lparr>tfWaiting := Some b\<rparr>)"

definition waitSpace :: "byte list \<Rightarrow> tcpFlow \<Rightarrow> tcpFlow" where
  "waitSpace b f = f\<lparr>tfWrites := tfWrites f @ [b], tfWaiting := None\<rparr>"

definition waitDone :: "tcpFlow \<Rightarrow> tcpFlow" where
  "waitDone f = f\<lparr>tfWaiting := None\<rparr>"

definition waitTimeout :: "tcpFlow \<Rightarrow> tcpFlow" where
  "waitTimeout f = f\<lparr>tfWaiting := None, tfGaveUp := True\<rparr>"

text \<open>\<open>close\<close>, which \<open>sync.Once\<close> lets run once: under the lock, the channel, the socket.\<close>

definition closeLock :: "tcpFlow \<Rightarrow> tcpFlow" where
  "closeLock f = f\<lparr>tfClosed := True, tfClosing := Locked (tfConn f)\<rparr>"

definition closeSignal :: "bool \<Rightarrow> tcpFlow \<Rightarrow> tcpFlow" where
  "closeSignal conn f = f\<lparr>tfDone := True, tfClosing := Signalled conn\<rparr>"

definition closeSocket :: "bool \<Rightarrow> tcpFlow \<Rightarrow> tcpFlow" where
  "closeSocket conn f = f\<lparr>tfSocket := (if conn then SocketClosed else tfSocket f), tfClosing := FullyClosed\<rparr>"

inductive flow_step :: "tcpFlow \<Rightarrow> tcpFlow \<Rightarrow> bool" where
  DialFails: "tfDial f = Dialing \<Longrightarrow> flow_step f (f\<lparr>tfDial := DialOver\<rparr>)"
| DialWorks: "tfDial f = Dialing \<Longrightarrow> flow_step f (f\<lparr>tfDial := Connected, tfSocket := SocketOpen\<rparr>)"
| Adopt: "tfDial f = Connected \<Longrightarrow> flow_step f (afterDial f)"
| HangUp: "tfDial f = Rejected \<Longrightarrow> flow_step f (f\<lparr>tfDial := DialOver, tfSocket := SocketClosed\<rparr>)"
| Enqueue: "tfWaiting f = None \<Longrightarrow> flow_step f (enqueueStart b f)"
| WaitSpace: "tfWaiting f = Some b \<Longrightarrow> length (tfWrites f) < writesCap \<Longrightarrow> flow_step f (waitSpace b f)"
| WaitDone: "tfWaiting f = Some b \<Longrightarrow> tfDone f \<Longrightarrow> flow_step f (waitDone f)"
| WaitTimeout: "tfWaiting f = Some b \<Longrightarrow> flow_step f (waitTimeout f)"
| CloseLock: "tfClosing f = NotClosed \<Longrightarrow> flow_step f (closeLock f)"
| CloseSignal: "tfClosing f = Locked conn \<Longrightarrow> flow_step f (closeSignal conn f)"
| CloseSocket: "tfClosing f = Signalled conn \<Longrightarrow> flow_step f (closeSocket conn f)"
| PumpTake: "tfPump f = PumpOn \<Longrightarrow> tfWrites f = b # bs \<Longrightarrow> flow_step f (f\<lparr>tfPump := PumpWriting b, tfWrites := bs\<rparr>)"
| PumpWrite: "tfPump f = PumpWriting b \<Longrightarrow> tfSocket f = SocketOpen \<Longrightarrow>
    flow_step f (f\<lparr>tfPump := PumpOn, tfSent := tfSent f @ [b]\<rparr>)"
| PumpFail: "tfPump f = PumpWriting b \<Longrightarrow> flow_step f (f\<lparr>tfPump := PumpOver\<rparr>)"
| PumpDone: "tfPump f = PumpOn \<Longrightarrow> tfDone f \<Longrightarrow> flow_step f (f\<lparr>tfPump := PumpFlush\<rparr>)"
| FlushTake: "tfPump f = PumpFlush \<Longrightarrow> tfWrites f = b # bs \<Longrightarrow> flow_step f (f\<lparr>tfPump := PumpFlushing b, tfWrites := bs\<rparr>)"
| FlushWrite: "tfPump f = PumpFlushing b \<Longrightarrow> tfSocket f = SocketOpen \<Longrightarrow>
    flow_step f (f\<lparr>tfPump := PumpFlush, tfSent := tfSent f @ [b]\<rparr>)"
| FlushFail: "tfPump f = PumpFlushing b \<Longrightarrow> flow_step f (f\<lparr>tfPump := PumpOver\<rparr>)"
| FlushEnd: "tfPump f = PumpFlush \<Longrightarrow> tfWrites f = [] \<Longrightarrow> flow_step f (f\<lparr>tfPump := PumpOver\<rparr>)"

inductive_simps flow_step_simps: "flow_step f f'"

section \<open>Who holds the socket\<close>

definition socket_inv :: "tcpFlow \<Rightarrow> bool" where
  "socket_inv f \<longleftrightarrow>
     (case tfDial f of
        Dialing \<Rightarrow> \<not> tfConn f \<and> tfSocket f = NoSocket \<and> tfPump f = PumpOff
      | Connected \<Rightarrow> \<not> tfConn f \<and> tfSocket f = SocketOpen \<and> tfPump f = PumpOff
      | Rejected \<Rightarrow> \<not> tfConn f \<and> tfSocket f = SocketOpen \<and> tfPump f = PumpOff \<and> tfClosed f
      | Attached \<Rightarrow> tfConn f \<and> tfSocket f = (if tfClosing f = FullyClosed then SocketClosed else SocketOpen)
      | DialOver \<Rightarrow> \<not> tfConn f \<and> tfSocket f \<noteq> SocketOpen \<and> tfPump f = PumpOff)
     \<and> (case tfClosing f of
          NotClosed \<Rightarrow> \<not> tfClosed f \<and> \<not> tfDone f
        | Locked conn \<Rightarrow> tfClosed f \<and> \<not> tfDone f \<and> conn = tfConn f
        | Signalled conn \<Rightarrow> tfClosed f \<and> tfDone f \<and> conn = tfConn f
        | FullyClosed \<Rightarrow> tfClosed f \<and> tfDone f)"

lemma socket_inv_new: "socket_inv newFlow"
  by (simp add: socket_inv_def newFlow_def)

lemma socket_inv_step: "flow_step f f' \<Longrightarrow> socket_inv f \<Longrightarrow> socket_inv f'"
  by (induction rule: flow_step.induct)
    (auto simp: socket_inv_def afterDial_def adopt_def enqueueStart_def waitSpace_def waitDone_def waitTimeout_def
      closeLock_def closeSignal_def closeSocket_def Let_def split: dialing.splits closing.splits if_splits)

section \<open>Where the chunks are\<close>

fun inPump :: "pumping \<Rightarrow> byte list list" where
  "inPump (PumpWriting b) = [b]"
| "inPump (PumpFlushing b) = [b]"
| "inPump _ = []"

definition pipeline :: "tcpFlow \<Rightarrow> byte list list" where
  "pipeline f = tfSent f @ inPump (tfPump f) @ tfWrites f @ (case tfWaiting f of None \<Rightarrow> [] | Some b \<Rightarrow> [b])"

text \<open>Sent, in the pump, queued and waiting, in this order, is what was offered: exactly,
  until something is given up; a part of it, in order, ever after.\<close>

definition queue_inv :: "tcpFlow \<Rightarrow> bool" where
  "queue_inv f \<longleftrightarrow> subseq (pipeline f) (tfOffered f) \<and> length (tfWrites f) \<le> writesCap
     \<and> (\<not> tfGaveUp f \<and> tfPump f \<noteq> PumpOver \<and> \<not> tfDone f \<longrightarrow> pipeline f = tfOffered f)
     \<and> (\<not> tfGaveUp f \<and> tfPump f \<noteq> PumpOver \<longrightarrow> prefix (pipeline f) (tfOffered f))
     \<and> (\<not> tfGaveUp f \<longrightarrow> prefix (tfSent f) (tfOffered f))"

lemma queue_inv_new: "queue_inv newFlow"
  by (simp add: queue_inv_def newFlow_def pipeline_def)

lemma queue_inv_same:
  assumes "queue_inv f" and "pipeline f' = pipeline f" and "tfOffered f' = tfOffered f" and "tfGaveUp f' = tfGaveUp f"
    and "tfPump f = PumpOver \<Longrightarrow> tfPump f' = PumpOver" and "tfDone f \<Longrightarrow> tfDone f'" and "length (tfWrites f') \<le> writesCap"
    and "prefix (tfSent f') (pipeline f')" and "tfPump f = PumpOver \<Longrightarrow> tfSent f' = tfSent f"
  shows "queue_inv f'"
  using assms unfolding queue_inv_def by (metis prefix_order.trans)

lemma sent_pipeline: "prefix (tfSent f) (pipeline f)"
  by (simp add: pipeline_def)

lemma queue_inv_less:
  assumes "queue_inv f" and "subseq (pipeline f') (pipeline f)" and "tfOffered f' = tfOffered f"
    and "length (tfWrites f') \<le> writesCap" and "tfSent f' = tfSent f" and "tfGaveUp f \<Longrightarrow> tfGaveUp f'"
    and "tfGaveUp f' \<or> tfPump f' = PumpOver \<or> tfDone f' \<and> tfPump f \<noteq> PumpOver \<and> prefix (pipeline f') (pipeline f)"
  shows "queue_inv f'"
  using assms unfolding queue_inv_def by (metis prefix_order.trans subseq_order.trans)

lemma enqueue_queue_inv:
  assumes q: "queue_inv f" and w: "tfWaiting f = None"
  shows "queue_inv (enqueueStart b f)"
proof (cases "b = [] \<or> tfDone f")
  case True
  moreover have "subseq (pipeline f) (tfOffered f @ [b])" using q by (auto simp: queue_inv_def)
  ultimately show ?thesis
    using q by (auto simp: enqueueStart_def queue_inv_def pipeline_def Let_def)
next
  case False
  let ?f = "enqueueStart b f"
  have p: "pipeline ?f = pipeline f @ [b]" and o: "tfOffered ?f = tfOffered f @ [b]"
    using False w by (auto simp: enqueueStart_def pipeline_def Let_def)
  have same: "tfGaveUp ?f = tfGaveUp f" "tfPump ?f = tfPump f" "tfDone ?f = tfDone f" "tfSent ?f = tfSent f"
    by (simp_all add: enqueueStart_def Let_def)
  have "length (tfWrites ?f) \<le> writesCap" using q by (auto simp: enqueueStart_def Let_def queue_inv_def)
  then show ?thesis using q False unfolding queue_inv_def p o same by auto
qed

lemmas queue_quiet = pipeline_def queue_inv_def closeLock_def closeSignal_def closeSocket_def

lemma subseq_drop_one: "subseq (xs @ ys) (xs @ b # ys)"
  by (induction xs) auto

lemma queue_inv_step: "flow_step f f' \<Longrightarrow> socket_inv f \<Longrightarrow> queue_inv f \<Longrightarrow> queue_inv f'"
proof (induction rule: flow_step.induct)
  case (Adopt f)
  then show ?case
    by (intro queue_inv_same [OF Adopt(3)])
      (auto simp: afterDial_def adopt_def pipeline_def socket_inv_def queue_inv_def)
next
  case (Enqueue f b)
  then show ?case by (simp add: enqueue_queue_inv)
next
  case (WaitSpace f b)
  then show ?case
    by (intro queue_inv_same [OF WaitSpace(4)]) (auto simp: waitSpace_def pipeline_def)
next
  case (WaitDone f b)
  have p: "prefix (pipeline (waitDone f)) (pipeline f)" using WaitDone(1) by (simp add: waitDone_def pipeline_def)
  note s = prefix_imp_subseq [OF p] p
  show ?case
  proof (cases "tfPump f = PumpOver")
    case True
    then show ?thesis using WaitDone s by (intro queue_inv_less [OF WaitDone(4) s(1)]) (auto simp: waitDone_def queue_inv_def)
  next
    case False
    then show ?thesis using WaitDone s by (intro queue_inv_less [OF WaitDone(4) s(1)]) (auto simp: waitDone_def queue_inv_def)
  qed
next
  case (WaitTimeout f b)
  have "prefix (pipeline (waitTimeout f)) (pipeline f)" using WaitTimeout(1) by (simp add: waitTimeout_def pipeline_def)
  then have "subseq (pipeline (waitTimeout f)) (pipeline f)" by (rule prefix_imp_subseq)
  then show ?case using WaitTimeout by (intro queue_inv_less [OF WaitTimeout(3)]) (auto simp: waitTimeout_def queue_inv_def)
next
  case (PumpTake f b bs)
  then show ?case by (intro queue_inv_same [OF PumpTake(4)]) (auto simp: pipeline_def queue_inv_def)
next
  case (FlushTake f b bs)
  then show ?case by (intro queue_inv_same [OF FlushTake(4)]) (auto simp: pipeline_def queue_inv_def)
next
  case (PumpFail f b)
  have "subseq (pipeline (f\<lparr>tfPump := PumpOver\<rparr>)) (pipeline f)"
    using PumpFail(1) by (simp add: pipeline_def subseq_drop_one)
  then show ?case using PumpFail by (intro queue_inv_less [OF PumpFail(3)]) (auto simp: queue_inv_def)
next
  case (FlushFail f b)
  have "subseq (pipeline (f\<lparr>tfPump := PumpOver\<rparr>)) (pipeline f)"
    using FlushFail(1) by (simp add: pipeline_def subseq_drop_one)
  then show ?case using FlushFail by (intro queue_inv_less [OF FlushFail(3)]) (auto simp: queue_inv_def)
next
  case (FlushEnd f)
  have "pipeline (f\<lparr>tfPump := PumpOver\<rparr>) = pipeline f" using FlushEnd(1) by (simp add: pipeline_def)
  then show ?case using FlushEnd by (intro queue_inv_less [OF FlushEnd(4)]) (auto simp: queue_inv_def)
next
  case (DialFails f)
  then show ?case by (intro queue_inv_same [OF DialFails(3)]) (auto simp: queue_quiet)
next
  case (DialWorks f)
  then show ?case by (intro queue_inv_same [OF DialWorks(3)]) (auto simp: queue_quiet)
next
  case (HangUp f)
  then show ?case by (intro queue_inv_same [OF HangUp(3)]) (auto simp: queue_quiet)
next
  case (CloseLock f)
  then show ?case by (intro queue_inv_same [OF CloseLock(3)]) (auto simp: queue_quiet)
next
  case (CloseSignal f conn)
  then show ?case by (intro queue_inv_same [OF CloseSignal(3)]) (auto simp: queue_quiet)
next
  case (CloseSocket f conn)
  then show ?case by (intro queue_inv_same [OF CloseSocket(3)]) (auto simp: queue_quiet)
next
  case (PumpWrite f b)
  then show ?case by (intro queue_inv_same [OF PumpWrite(4)]) (auto simp: queue_quiet)
next
  case (PumpDone f)
  then show ?case by (intro queue_inv_same [OF PumpDone(4)]) (auto simp: queue_quiet)
next
  case (FlushWrite f b)
  then show ?case by (intro queue_inv_same [OF FlushWrite(4)]) (auto simp: queue_quiet)
qed

section \<open>Properties\<close>

lemma flow_runs:
  "flow_step\<^sup>*\<^sup>* newFlow f \<Longrightarrow> socket_inv f \<and> queue_inv f"
  by (induction rule: rtranclp_induct) (auto intro: socket_inv_new queue_inv_new socket_inv_step queue_inv_step)

text \<open>
  C14: no socket is left behind and no byte is out of place. However dialling, closing,
  writing and enqueueing interleave: once the flow is closed and the dial goroutine is past
  the hand-over, the socket is not open, also when the close came while the dial was in
  flight; the queue holds at most 64 chunks; what the socket took is a part, in order, of
  what was enqueued, and its very beginning unless an enqueue gave up.
\<close>

theorem tcp_flow_safe:
  assumes "flow_step\<^sup>*\<^sup>* newFlow f"
  shows "\<not> (tfClosing f = FullyClosed \<and> tfDial f \<in> {Attached, DialOver} \<and> tfSocket f = SocketOpen)
    \<and> length (tfWrites f) \<le> 64 \<and> subseq (tfSent f) (tfOffered f)
    \<and> (tfGaveUp f \<or> prefix (tfSent f) (tfOffered f))"
proof -
  have s: "socket_inv f" and q: "queue_inv f" using flow_runs [OF assms] by simp_all
  have "subseq (tfSent f) (pipeline f)" using sent_pipeline by (rule prefix_imp_subseq)
  then have "subseq (tfSent f) (tfOffered f)" using q subseq_order.trans unfolding queue_inv_def by blast
  moreover have "length (tfWrites f) \<le> 64" using q by (simp add: queue_inv_def writesCap_def)
  moreover have "tfGaveUp f \<or> prefix (tfSent f) (tfOffered f)" using q by (auto simp: queue_inv_def)
  ultimately show ?thesis using s by (auto simp: socket_inv_def)
qed

text \<open>Runs that fill the queue, and that let the pump work it off.\<close>

lemma fill_queue:
  "n \<le> 64 \<Longrightarrow> flow_step\<^sup>*\<^sup>* newFlow (newFlow\<lparr>tfWrites := replicate n [0], tfOffered := replicate n [0]\<rparr>)"
proof (induction n)
  case 0
  have "newFlow\<lparr>tfWrites := replicate 0 [0], tfOffered := replicate 0 [0]\<rparr> = newFlow" by (simp add: newFlow_def)
  then show ?case by simp
next
  case (Suc n)
  let ?f = "newFlow\<lparr>tfWrites := replicate n [0], tfOffered := replicate n [0]\<rparr>"
  have "flow_step ?f (enqueueStart [0] ?f)" by (rule flow_step.Enqueue) (simp add: newFlow_def)
  moreover have "enqueueStart [0] ?f = newFlow\<lparr>tfWrites := replicate (Suc n) [0], tfOffered := replicate (Suc n) [0]\<rparr>"
    using Suc.prems by (simp add: enqueueStart_def newFlow_def writesCap_def replicate_append_same)
  ultimately show ?case using Suc by (simp del: replicate.simps)
qed

lemma work_off:
  assumes "tfPump f = PumpOn" and "tfSocket f = SocketOpen" and "tfWrites f = bs"
  shows "flow_step\<^sup>*\<^sup>* f (f\<lparr>tfWrites := [], tfSent := tfSent f @ bs\<rparr>)"
  using assms
proof (induction bs arbitrary: f)
  case Nil
  then have "f\<lparr>tfWrites := [], tfSent := tfSent f @ []\<rparr> = f" by (cases f) simp
  then show ?case by simp
next
  case (Cons b bs)
  let ?f1 = "f\<lparr>tfPump := PumpWriting b, tfWrites := bs\<rparr>"
  let ?f2 = "?f1\<lparr>tfPump := PumpOn, tfSent := tfSent ?f1 @ [b]\<rparr>"
  have "flow_step f ?f1" using Cons.prems by (intro flow_step.PumpTake) simp_all
  moreover have "flow_step ?f1 ?f2" using Cons.prems by (intro flow_step.PumpWrite) simp_all
  moreover have "flow_step\<^sup>*\<^sup>* ?f2 (?f2\<lparr>tfWrites := [], tfSent := tfSent ?f2 @ bs\<rparr>)"
    using Cons.prems by (intro Cons.IH) simp_all
  moreover have "?f2\<lparr>tfWrites := [], tfSent := tfSent ?f2 @ bs\<rparr> = f\<lparr>tfWrites := [], tfSent := tfSent f @ b # bs\<rparr>"
    using Cons.prems by simp
  ultimately show ?case by (simp only: converse_rtranclp_into_rtranclp)
qed

lemma tcp_flow_safe_witness:
  "flow_step\<^sup>*\<^sup>* newFlow (newFlow\<lparr>tfWrites := replicate 3 [0], tfOffered := replicate 3 [0]\<rparr>)
   \<and> prefix (tfSent (newFlow\<lparr>tfWrites := replicate 3 [0], tfOffered := replicate 3 [0]\<rparr>)) (replicate 3 [0])"
  using tcp_flow_safe [OF fill_queue [of 3]] fill_queue [of 3] by (simp add: newFlow_def)

text \<open>
  An enqueue that gives up leaves a hole in the stream. Behind a full queue \<open>enqueue\<close>
  waits two seconds and then drops its chunk although the flow stays open, so a later chunk
  can reach the socket without it; and what was queued before a close can be lost, since the
  socket is closed at once and the pump then fails to flush.
\<close>

lemma enqueued_data_lost:
  "(\<exists>f. flow_step\<^sup>*\<^sup>* newFlow f \<and> \<not> tfClosed f \<and> tfPump f = PumpOn \<and> tfSent f = replicate 64 [0] @ [[1]]
       \<and> tfOffered f = replicate 64 [0] @ [[0], [1]])
   \<and> (\<exists>f. flow_step\<^sup>*\<^sup>* newFlow f \<and> tfPump f = PumpOver \<and> \<not> tfGaveUp f \<and> tfOffered f = [[0]] \<and> tfSent f = [])"
proof
  define q where "q = (replicate 64 [0] :: byte list list)"
  define f0 where "f0 = newFlow\<lparr>tfWrites := q, tfOffered := q\<rparr>"
  define f1 where "f1 = f0\<lparr>tfOffered := q @ [[0]], tfWaiting := Some [0]\<rparr>"
  define f2 where "f2 = waitTimeout f1"
  define f3 where "f3 = f2\<lparr>tfDial := Connected, tfSocket := SocketOpen\<rparr>"
  define f4 where "f4 = afterDial f3"
  define f5 where "f5 = f4\<lparr>tfWrites := [], tfSent := tfSent f4 @ q\<rparr>"
  define f6 where "f6 = enqueueStart [1] f5"
  define f7 where "f7 = f6\<lparr>tfWrites := [], tfSent := tfSent f6 @ [[1]]\<rparr>"
  have len: "length q = 64" by (simp add: q_def)
  have "flow_step\<^sup>*\<^sup>* newFlow f0" unfolding f0_def q_def by (rule fill_queue) simp
  moreover have "flow_step f0 f1"
  proof -
    have "enqueueStart [0] f0 = f1" by (simp add: f1_def f0_def enqueueStart_def newFlow_def writesCap_def len)
    moreover have "flow_step f0 (enqueueStart [0] f0)" by (rule flow_step.Enqueue) (simp add: f0_def newFlow_def)
    ultimately show ?thesis by simp
  qed
  moreover have "flow_step f1 f2" unfolding f2_def by (rule flow_step.WaitTimeout [of _ "[0]"]) (simp add: f1_def)
  moreover have "flow_step f2 f3" unfolding f3_def
    by (rule flow_step.DialWorks) (simp add: f2_def f1_def f0_def waitTimeout_def newFlow_def)
  moreover have "flow_step f3 f4" unfolding f4_def by (rule flow_step.Adopt) (simp add: f3_def)
  moreover have 4: "tfPump f4 = PumpOn" "tfSocket f4 = SocketOpen" "tfWrites f4 = q" "tfSent f4 = []" "tfOffered f4 = q @ [[0]]"
      "\<not> tfDone f4" "\<not> tfClosed f4" "tfWaiting f4 = None"
    by (simp_all add: f4_def f3_def f2_def f1_def f0_def afterDial_def adopt_def waitTimeout_def newFlow_def)
  moreover have "flow_step\<^sup>*\<^sup>* f4 f5" unfolding f5_def by (rule work_off) (simp_all add: 4)
  moreover have "flow_step f5 f6" unfolding f6_def by (rule flow_step.Enqueue) (simp add: f5_def 4)
  moreover have 6: "tfPump f6 = PumpOn" "tfSocket f6 = SocketOpen" "tfWrites f6 = [[1]]" "tfSent f6 = q"
      "tfOffered f6 = q @ [[0], [1]]" "\<not> tfClosed f6"
    by (simp_all add: f6_def f5_def enqueueStart_def writesCap_def 4)
  moreover have "flow_step\<^sup>*\<^sup>* f6 f7" unfolding f7_def by (rule work_off) (simp_all add: 6)
  ultimately have "flow_step\<^sup>*\<^sup>* newFlow f7" by (meson rtranclp.rtrancl_into_rtrancl rtranclp_trans)
  moreover have "\<not> tfClosed f7 \<and> tfPump f7 = PumpOn \<and> tfSent f7 = q @ [[1]] \<and> tfOffered f7 = q @ [[0], [1]]"
    by (simp add: f7_def 6)
  ultimately show "\<exists>f. flow_step\<^sup>*\<^sup>* newFlow f \<and> \<not> tfClosed f \<and> tfPump f = PumpOn \<and> tfSent f = replicate 64 [0] @ [[1]]
       \<and> tfOffered f = replicate 64 [0] @ [[0], [1]]" unfolding q_def by blast
next
  let ?f1 = "newFlow\<lparr>tfDial := Connected, tfSocket := SocketOpen\<rparr>"
  let ?f2 = "afterDial ?f1"
  let ?f3 = "enqueueStart [0] ?f2"
  let ?f4 = "closeLock ?f3"
  let ?f5 = "closeSignal True ?f4"
  let ?f6 = "closeSocket True ?f5"
  let ?f7 = "?f6\<lparr>tfPump := PumpFlush\<rparr>"
  let ?f8 = "?f7\<lparr>tfPump := PumpFlushing [0], tfWrites := []\<rparr>"
  let ?f9 = "?f8\<lparr>tfPump := PumpOver\<rparr>"
  note d = newFlow_def afterDial_def adopt_def enqueueStart_def closeLock_def closeSignal_def closeSocket_def writesCap_def
  have "flow_step newFlow ?f1" by (rule flow_step.DialWorks) (simp add: d)
  then have "flow_step\<^sup>*\<^sup>* newFlow ?f1" by (rule r_into_rtranclp)
  also have "flow_step ?f1 ?f2" by (rule flow_step.Adopt) simp
  also have "flow_step ?f2 ?f3" by (rule flow_step.Enqueue) (simp add: d)
  also have "flow_step ?f3 ?f4" by (rule flow_step.CloseLock) (simp add: d)
  also have "flow_step ?f4 ?f5" by (rule flow_step.CloseSignal) (simp add: d)
  also have "flow_step ?f5 ?f6" by (rule flow_step.CloseSocket) (simp add: d)
  also have "flow_step ?f6 ?f7" by (rule flow_step.PumpDone) (simp_all add: d)
  also have "flow_step ?f7 ?f8" by (rule flow_step.FlushTake) (simp_all add: d)
  also have "flow_step ?f8 ?f9" by (rule flow_step.FlushFail) simp
  finally have "flow_step\<^sup>*\<^sup>* newFlow ?f9" .
  moreover have "tfPump ?f9 = PumpOver \<and> \<not> tfGaveUp ?f9 \<and> tfOffered ?f9 = [[0]] \<and> tfSent ?f9 = []" by (simp add: d)
  ultimately show "\<exists>f. flow_step\<^sup>*\<^sup>* newFlow f \<and> tfPump f = PumpOver \<and> \<not> tfGaveUp f \<and> tfOffered f = [[0]] \<and> tfSent f = []" by blast
qed

end
