(* ===== verification/Texts.thy ===== *)
theory Texts
  imports Session_Loop
begin

text \<open>
  How numbers, addresses and hardware addresses are printed, by \<open>icg/concentrator/session.go\<close>
  and the standard library functions it calls, and that different values print differently.
\<close>

section \<open>Printing\<close>

definition dotted :: "byte list \<Rightarrow> string" where
  "dotted b = concat (map (\<lambda>x. dec_digits (unat x) @ ''.'') (butlast b)) @ dec_digits (unat (last b))"

definition icgIDString :: "u32 \<Rightarrow> string" where
  "icgIDString v = dotted (le32 v)"

definition macString :: "byte list \<Rightarrow> string" where
  "macString mac = (if mac = [] then ''unknown'' else macText mac)"

text \<open>\<open>AddrPort.String\<close>.\<close>

definition addrPortString :: "AddrPort \<Rightarrow> string" where
  "addrPortString a = dotted (as4 (apAddr a)) @ '':'' @ dec_digits (unat (apPort a))"

section \<open>Different values print differently\<close>

definition digitsValue :: "string \<Rightarrow> nat" where
  "digitsValue ds = foldl (\<lambda>a ch. 10 * a + (of_char ch - 48)) 0 ds"

lemma digitsValue_snoc: "digitsValue (ds @ [ch]) = 10 * digitsValue ds + (of_char ch - 48)"
  by (simp add: digitsValue_def)

lemma of_char_digit: "d < 10 \<Longrightarrow> (of_char (char_of (48 + d) :: char) :: nat) = 48 + d"
  by simp

lemma digitsValue_digits: "digitsValue (dec_digits n) = n"
proof (induction n rule: dec_digits.induct)
  case (1 n)
  show ?case
  proof (cases "n < 10")
    case True
    then show ?thesis
      using of_char_digit [OF True] by (subst dec_digits.simps) (simp add: digitsValue_def)
  next
    case False
    have "n mod 10 < 10" by simp
    from of_char_digit [OF this] False 1 [OF False] show ?thesis
      by (subst dec_digits.simps) (simp add: digitsValue_snoc)
  qed
qed

lemma dec_digits_inject: "dec_digits m = dec_digits n \<longleftrightarrow> m = n"
  using digitsValue_digits by metis

lemma digits_no_dot: "CHR ''.'' \<notin> set (dec_digits n)"
proof (induction n rule: dec_digits.induct)
  case (1 n)
  have "char_of (48 + d) \<noteq> CHR ''.''" if "d < 10" for d :: nat
  proof
    assume "char_of (48 + d) = CHR ''.''"
    then have "(of_char (char_of (48 + d) :: char) :: nat) = of_char (CHR ''.'')" by simp
    then show False using of_char_digit [OF that] by simp
  qed
  note nd = this
  show ?case
  proof (cases "n < 10")
    case True
    then have "dec_digits n = [char_of (48 + n)]" by (subst dec_digits.simps) simp
    then show ?thesis using nd [OF True] by (metis empty_iff empty_set set_ConsD)
  next
    case False
    then have "dec_digits n = dec_digits (n div 10) @ [char_of (48 + n mod 10)]" by (subst dec_digits.simps) simp
    moreover have "n mod 10 < 10" by simp
    ultimately show ?thesis using nd [of "n mod 10"] 1 [OF False] by (metis Un_iff empty_iff empty_set set_ConsD set_append)
  qed
qed

lemma dot_split:
  "x \<notin> set a \<Longrightarrow> x \<notin> set b \<Longrightarrow> a @ [x] @ r = b @ [x] @ s \<longleftrightarrow> a = b \<and> r = s"
  by (induction a arbitrary: b; case_tac b; auto)

lemma icgIDString_inject: "icgIDString v = icgIDString w \<longleftrightarrow> v = w"
proof
  assume eq: "icgIDString v = icgIDString w"
  have d: "icgIDString u = dec_digits (unat (le32 u ! 0)) @ [CHR ''.''] @ dec_digits (unat (le32 u ! 1)) @ [CHR ''.'']
      @ dec_digits (unat (le32 u ! 2)) @ [CHR ''.''] @ dec_digits (unat (le32 u ! 3))" for u
    by (simp add: icgIDString_def dotted_def le32_def)
  have "le32 v ! 0 = le32 w ! 0 \<and> le32 v ! 1 = le32 w ! 1 \<and> le32 v ! 2 = le32 w ! 2 \<and> le32 v ! 3 = le32 w ! 3"
    using eq unfolding d by (simp only: dot_split [OF digits_no_dot digits_no_dot] dec_digits_inject word_unat_eq_iff [symmetric])
  then have "le32 v = le32 w" by (simp add: le32_def)
  then have "leU32 (le32 v) = leU32 (le32 w)" by simp
  then show "v = w" by simp
qed simp

end
