(* ===== verification/Parsing.thy ===== *)
theory Parsing
  imports Texts
begin

text \<open>
  The text functions of Go's standard library that the commands and the client read their flags with:
  \<open>strings\<close> (\<open>TrimSpace\<close>, \<open>Split\<close>, \<open>CutPrefix\<close>, \<open>ToLower\<close>), \<open>strconv.ParseUint\<close>, \<open>fmt.Sscanf\<close>,
  \<open>encoding/base64\<close>, \<open>net\<close> (\<open>SplitHostPort\<close>, \<open>ParseMAC\<close>) and \<open>net/netip\<close> (\<open>ParseAddr\<close>, \<open>ParsePrefix\<close>,
  \<open>Prefix.Contains\<close>). A Go string is a list of bytes, here characters. The texts of the
  library's errors are left out; a failed parse is \<open>None\<close>. The lemmas read back what the
  printing functions of \<open>Texts\<close> write.
\<close>

section \<open>Strings\<close>

fun splitOn :: "char \<Rightarrow> string \<Rightarrow> string list" where
  "splitOn c [] = [[]]"
| "splitOn c (x # xs) =
     (if x = c then [] # splitOn c xs
      else case splitOn c xs of [] \<Rightarrow> [[x]] | y # ys \<Rightarrow> (x # y) # ys)"

definition cutPrefix :: "string \<Rightarrow> string \<Rightarrow> string option" where
  "cutPrefix p s = (if take (length p) s = p then Some (drop (length p) s) else None)"

definition beforeChar :: "char \<Rightarrow> string \<Rightarrow> string" where
  "beforeChar c s = takeWhile (\<lambda>x. x \<noteq> c) s"

text \<open>The text before and after the last occurrence of a character.\<close>

definition cutLast :: "char \<Rightarrow> string \<Rightarrow> (string \<times> string) option" where
  "cutLast c s =
     (if c \<in> set s
      then Some (rev (tl (dropWhile (\<lambda>x. x \<noteq> c) (rev s))), rev (takeWhile (\<lambda>x. x \<noteq> c) (rev s)))
      else None)"

text \<open>The white space of \<open>unicode.IsSpace\<close>, each in UTF-8.\<close>

definition spaces :: "string list" where
  "spaces =
     map (\<lambda>n::nat. [char_of n]) [9, 10, 11, 12, 13, 32]
     @ map (map (char_of :: nat \<Rightarrow> char)) [[0xC2, 0x85], [0xC2, 0xA0], [0xE1, 0x9A, 0x80]]
     @ map (\<lambda>n::nat. map (char_of :: nat \<Rightarrow> char) [0xE2, 0x80, n])
         [0x80, 0x81, 0x82, 0x83, 0x84, 0x85, 0x86, 0x87, 0x88, 0x89, 0x8A, 0xA8, 0xA9, 0xAF]
     @ map (map (char_of :: nat \<Rightarrow> char)) [[0xE2, 0x81, 0x9F], [0xE3, 0x80, 0x80]]"

fun stripFirst :: "string list \<Rightarrow> string \<Rightarrow> string option" where
  "stripFirst [] s = None"
| "stripFirst (p # ps) s = (case cutPrefix p s of Some r \<Rightarrow> Some r | None \<Rightarrow> stripFirst ps s)"

lemma stripFirst_shorter: "[] \<notin> set ps \<Longrightarrow> stripFirst ps s = Some r \<Longrightarrow> length r < length s"
proof (induction ps)
  case (Cons p ps)
  show ?case
  proof (cases "cutPrefix p s")
    case (Some q)
    with Cons.prems have "r = drop (length p) s" "take (length p) s = p" "p \<noteq> []"
      by (auto simp: cutPrefix_def split: if_splits)
    then show ?thesis by (cases s) auto
  qed (use Cons in auto)
qed simp

function trimWith :: "string list \<Rightarrow> string \<Rightarrow> string" where
  "trimWith ps s =
     (if [] \<in> set ps then s
      else case stripFirst ps s of Some r \<Rightarrow> trimWith ps r | None \<Rightarrow> s)"
  by pat_completeness auto
termination by (relation "measure (\<lambda>(ps, s). length s)") (auto simp: stripFirst_shorter)

declare trimWith.simps [simp del]

definition TrimSpace :: "string \<Rightarrow> string" where
  "TrimSpace s = rev (trimWith (map rev spaces) (rev (trimWith spaces s)))"

definition isDigit :: "char \<Rightarrow> bool" where
  "isDigit c \<longleftrightarrow> 48 \<le> (of_char c :: nat) \<and> (of_char c :: nat) \<le> 57"

definition hexVal :: "char \<Rightarrow> nat option" where
  "hexVal c =
     (let n = of_char c :: nat in
      if 48 \<le> n \<and> n \<le> 57 then Some (n - 48)
      else if 97 \<le> n \<and> n \<le> 102 then Some (n - 87)
      else if 65 \<le> n \<and> n \<le> 70 then Some (n - 55)
      else None)"

definition toLower :: "string \<Rightarrow> string" where
  "toLower s = map (\<lambda>c. let n = of_char c :: nat in if 65 \<le> n \<and> n \<le> 90 then char_of (n + 32) else c) s"

definition hexNumber :: "string \<Rightarrow> nat" where
  "hexNumber s = foldl (\<lambda>a c. 16 * a + (case hexVal c of Some v \<Rightarrow> v | None \<Rightarrow> 0)) 0 s"

text \<open>\<open>strconv.ParseUint (s, 16, 32)\<close>.\<close>

definition parseHex32 :: "string \<Rightarrow> u32 option" where
  "parseHex32 s =
     (if s = [] \<or> \<not> list_all (\<lambda>c. hexVal c \<noteq> None) s \<or> 2 ^ 32 \<le> hexNumber s then None
      else Some (of_nat (hexNumber s)))"

text \<open>
  \<open>fmt.Sscanf\<close> with one verb, \<open>%x\<close> into a \<open>uint32\<close> or \<open>%d\<close> into an \<open>int\<close>: white space but no
  new line is skipped, then as many digits as there are make the number; what follows is not
  looked at.
\<close>

function scanSpace :: "string \<Rightarrow> string option" where
  "scanSpace s =
     (if take 1 s = [CHR 0x0A] then None
      else case stripFirst spaces s of Some r \<Rightarrow> scanSpace r | None \<Rightarrow> Some s)"
  by pat_completeness auto
termination
proof (relation "measure length")
  have "[] \<notin> set spaces" by (simp add: spaces_def)
  then show "stripFirst spaces s = Some r \<Longrightarrow> (r, s) \<in> measure length" for s r by (simp add: stripFirst_shorter)
qed simp

declare scanSpace.simps [simp del]

definition ScanHex32 :: "string \<Rightarrow> u32 option" where
  "ScanHex32 s =
     (case scanSpace s of
        None \<Rightarrow> None
      | Some t \<Rightarrow> parseHex32 (takeWhile (\<lambda>c. hexVal c \<noteq> None) t))"

definition signOf :: "string \<Rightarrow> int \<times> string" where
  "signOf s =
     (if take 1 s = ''-'' then (-1, drop 1 s) else if take 1 s = ''+'' then (1, drop 1 s) else (1, s))"

definition ScanInt :: "string \<Rightarrow> int option" where
  "ScanInt s =
     (case scanSpace s of
        None \<Rightarrow> None
      | Some t \<Rightarrow>
          (case signOf t of
             (sg, t) \<Rightarrow>
               let ds = takeWhile isDigit t; n = sg * int (digitsValue ds)
               in if ds = [] \<or> n < - (2 ^ 63) \<or> 2 ^ 63 \<le> n then None else Some n))"

text \<open>The conversion \<open>[]byte (s)\<close>.\<close>

definition strBytes :: "string \<Rightarrow> byte list" where
  "strBytes s = map of_char s"

section \<open>Hardware addresses\<close>

text \<open>\<open>xtoi2\<close>: the next two hex digits; a third character, if any, must be the separator.\<close>

definition xtoi2 :: "string \<Rightarrow> char \<Rightarrow> byte option" where
  "xtoi2 s e =
     (if 2 < length s \<and> s ! 2 \<noteq> e then None
      else case (hexVal (s ! 0), hexVal (s ! 1)) of
             (Some a, Some b) \<Rightarrow> Some (of_nat (16 * a + b))
           | _ \<Rightarrow> None)"

fun macPairs :: "nat \<Rightarrow> char \<Rightarrow> string \<Rightarrow> byte list option" where
  "macPairs 0 e s = Some []"
| "macPairs (Suc n) e s =
     (case xtoi2 s e of
        None \<Rightarrow> None
      | Some b \<Rightarrow> map_option (Cons b) (macPairs n e (drop 3 s)))"

fun macQuads :: "nat \<Rightarrow> char \<Rightarrow> string \<Rightarrow> byte list option" where
  "macQuads 0 e s = Some []"
| "macQuads (Suc n) e s =
     (case (xtoi2 (take 2 s) (CHR 0x00), xtoi2 (drop 2 s) e) of
        (Some a, Some b) \<Rightarrow> map_option (\<lambda>r. a # b # r) (macQuads n e (drop 5 s))
      | _ \<Rightarrow> None)"

definition ParseMAC :: "string \<Rightarrow> byte list option" where
  "ParseMAC s =
     (let l = length s in
      if l < 14 then None
      else if s ! 2 = CHR '':'' \<or> s ! 2 = CHR ''-'' then
        (let n = (l + 1) div 3 in
         if (l + 1) mod 3 \<noteq> 0 \<or> n \<notin> {6, 8, 20} then None else macPairs n (s ! 2) s)
      else if s ! 4 = CHR ''.'' then
        (let n = 2 * (l + 1) div 5 in
         if (l + 1) mod 5 \<noteq> 0 \<or> n \<notin> {6, 8, 20} then None else macQuads (n div 2) (s ! 4) s)
      else None)"

section \<open>Addresses and prefixes\<close>

datatype netAddr = IP4 u32 | IP6 "128 word" string

text \<open>\<open>parseIPv4Fields\<close>: value and digits of the current field, and the finished fields.\<close>

fun ip4Fields :: "string \<Rightarrow> nat \<Rightarrow> nat \<Rightarrow> byte list \<Rightarrow> byte list option" where
  "ip4Fields [] v digs fs = (if length fs < 3 then None else Some (fs @ [of_nat v]))"
| "ip4Fields (c # cs) v digs fs =
     (if isDigit c then
        (if digs = 1 \<and> v = 0 then None
         else let w = v * 10 + (of_char c - 48) in
              if 255 < w then None else ip4Fields cs w (digs + 1) fs)
      else if c = CHR ''.'' then
        (if digs = 0 \<or> cs = [] \<or> length fs = 3 then None else ip4Fields cs 0 0 (fs @ [of_nat v]))
      else None)"

definition isHex :: "char \<Rightarrow> bool" where "isHex c \<longleftrightarrow> hexVal c \<noteq> None"

text \<open>The loop of \<open>parseIPv6\<close>: the bytes so far and the place of the double colon.\<close>

function ip6Groups :: "string \<Rightarrow> byte list \<Rightarrow> nat option \<Rightarrow> (byte list \<times> nat option) option" where
  "ip6Groups s ip el =
     (if 16 \<le> length ip then (if s = [] then Some (ip, el) else None)
      else
        (let g = takeWhile isHex s; r = dropWhile isHex s; ip2 = ip @ be16 (of_nat (hexNumber g)) in
         if g = [] \<or> 4 < length g then None
         else if r = [] then Some (ip2, el)
         else if hd r = CHR ''.'' then
           (if (el = None \<and> length ip \<noteq> 12) \<or> 16 < length ip + 4 then None
            else map_option (\<lambda>b. (ip @ b, el)) (ip4Fields s 0 0 []))
         else if hd r \<noteq> CHR '':'' \<or> tl r = [] then None
         else if hd (tl r) = CHR '':'' then
           (if el \<noteq> None then None
            else if tl (tl r) = [] then Some (ip2, Some (length ip2))
            else ip6Groups (tl (tl r)) ip2 (Some (length ip2)))
         else ip6Groups (tl r) ip2 el))"
  by pat_completeness auto
termination by (relation "measure (\<lambda>(s, ip, el). 16 - length ip)") (auto simp: be16_def)

declare ip6Groups.simps [simp del]

definition be128 :: "byte list \<Rightarrow> 128 word" where
  "be128 bs = foldl (\<lambda>a b. push_bit 8 a OR ucast b) 0 bs"

definition ip6Finish :: "string \<Rightarrow> byte list \<times> nat option \<Rightarrow> netAddr option" where
  "ip6Finish zone p =
     (case p of (ip, el) \<Rightarrow>
        if length ip < 16 then
          (case el of
             None \<Rightarrow> None
           | Some k \<Rightarrow> Some (IP6 (be128 (take k ip @ replicate (16 - length ip) 0 @ drop k ip)) zone))
        else if el \<noteq> None then None
        else Some (IP6 (be128 ip) zone))"

definition parseIPv6 :: "string \<Rightarrow> netAddr option" where
  "parseIPv6 t =
     (let s = beforeChar (CHR ''%'') t; zone = drop (length s + 1) t in
      if CHR ''%'' \<in> set t \<and> zone = [] then None
      else if take 2 s = ''::'' then
        (if drop 2 s = [] then Some (IP6 0 zone)
         else Option.bind (ip6Groups (drop 2 s) [] (Some 0)) (ip6Finish zone))
      else Option.bind (ip6Groups s [] None) (ip6Finish zone))"

fun ParseAddr_from :: "string \<Rightarrow> string \<Rightarrow> netAddr option" where
  "ParseAddr_from t [] = None"
| "ParseAddr_from t (c # cs) =
     (if c = CHR ''.'' then map_option (\<lambda>b. IP4 (beU32 b)) (ip4Fields t 0 0 [])
      else if c = CHR '':'' then parseIPv6 t
      else if c = CHR ''%'' then None
      else ParseAddr_from t cs)"

definition ParseAddr :: "string \<Rightarrow> netAddr option" where
  "ParseAddr s = ParseAddr_from s s"

datatype Prefix = Prefix (pxAddr: netAddr) (pxBits: nat)

definition ParsePrefix :: "string \<Rightarrow> Prefix option" where
  "ParsePrefix s =
     (case cutLast (CHR ''/'') s of
        None \<Rightarrow> None
      | Some (a, bits) \<Rightarrow>
          (case ParseAddr a of
             None \<Rightarrow> None
           | Some ip \<Rightarrow>
               if (case ip of IP6 _ z \<Rightarrow> z \<noteq> [] | IP4 _ \<Rightarrow> False) then None
               else if 1 < length bits \<and> \<not> (49 \<le> (of_char (hd bits) :: nat) \<and> (of_char (hd bits) :: nat) \<le> 57) then None
               else if bits = [] \<or> \<not> list_all isDigit bits then None
               else if (case ip of IP6 _ _ \<Rightarrow> 128 | IP4 _ \<Rightarrow> 32) < digitsValue bits then None
               else Some (Prefix ip (digitsValue bits))))"

fun prefixContains :: "Prefix \<Rightarrow> netAddr \<Rightarrow> bool" where
  "prefixContains (Prefix (IP4 p) n) (IP4 ip) = (drop_bit (32 - n) (ip XOR p) = 0)"
| "prefixContains (Prefix (IP6 p _) n) (IP6 ip z) = (z = [] \<and> (ip XOR p) AND NOT (mask (128 - n)) = 0)"
| "prefixContains _ _ = False"

section \<open>Host and port\<close>

definition SplitHostPort :: "string \<Rightarrow> (string \<times> string) option" where
  "SplitHostPort hp =
     (case cutLast (CHR '':'') hp of
        None \<Rightarrow> None
      | Some (hostPart, port) \<Rightarrow>
          if hd hp = CHR ''['' then
            (let close = length (beforeChar (CHR '']'') hp) in
             if CHR '']'' \<notin> set hp \<or> close + 1 \<noteq> length hostPart then None
             else if CHR ''['' \<in> set (drop 1 hp) \<or> CHR '']'' \<in> set (drop (close + 1) hp) then None
             else Some (take (close - 1) (drop 1 hp), port))
          else if CHR '':'' \<in> set hostPart \<or> CHR ''['' \<in> set hp \<or> CHR '']'' \<in> set hp then None
          else Some (hostPart, port))"

section \<open>Base64\<close>

text \<open>
  \<open>base64.RawURLEncoding\<close> by its definition: the bits of the text, most significant first,
  in groups of six, the last filled up with zeros.
\<close>

definition b64Alphabet :: string where
  "b64Alphabet = ''ABCDEFGHIJKLMNOPQRSTUVWXYZabcdefghijklmnopqrstuvwxyz0123456789-_''"

definition byteBits :: "byte \<Rightarrow> bool list" where
  "byteBits b = map (\<lambda>i. bit b (7 - i)) [0..<8]"

function sextets :: "bool list \<Rightarrow> nat list" where
  "sextets bs =
     (if bs = [] then []
      else foldl (\<lambda>a b. 2 * a + of_bool b) 0 (take 6 (bs @ replicate 5 False)) # sextets (drop 6 bs))"
  by pat_completeness auto
termination by (relation "measure length") auto

declare sextets.simps [simp del]

definition rawURLEncode :: "byte list \<Rightarrow> string" where
  "rawURLEncode b = map (\<lambda>n. b64Alphabet ! n) (sextets (concat (map byteBits b)))"

section \<open>Reading back what is printed\<close>

lemma isDigit_digit: "d < 10 \<Longrightarrow> isDigit (char_of (48 + d :: nat))"
  using of_char_digit [of d] by (simp add: isDigit_def)

lemma dec_digits_all: "list_all isDigit (dec_digits n)"
proof (induction n rule: dec_digits.induct)
  case (1 n)
  show ?case
  proof (cases "n < 10")
    case True
    then show ?thesis by (subst dec_digits.simps) (simp add: isDigit_digit)
  next
    case False
    have "n mod 10 < 10" by simp
    with False 1 show ?thesis by (subst dec_digits.simps) (simp add: isDigit_digit)
  qed
qed

lemma dec_digits_not_Nil [simp]: "dec_digits n \<noteq> []"
  by (subst dec_digits.simps) simp

lemma digits_exclude: "\<not> isDigit c \<Longrightarrow> c \<notin> set (dec_digits n)"
  using dec_digits_all by (auto simp: list_all_iff)

lemma dec_digits_snoc: "10 \<le> n \<Longrightarrow> dec_digits n = dec_digits (n div 10) @ [char_of (48 + n mod 10)]"
  by (subst dec_digits.simps) simp

lemma dec_digits_single: "n < 10 \<Longrightarrow> dec_digits n = [char_of (48 + n)]"
  by (subst dec_digits.simps) simp

lemma ip4Fields_digits:
  "n < 256 \<Longrightarrow> ip4Fields (dec_digits n @ rest) 0 0 fs = ip4Fields rest n (length (dec_digits n)) fs"
proof (induction n arbitrary: rest rule: dec_digits.induct)
  case (1 n)
  show ?case
  proof (cases "n < 10")
    case True
    then show ?thesis using isDigit_digit [OF True] of_char_digit [OF True] by (simp add: dec_digits_single)
  next
    case False
    have d: "n mod 10 < 10" by simp
    have e: "ip4Fields (dec_digits (n div 10) @ [char_of (48 + n mod 10)] @ rest) 0 0 fs
        = ip4Fields ([char_of (48 + n mod 10)] @ rest) (n div 10) (length (dec_digits (n div 10))) fs"
      using 1 False by simp
    have "0 < n div 10" "n div 10 * 10 + n mod 10 = n" using False by auto
    then show ?thesis
      using False e 1(2) isDigit_digit [OF d] of_char_digit [OF d] by (simp add: dec_digits_snoc Let_def)
  qed
qed

lemma ip4Fields_dot:
  "n < 256 \<Longrightarrow> rest \<noteq> [] \<Longrightarrow> length fs < 3 \<Longrightarrow>
     ip4Fields (dec_digits n @ CHR ''.'' # rest) 0 0 fs = ip4Fields rest 0 0 (fs @ [of_nat n])"
  by (simp add: ip4Fields_digits isDigit_def)

lemma ip4Fields_end: "n < 256 \<Longrightarrow> length fs = 3 \<Longrightarrow> ip4Fields (dec_digits n) 0 0 fs = Some (fs @ [of_nat n])"
  using ip4Fields_digits [of n "[]" fs] by simp

lemma dotted_four:
  "dotted [a, b, c, d] = dec_digits (unat a) @ CHR ''.'' # dec_digits (unat b) @ CHR ''.''
     # dec_digits (unat c) @ CHR ''.'' # dec_digits (unat d)"
  by (simp add: dotted_def)

lemma byte_lt: "unat (b :: byte) < 256"
  using unsigned_less [of b] by simp

lemma ip4Fields_dotted: "length b = 4 \<Longrightarrow> ip4Fields (dotted b) 0 0 [] = Some b"
proof -
  assume "length b = 4"
  then obtain w x y z where "b = [w, x, y, z]" by (auto simp: length_Suc_conv numeral_eq_Suc)
  then show ?thesis by (simp add: dotted_four ip4Fields_dot ip4Fields_end byte_lt)
qed

lemma ParseAddr_from_skip: "list_all isDigit ds \<Longrightarrow> ParseAddr_from t (ds @ CHR ''.'' # r) = map_option (\<lambda>b. IP4 (beU32 b)) (ip4Fields t 0 0 [])"
  by (induction ds) (auto simp: isDigit_def)

lemma as4_shape: "\<exists>w x y z. as4 a = [w, x, y, z]"
  by (simp add: as4_def be32_def le32_def)

lemma ParseAddr_dotted: "ParseAddr (dotted (as4 a)) = Some (IP4 a)"
proof -
  obtain w x y z where b: "as4 a = [w, x, y, z]" using as4_shape by blast
  have "ParseAddr (dotted (as4 a)) = map_option (\<lambda>b. IP4 (beU32 b)) (ip4Fields (dotted (as4 a)) 0 0 [])"
    unfolding ParseAddr_def by (subst (2) b) (simp only: dotted_four ParseAddr_from_skip dec_digits_all)
  also have "\<dots> = Some (IP4 a)"
    using addr4_as4(1) [of a] by (simp add: ip4Fields_dotted addr4_def)
  finally show ?thesis .
qed

lemma dotted_exclude: "\<not> isDigit c \<Longrightarrow> c \<noteq> CHR ''.'' \<Longrightarrow> c \<notin> set (dotted b)"
  by (auto simp: dotted_def digits_exclude)

lemma cutLast_append: "c \<notin> set b \<Longrightarrow> cutLast c (a @ c # b) = Some (a, b)"
proof -
  assume c: "c \<notin> set b"
  then have "takeWhile (\<lambda>x. x \<noteq> c) (rev b @ c # rev a) = rev b" "dropWhile (\<lambda>x. x \<noteq> c) (rev b @ c # rev a) = c # rev a"
    by (auto simp: takeWhile_append dropWhile_append)
  then show ?thesis by (simp add: cutLast_def)
qed

lemma hd_dotted: "b \<noteq> [] \<Longrightarrow> hd (dotted b @ r) \<noteq> CHR ''[''"
proof -
  assume "b \<noteq> []"
  then have "dotted b \<noteq> []" by (simp add: dotted_def)
  then have "hd (dotted b @ r) \<in> set (dotted b)" by (simp add: hd_append)
  then show ?thesis using dotted_exclude [of "CHR ''[''" b] by (auto simp: isDigit_def)
qed

lemma SplitHostPort_printed:
  "SplitHostPort (addrPortString a) = Some (dotted (as4 (apAddr a)), dec_digits (unat (apPort a)))"
proof -
  have n: "\<not> isDigit (CHR '':'')" "\<not> isDigit (CHR ''['')" "\<not> isDigit (CHR '']'')" by (simp_all add: isDigit_def)
  have "as4 (apAddr a) \<noteq> []" using as4_shape [of "apAddr a"] by auto
  then show ?thesis
    using hd_dotted [of "as4 (apAddr a)"] n
    by (simp add: SplitHostPort_def addrPortString_def cutLast_append digits_exclude dotted_exclude)
qed

lemma dec_digits_first: "10 \<le> n \<Longrightarrow> 49 \<le> (of_char (hd (dec_digits n)) :: nat) \<and> (of_char (hd (dec_digits n)) :: nat) \<le> 57"
proof (induction n rule: dec_digits.induct)
  case (1 n)
  show ?case
  proof (cases "10 \<le> n div 10")
    case True
    then show ?thesis using 1 by (simp add: dec_digits_snoc hd_append)
  next
    case False
    then have "1 \<le> n div 10" "n div 10 < 10" using 1(2) by auto
    then show ?thesis using 1(2) of_char_digit [of "n div 10"] by (simp add: dec_digits_snoc dec_digits_single)
  qed
qed

text \<open>A block in the notation address, slash, length.\<close>

definition cidrText :: "u32 \<times> nat \<Rightarrow> string" where
  "cidrText b = dotted (as4 (fst b)) @ CHR ''/'' # dec_digits (snd b)"

lemma ParsePrefix_cidr: "n \<le> 32 \<Longrightarrow> ParsePrefix (cidrText (a, n)) = Some (Prefix (IP4 a) n)"
proof -
  assume n: "n \<le> 32"
  have "CHR ''/'' \<notin> set (dec_digits n)" by (rule digits_exclude) (simp add: isDigit_def)
  moreover have "\<not> 1 < length (dec_digits n) \<or> 10 \<le> n"
    by (cases "n < 10") (simp_all add: dec_digits_single)
  ultimately show ?thesis
    using n dec_digits_first [of n]
    by (auto simp: ParsePrefix_def cidrText_def cutLast_append ParseAddr_dotted dec_digits_all digitsValue_digits)
qed

lemma drop_bit_xor_eq: "drop_bit k (x XOR y) = 0 \<longleftrightarrow> drop_bit k x = drop_bit k (y :: u32)"
proof -
  have "drop_bit k (x XOR y) = drop_bit k x XOR drop_bit k y" by (rule drop_bit_xor)
  moreover have "a XOR b = 0 \<longleftrightarrow> a = b" for a b :: u32 by (auto simp: bit_eq_iff bit_xor_iff)
  ultimately show ?thesis by simp
qed

lemma prefixContains_block:
  "prefixContains (Prefix (IP4 p) n) (IP4 ip) \<longleftrightarrow> unat ip div 2 ^ (32 - n) = unat p div 2 ^ (32 - n)"
  by (simp only: prefixContains.simps drop_bit_xor_eq) (simp only: word_unat_eq_iff unat_drop_bit_eq drop_bit_eq_div [where ?'a = nat])

lemma unat_of_char: "unat (of_char ch :: byte) = of_char ch"
proof -
  have "unat (of_nat (of_char ch) :: byte) = of_char ch"
    using nat_of_char_less_256 [of ch] by (simp only: unat_of_nat) simp
  then show ?thesis by (simp only: of_nat_of_char)
qed

lemma strBytes_inject: "strBytes s = strBytes t \<longleftrightarrow> s = t"
proof -
  have "inj (of_char :: char \<Rightarrow> byte)"
  proof (rule injI)
    fix a b :: char
    assume "(of_char a :: byte) = of_char b"
    then have "(of_char a :: nat) = of_char b" by (simp only: unat_of_char [symmetric])
    then show "a = b" by (rule of_char_eqI)
  qed
  then show ?thesis by (simp add: strBytes_def inj_map_eq_map)
qed

section \<open>Lists of texts\<close>

fun joinWith :: "char \<Rightarrow> string list \<Rightarrow> string" where
  "joinWith c [] = []"
| "joinWith c [x] = x"
| "joinWith c (x # y # xs) = x @ c # joinWith c (y # xs)"

lemma splitOn_plain: "c \<notin> set x \<Longrightarrow> splitOn c x = [x]"
  by (induction x) auto

lemma splitOn_cons: "c \<notin> set x \<Longrightarrow> splitOn c (x @ c # r) = x # splitOn c r"
  by (induction x) auto

lemma splitOn_join: "xs \<noteq> [] \<Longrightarrow> \<forall>x \<in> set xs. c \<notin> set x \<Longrightarrow> splitOn c (joinWith c xs) = xs"
  by (induction c xs rule: joinWith.induct) (auto simp: splitOn_plain splitOn_cons)

text \<open>A text that starts and ends with a printing character is not trimmed.\<close>

definition graphic :: "char \<Rightarrow> bool" where
  "graphic ch \<longleftrightarrow> 33 \<le> (of_char ch :: nat) \<and> (of_char ch :: nat) \<le> 126"

lemma stripFirst_None: "\<forall>p \<in> set ps. p \<noteq> [] \<and> \<not> graphic (hd p) \<Longrightarrow> s \<noteq> [] \<Longrightarrow> graphic (hd s) \<Longrightarrow> stripFirst ps s = None"
proof (induction ps)
  case (Cons p ps)
  then obtain a p' b s' where "p = a # p'" "s = b # s'" "a \<noteq> b" by (cases p; cases s) auto
  then show ?case using Cons by (simp add: cutPrefix_def)
qed simp

lemma spaces_start: "p \<in> set spaces \<Longrightarrow> p \<noteq> [] \<and> \<not> graphic (hd p)"
  by (auto simp: spaces_def graphic_def)

lemma spaces_finish: "p \<in> set spaces \<Longrightarrow> p \<noteq> [] \<and> \<not> graphic (last p)"
  by (auto simp: spaces_def graphic_def)

lemma scanSpace_id: "s \<noteq> [] \<Longrightarrow> graphic (hd s) \<Longrightarrow> scanSpace s = Some s"
proof -
  assume s: "s \<noteq> []" "graphic (hd s)"
  then have "stripFirst spaces s = None" using spaces_start by (intro stripFirst_None) auto
  moreover have "take 1 s \<noteq> [CHR 0x0A]" using s by (cases s) (auto simp: graphic_def)
  ultimately show ?thesis by (subst scanSpace.simps) simp
qed

lemma TrimSpace_id: "s \<noteq> [] \<Longrightarrow> graphic (hd s) \<Longrightarrow> graphic (last s) \<Longrightarrow> TrimSpace s = s"
proof -
  assume s: "s \<noteq> []" "graphic (hd s)" "graphic (last s)"
  have "stripFirst spaces s = None" using spaces_start s by (intro stripFirst_None) auto
  then have a: "trimWith spaces s = s" using spaces_start by (subst trimWith.simps) simp
  have "stripFirst (map rev spaces) (rev s) = None"
    using spaces_finish s by (intro stripFirst_None) (auto simp: hd_rev)
  then have "trimWith (map rev spaces) (rev s) = rev s" using spaces_start by (subst trimWith.simps) auto
  then show ?thesis by (simp add: TrimSpace_def a)
qed

lemma digit_graphic: "isDigit ch \<Longrightarrow> graphic ch"
  by (simp add: isDigit_def graphic_def)

lemma dec_digits_graphic: "ch \<in> set (dec_digits n) \<Longrightarrow> graphic ch"
  using dec_digits_all [of n] by (auto simp: list_all_iff digit_graphic)

lemma dotted_graphic: "ch \<in> set (dotted b) \<Longrightarrow> graphic ch"
  by (auto simp: dotted_def dest: dec_digits_graphic split: if_splits) (simp add: graphic_def)

lemma TrimSpace_all: "s \<noteq> [] \<Longrightarrow> \<forall>ch \<in> set s. graphic ch \<Longrightarrow> TrimSpace s = s"
  by (simp add: TrimSpace_id)

lemma cidrText_graphic: "ch \<in> set (cidrText b) \<Longrightarrow> graphic ch"
  by (auto simp: cidrText_def dest: dotted_graphic dec_digits_graphic) (simp add: graphic_def)

section \<open>Hardware addresses, printed and read\<close>

lemma hexDigit_in: "hexDigit w \<in> set ''0123456789abcdef''"
proof -
  have "unat (w AND 0x0f) \<le> unat (0x0f :: u8)" by (rule word_and_le1 [THEN word_le_nat_alt [THEN iffD1]])
  then show ?thesis unfolding hexDigit_def by (intro nth_mem) simp
qed

lemma hexVal_hexDigit: "hexVal (hexDigit w) = Some (unat (w AND 0x0f))"
proof -
  define n where "n = unat (w AND 0x0f)"
  have "n \<le> unat (0x0f :: u8)" unfolding n_def by (rule word_and_le1 [THEN word_le_nat_alt [THEN iffD1]])
  then have "n \<in> set [0..<16]" by simp
  moreover have "list_all (\<lambda>k. hexVal (''0123456789abcdef'' ! k) = Some k) [0..<16]" by code_simp
  ultimately show ?thesis unfolding hexDigit_def n_def [symmetric] by (simp only: list_all_iff)
qed

lemma hexDigit_graphic: "graphic (hexDigit w)"
  using hexDigit_in [of w] by (auto simp: graphic_def)

lemma low_nibble: "unat (w AND 0x0f :: u8) = unat w mod 16"
proof -
  have "(0x0f :: u8) = mask 4" by (simp add: mask_eq_exp_minus_1)
  then have "w AND 0x0f = take_bit 4 w" by (simp add: take_bit_eq_mask)
  then show ?thesis by (simp only: unsigned_take_bit_eq take_bit_eq_mod [where ?'a = nat]) simp
qed

lemma byte_halves: "(of_nat (16 * unat (drop_bit 4 w AND 0x0f) + unat (w AND 0x0f)) :: u8) = w"
proof -
  have "unat w div 16 < 16" using byte_lt [of w] by simp
  then have "16 * unat (drop_bit 4 w AND 0x0f) + unat (w AND 0x0f) = unat w"
    by (simp only: low_nibble unat_drop_bit_eq drop_bit_eq_div [where ?'a = nat]) simp
  then show ?thesis by simp
qed

lemma xtoi2_pair: "r = [] \<or> hd r = e \<Longrightarrow> xtoi2 (hexDigit (drop_bit 4 b) # hexDigit b # r) e = Some b"
  using byte_halves [of b] by (cases r) (auto simp: xtoi2_def hexVal_hexDigit)

lemma macPairs_text: "macPairs (length m) (CHR '':'') (macText m) = Some m"
proof (induction m rule: macText.induct)
  case (3 b c bs)
  then show ?case by (simp add: xtoi2_pair del: macText.simps(2,3)) (simp add: xtoi2_pair macText.simps)
qed (simp_all add: xtoi2_pair)

lemma length_macText: "m \<noteq> [] \<Longrightarrow> length (macText m) + 1 = 3 * length m"
  by (induction m rule: macText.induct) auto

lemma ParseMAC_macText:
  assumes "length m \<in> {6, 8, 20}"
  shows "ParseMAC (macText m) = Some m"
proof -
  obtain b c r where m: "m = b # c # r" using assms by (cases m; cases "tl m") auto
  have l: "length (macText m) = 3 * length m - 1" using length_macText [of m] m by simp
  have "macText m ! 2 = CHR '':''" by (simp add: m)
  moreover have "(length (macText m) + 1) mod 3 = 0" "(length (macText m) + 1) div 3 = length m" "14 \<le> length (macText m)"
    using assms l by auto
  ultimately show ?thesis using assms macPairs_text [of m] by (simp add: ParseMAC_def Let_def)
qed

lemma macText_inject: "length m \<in> {6, 8, 20} \<Longrightarrow> length n \<in> {6, 8, 20} \<Longrightarrow> macText m = macText n \<longleftrightarrow> m = n"
  by (metis ParseMAC_macText option.inject)

lemma macText_chars: "ch \<in> set (macText m) \<Longrightarrow> ch \<in> set ''0123456789abcdef'' \<or> ch = CHR '':''"
proof (induction m rule: macText.induct)
  case (2 b)
  then show ?case using hexDigit_in [of b] hexDigit_in [of "drop_bit 4 b"] by (auto simp del: hexDigit_def)
next
  case (3 b c bs)
  then show ?case using hexDigit_in [of b] hexDigit_in [of "drop_bit 4 b"] by fastforce
qed simp

lemma toLower_macText: "toLower (macText m) = macText m"
  unfolding toLower_def by (rule map_idI) (use macText_chars in fastforce)

lemma ParseMAC_length: "ParseMAC s = Some m \<Longrightarrow> length m \<in> {6, 8, 20}"
proof -
  have a: "macPairs n e s = Some m \<Longrightarrow> length m = n" for n e s m
    by (induction n arbitrary: s m) (auto split: option.splits)
  have b: "macQuads n e s = Some m \<Longrightarrow> length m = 2 * n" for n e s m
    by (induction n arbitrary: s m) (auto split: option.splits prod.splits)
  show "ParseMAC s = Some m \<Longrightarrow> length m \<in> {6, 8, 20}"
    by (auto simp: ParseMAC_def Let_def split: if_splits dest!: a b)
qed

end
