(* ===== verification/Client.thy ===== *)
theory Client
  imports Stream_Reader Body Reorder IPv4 Parsing
begin

text \<open>
  \<open>icg/client/client.go\<close>: the device's half of the protocol, as the probe speaks it. The
  methods of \<open>*Client\<close> are functions on one record; whether dial or write number \<open>n\<close>
  succeeds is asked of \<open>ok n\<close>; the frames that \<open><-c.Frames\<close> yields before a deadline are a
  list argument, and the end of that list is the deadline. Addresses are IPv4, as the
  \<open>As4\<close> calls require. Log lines and the texts of errors are left out.
\<close>

section \<open>Data\<close>

record ClientConfig =
  ccTCPAddr :: string
  ccUDPAddr :: string
  ccTCPLegs :: int
  ccUDPLegs :: int
  ccIcgID :: "addr option"
  ccClientTunIP :: "addr option"
  ccMAC :: "byte list"
  ccMagic :: u32

datatype client_error =
    DialFailed string nat
  | BadUDPAddr
  | BadUDPPort
  | NoTCPLegs
  | SendFailed
  | TimedOut
  | BodyBad body_error
  | TimestampAltered
  | NoServerTimestamp
  | FlowTimeout nat nat
  | NotPositive
  | FlowClosedEarly int

datatype endpoint = TCPEndpoint string | UDPEndpoint string int

record WanLeg =
  wlIndex :: nat
  wlKind :: string
  wlConn :: endpoint

record Received =
  rcLeg :: WanLeg
  rcFrame :: Frame
  rcAt :: instant

record Counters =
  cnServerHandshakeAcks :: u64
  cnTunnelDetects :: u64
  cnCumulativeAcks :: u64
  cnRetransmitRequests :: u64
  cnRTTSyncAcks :: u64
  cnTCPDownFrames :: u64
  cnUDPDownFrames :: u64
  cnUnknown :: u64
  cnResyncs :: u64

text \<open>
  \<open>clFrames\<close> is what the channel holds. Not in the code: \<open>clAsked\<close> counts the dials and writes,
  \<open>clSent\<close> lists the byte strings written, each with its leg.
\<close>

record Client =
  clCfg :: ClientConfig
  clLegs :: "WanLeg list"
  clTcpSeq :: u32
  clUdpSeq :: u32
  clFrames :: "Received list"
  clStats :: Counters
  clClosed :: bool
  clAsked :: nat
  clSent :: "(WanLeg \<times> byte list) list"

definition orDefault :: "'a option \<Rightarrow> 'a \<Rightarrow> 'a option" where
  "orDefault x d = (case x of None \<Rightarrow> Some d | Some y \<Rightarrow> Some y)"

definition clientDefaults :: "ClientConfig \<Rightarrow> ClientConfig" where
  "clientDefaults c =
     (let c = (if ccTCPLegs c = 0 then c\<lparr>ccTCPLegs := 1\<rparr> else c);
          c = c\<lparr>ccIcgID := orDefault (ccIcgID c) (beU32 [172, 16, 25, 18])\<rparr>;
          c = c\<lparr>ccClientTunIP := orDefault (ccClientTunIP c) (beU32 [172, 16, 25, 19])\<rparr>;
          c = (if ccMAC c = [] then c\<lparr>ccMAC := [0x02, 0x00, 0x5e, 0x10, 0x00, 0x01]\<rparr> else c)
      in if ccMagic c = 0 then c\<lparr>ccMagic := DefaultMagic\<rparr> else c)"

definition noCounters :: Counters where
  "noCounters = \<lparr>cnServerHandshakeAcks = 0, cnTunnelDetects = 0, cnCumulativeAcks = 0, cnRetransmitRequests = 0,
     cnRTTSyncAcks = 0, cnTCPDownFrames = 0, cnUDPDownFrames = 0, cnUnknown = 0, cnResyncs = 0\<rparr>"

definition newClient :: "ClientConfig \<Rightarrow> Client" where
  "newClient c = \<lparr>clCfg = clientDefaults c, clLegs = [], clTcpSeq = 0, clUdpSeq = 0, clFrames = [],
     clStats = noCounters, clClosed = False, clAsked = 0, clSent = []\<rparr>"

text \<open>The addresses that \<open>setDefaults\<close> has made valid.\<close>

definition icgAddr :: "Client \<Rightarrow> addr" where "icgAddr cl = the (ccIcgID (clCfg cl))"
definition tunAddr :: "Client \<Rightarrow> addr" where "tunAddr cl = the (ccClientTunIP (clCfg cl))"

section \<open>Legs\<close>

definition addLeg :: "WanLeg \<Rightarrow> Client \<Rightarrow> Client" where
  "addLeg l cl = cl\<lparr>clLegs := clLegs cl @ [l]\<rparr>"

definition askedOnce :: "Client \<Rightarrow> Client" where
  "askedOnce cl = cl\<lparr>clAsked := clAsked cl + 1\<rparr>"

text \<open>One of the two loops of \<open>Dial\<close>, over the indices still to do.\<close>

fun dialLegs :: "(nat \<Rightarrow> bool) \<Rightarrow> string \<Rightarrow> (nat \<Rightarrow> endpoint) \<Rightarrow> nat list \<Rightarrow> Client \<Rightarrow> client_error option \<times> Client" where
  "dialLegs ok kind at [] cl = (None, cl)"
| "dialLegs ok kind at (i # is) cl =
     (if ok (clAsked cl)
      then dialLegs ok kind at is (addLeg \<lparr>wlIndex = i, wlKind = kind, wlConn = at i\<rparr> (askedOnce cl))
      else (Some (DialFailed kind i), askedOnce cl))"

definition Dial :: "(nat \<Rightarrow> bool) \<Rightarrow> Client \<Rightarrow> client_error option \<times> Client" where
  "Dial ok cl =
     (case dialLegs ok ''tcp'' (\<lambda>_. TCPEndpoint (ccTCPAddr (clCfg cl))) [0..<nat (ccTCPLegs (clCfg cl))] cl of
        (Some err, cl) \<Rightarrow> (Some err, cl)
      | (None, cl) \<Rightarrow>
          if ccUDPAddr (clCfg cl) \<noteq> '''' \<and> ccUDPLegs (clCfg cl) > 0 then
            (case SplitHostPort (ccUDPAddr (clCfg cl)) of
               None \<Rightarrow> (Some BadUDPAddr, cl)
             | Some (host, portStr) \<Rightarrow>
                 (case ScanInt portStr of
                    None \<Rightarrow> (Some BadUDPPort, cl)
                  | Some base \<Rightarrow>
                      dialLegs ok ''udp'' (\<lambda>i. UDPEndpoint host (base + int i)) [0..<nat (ccUDPLegs (clCfg cl))] cl))
          else (None, cl))"

definition Legs :: "string \<Rightarrow> Client \<Rightarrow> WanLeg list" where
  "Legs kind cl = filter (\<lambda>l. kind = '''' \<or> wlKind l = kind) (clLegs cl)"

definition tunIPWord :: "addr \<Rightarrow> u32" where
  "tunIPWord a = leU32 (as4 a)"

definition clientSend :: "(nat \<Rightarrow> bool) \<Rightarrow> WanLeg \<Rightarrow> Frame \<Rightarrow> Client \<Rightarrow> client_error option \<times> Client" where
  "clientSend ok l f cl =
     (let f = f\<lparr>frMagic := ccMagic (clCfg cl), frIcgID := tunIPWord (icgAddr cl)\<rparr>
      in if ok (clAsked cl) then (None, (askedOnce cl)\<lparr>clSent := clSent cl @ [(l, Encode f)]\<rparr>)
         else (Some SendFailed, askedOnce cl))"

text \<open>A frame literal with the fields the code leaves at zero.\<close>

definition upFrame :: "u8 \<Rightarrow> u8 \<Rightarrow> byte list \<Rightarrow> Frame" where
  "upFrame ty op body = \<lparr>frMagic = 0, frIcgID = 0, frType = ty, frOpcode = op, frSeq = 0, frBody = body\<rparr>"

section \<open>Receiving\<close>

definition countFrame :: "Frame \<Rightarrow> Counters \<Rightarrow> Counters" where
  "countFrame f x =
     (if frType f = TypeHandshake then
        if frOpcode f = HSServerAck then x\<lparr>cnServerHandshakeAcks := cnServerHandshakeAcks x + 1\<rparr>
        else if frOpcode f = HSRTTSyncAck then x\<lparr>cnRTTSyncAcks := cnRTTSyncAcks x + 1\<rparr>
        else x
      else if frType f = TypeAck then
        if frOpcode f = AckTunnelDetect then x\<lparr>cnTunnelDetects := cnTunnelDetects x + 1\<rparr>
        else if frOpcode f \<in> {AckTCPCumulative, AckUDPCumulative} then x\<lparr>cnCumulativeAcks := cnCumulativeAcks x + 1\<rparr>
        else if frOpcode f \<in> {AckTCPRetranRange, AckUDPRetranRange, AckTCPRetranOne, AckUDPRetranOne}
          then x\<lparr>cnRetransmitRequests := cnRetransmitRequests x + 1\<rparr>
        else x
      else if frType f = TypeTCPDown then x\<lparr>cnTCPDownFrames := cnTCPDownFrames x + 1\<rparr>
      else if frType f = TypeUDP then x\<lparr>cnUDPDownFrames := cnUDPDownFrames x + 1\<rparr>
      else x\<lparr>cnUnknown := cnUnknown x + 1\<rparr>)"

definition framesCap :: nat where "framesCap = 1024"

definition deliver :: "instant \<Rightarrow> WanLeg \<Rightarrow> Frame \<Rightarrow> Client \<Rightarrow> Client" where
  "deliver now l f cl =
     (let cl = cl\<lparr>clStats := countFrame f (clStats cl)\<rparr>
      in if length (clFrames cl) < framesCap
         then cl\<lparr>clFrames := clFrames cl @ [\<lparr>rcLeg = l, rcFrame = f, rcAt = now\<rparr>]\<rparr> else cl)"

text \<open>One datagram of \<open>readDatagrams\<close>: \<open>buf[off:n]\<close>.\<close>

function readDatagram :: "instant \<Rightarrow> WanLeg \<Rightarrow> byte list \<Rightarrow> Client \<Rightarrow> Client" where
  "readDatagram now l buf cl =
     (if buf = [] then cl
      else case Decode buf (ccMagic (clCfg cl)) of
          Inl err \<Rightarrow> cl
        | Inr p \<Rightarrow> readDatagram now l (drop (snd p) buf) (deliver now l (fst p) cl))"
  by pat_completeness auto
termination
proof (relation "measure (\<lambda>(now, l, buf, cl). length buf)", goal_cases)
  case (2 now l buf cl p)
  then have "Decode buf (ccMagic (clCfg cl)) = Inr (fst p, snd p)" by simp
  from Decode_consumed [OF this] show ?case by auto
qed simp

declare readDatagram.simps [simp del]

text \<open>\<open>readStream\<close>: \<open>None\<close> would be a loop for ever.\<close>

definition readStream :: "('r, 'e) reader \<Rightarrow> instant \<Rightarrow> WanLeg \<Rightarrow> 'r \<Rightarrow> Client \<Rightarrow> Client option" where
  "readStream read now l r cl =
     map_option (\<lambda>(fs, err, sr).
         let cl = fold (deliver now l) fs cl
         in cl\<lparr>clStats := (clStats cl)\<lparr>cnResyncs := cnResyncs (clStats cl) + of_nat (srResyncs sr)\<rparr>\<rparr>)
       (readLoop read (NewStreamReader (ccMagic (clCfg cl)) False) r)"

fun waitFor :: "(Received \<Rightarrow> bool) \<Rightarrow> Received list \<Rightarrow> Received option" where
  "waitFor pred [] = None"
| "waitFor pred (r # rs) = (if pred r then Some r else waitFor pred rs)"

section \<open>The handshake\<close>

text \<open>\<open>copy(b[0:6], mac)\<close> into zeroed bytes.\<close>

definition handshakeReqBody :: "Client \<Rightarrow> byte list" where
  "handshakeReqBody cl =
     (let mac = take 6 (ccMAC (clCfg cl))
      in mac @ replicate (6 - length mac) 0 @ as4 (tunAddr cl) @ replicate (HandshakeReqLen - 10) 0)"

definition ipChecksum :: "byte list \<Rightarrow> u16" where
  "ipChecksum b = NOT (ucast (foldSum (addWords b 0)))"

definition FakePing :: "addr \<Rightarrow> int \<Rightarrow> byte list" where
  "FakePing src tunnelID =
     (let h1 = [0x45, 0] @ be16 0x54 @ [0, 0, 0, 0] @ [0xff, 1];
          h2 = as4 src @ [8, 8, 8, 8];
          e1 = [8, 0];
          e2 = be16 0x74cf @ be16 (word_of_int tunnelID) @ [0x02, 0x04] @ le32 (word_of_int tunnelID) @ replicate 50 0xa5
      in h1 @ be16 (ipChecksum (h1 @ [0, 0] @ h2)) @ h2 @ e1 @ be16 (ipChecksum (e1 @ [0, 0] @ e2)) @ e2)"

text \<open>The two sending loops of \<open>Handshake\<close>: frame \<open>g i\<close> on leg number \<open>i\<close>, up to the first failure.\<close>

fun sendEach :: "(nat \<Rightarrow> bool) \<Rightarrow> (nat \<Rightarrow> Frame) \<Rightarrow> nat \<Rightarrow> WanLeg list \<Rightarrow> Client \<Rightarrow> client_error option \<times> Client" where
  "sendEach ok g i [] cl = (None, cl)"
| "sendEach ok g i (l # ls) cl =
     (case clientSend ok l (g i) cl of
        (Some err, cl) \<Rightarrow> (Some err, cl)
      | (None, cl) \<Rightarrow> sendEach ok g (i + 1) ls cl)"

definition isServerAck :: "Received \<Rightarrow> bool" where
  "isServerAck r \<longleftrightarrow> frType (rcFrame r) = TypeHandshake \<and> frOpcode (rcFrame r) = HSServerAck"

definition Handshake :: "(nat \<Rightarrow> bool) \<Rightarrow> Received list \<Rightarrow> Client \<Rightarrow> client_error option \<times> Client" where
  "Handshake ok incoming cl =
     (let legs = Legs ''tcp'' cl in
      if legs = [] then (Some NoTCPLegs, cl)
      else case sendEach ok (\<lambda>_. upFrame TypeHandshake HSReqWithConfig (handshakeReqBody cl)) 0 legs cl of
          (Some err, cl) \<Rightarrow> (Some err, cl)
        | (None, cl) \<Rightarrow>
            (case waitFor isServerAck incoming of
               None \<Rightarrow> (Some TimedOut, cl)
             | Some r \<Rightarrow>
                 sendEach ok (\<lambda>i. upFrame TypeHandshake HSConfirmAck (FakePing (tunAddr cl) (int i))) 0 legs cl))"

definition Keepalive :: "(nat \<Rightarrow> bool) \<Rightarrow> WanLeg \<Rightarrow> Client \<Rightarrow> client_error option \<times> Client" where
  "Keepalive ok l cl =
     clientSend ok l (upFrame TypeHandshake HSKeepalive (FakePing (tunAddr cl) (int (wlIndex l)))) cl"

section \<open>Round-trip probes\<close>

definition rttAnswers :: "u32 \<Rightarrow> Received \<Rightarrow> bool" where
  "rttAnswers seq r =
     (if frType (rcFrame r) \<noteq> TypeHandshake \<or> frOpcode (rcFrame r) \<noteq> HSRTTSyncAck then False
      else case ParseRTTBody (frBody (rcFrame r)) of Inl err \<Rightarrow> False | Inr got \<Rightarrow> rbSeq got = seq)"

text \<open>
  \<open>sent\<close> and \<open>finish\<close> are the two readings of the clock. The second parse repeats one that
  succeeded; on failure the code would go on with zero values.
\<close>

definition zeroRTT :: RTTBody where
  "zeroRTT = \<lparr>rbSeq = 0, rbClientMS = 0, rbServerMS = 0, rbTrailer = [0, 0, 0, 0, 0]\<rparr>"

definition RTTSync :: "(nat \<Rightarrow> bool) \<Rightarrow> instant \<Rightarrow> instant \<Rightarrow> Received list \<Rightarrow> WanLeg \<Rightarrow> u32 \<Rightarrow> Client
    \<Rightarrow> (client_error + duration) \<times> Client" where
  "RTTSync ok sent finish incoming l seq cl =
     (let body = \<lparr>rbSeq = seq, rbClientMS = word_of_int (UnixMilli sent), rbServerMS = 0,
                  rbTrailer = [0x04, 0x01, 0x01, 0x00, 0x00]\<rparr>
      in case clientSend ok l (upFrame TypeHandshake HSRTTSync (rttAppendTo body [])) cl of
           (Some err, cl) \<Rightarrow> (Inl err, cl)
         | (None, cl) \<Rightarrow>
             (case waitFor (rttAnswers seq) incoming of
                None \<Rightarrow> (Inl TimedOut, cl)
              | Some r \<Rightarrow>
                  let got = (case ParseRTTBody (frBody (rcFrame r)) of Inl err \<Rightarrow> zeroRTT | Inr got \<Rightarrow> got)
                  in if rbClientMS got \<noteq> rbClientMS body then (Inl TimestampAltered, cl)
                     else if rbServerMS got = 0 then (Inl NoServerTimestamp, cl)
                     else (Inr (timeSub finish sent),
                           snd (clientSend ok l (upFrame TypeHandshake HSRTTAck (frBody (rcFrame r))) cl))))"

section \<open>Flows\<close>

text \<open>A \<open>*Flow\<close> is its addresses; its client is the state argument.\<close>

definition NextTCPSeq :: "Client \<Rightarrow> u32 \<times> Client" where
  "NextTCPSeq cl = (clTcpSeq cl, cl\<lparr>clTcpSeq := clTcpSeq cl + 1\<rparr>)"

definition flowSend :: "(nat \<Rightarrow> bool) \<Rightarrow> Flow \<Rightarrow> u32 \<Rightarrow> u16 \<Rightarrow> byte list \<Rightarrow> int \<Rightarrow> Client \<Rightarrow> client_error option \<times> Client" where
  "flowSend ok flow seq opc data legIndex cl =
     (let legs = Legs ''tcp'' cl in
      if legs = [] then (Some NoTCPLegs, cl)
      else let leg = (if legIndex \<ge> 0 \<and> legIndex < int (length legs) then legs ! nat legIndex
                      else legs ! (unat seq mod length legs));
               body = \<lparr>tbSeq = seq, tbOpcode = opc, tbSrc = flClient flow, tbDst = flServer flow, tbData = data\<rparr>
           in clientSend ok leg (upFrame TypeTCPUp 0 (tcpAppendTo body [])) cl)"

definition OpenFlow :: "(nat \<Rightarrow> bool) \<Rightarrow> AddrPort \<Rightarrow> AddrPort \<Rightarrow> Client \<Rightarrow> Flow \<times> client_error option \<times> Client" where
  "OpenFlow ok client server cl =
     (case NextTCPSeq cl of
        (seq, cl) \<Rightarrow> (Flow client server, flowSend ok (Flow client server) seq TCPConnect [] 0 cl))"

definition flowWrite :: "(nat \<Rightarrow> bool) \<Rightarrow> Flow \<Rightarrow> byte list \<Rightarrow> int \<Rightarrow> Client \<Rightarrow> client_error option \<times> Client" where
  "flowWrite ok flow b legIndex cl =
     (case NextTCPSeq cl of (seq, cl) \<Rightarrow> flowSend ok flow seq TCPPayload b legIndex cl)"

definition WriteAt :: "(nat \<Rightarrow> bool) \<Rightarrow> Flow \<Rightarrow> u32 \<Rightarrow> byte list \<Rightarrow> int \<Rightarrow> Client \<Rightarrow> client_error option \<times> Client" where
  "WriteAt ok flow seq b legIndex cl = flowSend ok flow seq TCPPayload b legIndex cl"

definition flowClose :: "(nat \<Rightarrow> bool) \<Rightarrow> Flow \<Rightarrow> Client \<Rightarrow> client_error option \<times> Client" where
  "flowClose ok flow cl =
     (case NextTCPSeq cl of (seq, cl) \<Rightarrow> flowSend ok flow seq TCPDisconnect [] 0 cl)"

section \<open>Collecting a download\<close>

text \<open>
  \<open>assemble\<close>: the range loop over the map is \<open>Reorder.lowestLoop\<close>, started at the largest
  number; the second loop counts up until a number is missing, which it never is when all
  \<open>2 ^ 32\<close> are held.
\<close>

definition lowestHeld :: "(u32 \<times> byte list) list \<Rightarrow> u32" where
  "lowestHeld frames = fst (lowestLoop (map fst frames) (- 1) True)"

partial_function (option) joinFrom :: "(u32 \<times> byte list) list \<Rightarrow> u32 \<Rightarrow> byte list \<Rightarrow> byte list option" where
  "joinFrom frames s out =
     (case map_of frames s of
        None \<Rightarrow> Some out
      | Some chunk \<Rightarrow> joinFrom frames (s + 1) (out @ chunk))"

definition assemble :: "(u32 \<times> byte list) list \<Rightarrow> byte list option" where
  "assemble frames = (if frames = [] then Some [] else joinFrom frames (lowestHeld frames) [])"

text \<open>What one received frame says about a flow, if anything.\<close>

definition flowBody :: "Flow \<Rightarrow> Received \<Rightarrow> TCPBody option" where
  "flowBody flow r =
     (if frType (rcFrame r) \<noteq> TypeTCPDown then None
      else case ParseTCPBody (frBody (rcFrame r)) of
          Inl err \<Rightarrow> None
        | Inr b \<Rightarrow> if Flow (tbDst b) (tbSrc b) \<noteq> flow then None else Some b)"

text \<open>
  The receiving loop: what was collected and how the call ended. \<open>done\<close> is the optional
  callback; an outer \<open>None\<close> is a call that does not return.
\<close>

fun collect :: "Flow \<Rightarrow> (byte list \<Rightarrow> bool) option \<Rightarrow> Received list \<Rightarrow> (u32 \<times> byte list) list \<Rightarrow> bool
    \<Rightarrow> (byte list \<times> client_error option) option" where
  "collect flow stop [] frames closed =
     Option.bind (assemble frames) (\<lambda>out.
       Some (out, case stop of
                    None \<Rightarrow> None
                  | Some d \<Rightarrow> if d out then None else Some (FlowTimeout (length frames) (length out))))"
| "collect flow stop (r # rs) frames closed =
     (let next = (\<lambda>frames closed.
            Option.bind (assemble frames) (\<lambda>out.
              if (case stop of None \<Rightarrow> False | Some d \<Rightarrow> d out) then Some (out, None)
              else if closed \<and> stop = None then Some (out, None)
              else collect flow stop rs frames closed))
      in case flowBody flow r of
           None \<Rightarrow> collect flow stop rs frames closed
         | Some b \<Rightarrow>
             if tbOpcode b = TCPPayload then next (AList.update (tbSeq b) (tbData b) frames) closed
             else if tbOpcode b = TCPDisconnect then next (AList.update (tbSeq b) [] frames) True
             else collect flow stop rs frames closed)"

definition CollectFlowData :: "Flow \<Rightarrow> (byte list \<Rightarrow> bool) option \<Rightarrow> Received list \<Rightarrow> (byte list \<times> client_error option) option" where
  "CollectFlowData flow stop incoming = collect flow stop incoming [] False"

text \<open>\<open>CountFlowData\<close>: the numbers seen, the total, and whether the flow was closed.\<close>

fun countLoop :: "Flow \<Rightarrow> int \<Rightarrow> Received list \<Rightarrow> u32 list \<Rightarrow> int \<Rightarrow> bool \<Rightarrow> int \<times> client_error option" where
  "countLoop flow wanted [] seen got closed =
     (got, Some (if closed then FlowClosedEarly got else TimedOut))"
| "countLoop flow wanted (r # rs) seen got closed =
     (case flowBody flow r of
        None \<Rightarrow> countLoop flow wanted rs seen got closed
      | Some b \<Rightarrow>
          if tbOpcode b = TCPPayload then
            if tbSeq b \<in> set seen then countLoop flow wanted rs seen got closed
            else let got = got + int (length (tbData b))
                 in if got \<ge> wanted then (got, None)
                    else countLoop flow wanted rs (tbSeq b # seen) got closed
          else if tbOpcode b = TCPDisconnect then countLoop flow wanted rs seen got True
          else countLoop flow wanted rs seen got closed)"

definition CountFlowData :: "Flow \<Rightarrow> int \<Rightarrow> Received list \<Rightarrow> int \<times> client_error option" where
  "CountFlowData flow wanted incoming =
     (if wanted \<le> 0 then (0, Some NotPositive) else countLoop flow wanted incoming [] 0 False)"

definition clientClose :: "Client \<Rightarrow> WanLeg list \<times> Client" where
  "clientClose cl = (if clClosed cl then [] else Legs '''' cl, cl\<lparr>clClosed := True\<rparr>)"

end
