(* ===== verification/Client_Runs.thy ===== *)
theory Client_Runs
  imports Client Session_Streams
begin

text \<open>
  Client and session put together: a handshake completes, a round-trip probe passes and
  gives both ends a measurement, an upload arrives at the upstream socket, a download is
  reassembled from any order of arrival; and where the client's collector gives up too
  early. What one end writes reaches the other through \<open>receive\<close>, the frame codec of the
  receiving end.
\<close>

section \<open>What the client writes\<close>

definition ready :: "Client \<Rightarrow> Config \<Rightarrow> bool" where
  "ready cl c \<longleftrightarrow> Legs ''tcp'' cl \<noteq> [] \<and> effMagic (ccMagic (clCfg cl)) = effMagic (cfMagic c)"

text \<open>The bytes of a frame after \<open>Send\<close> has stamped it, and what the server makes of them.\<close>

definition clientBytes :: "Client \<Rightarrow> Frame \<Rightarrow> byte list" where
  "clientBytes cl f = Encode (f\<lparr>frMagic := ccMagic (clCfg cl), frIcgID := tunIPWord (icgAddr cl)\<rparr>)"

lemma clientSend_ok:
  "clientSend (\<lambda>_. True) l f cl = (None, cl\<lparr>clAsked := clAsked cl + 1, clSent := clSent cl @ [(l, clientBytes cl f)]\<rparr>)"
  by (simp add: clientSend_def clientBytes_def askedOnce_def)

lemma clientBytes_cong: "clCfg cl' = clCfg cl \<Longrightarrow> clientBytes cl' f = clientBytes cl f"
  by (simp add: clientBytes_def icgAddr_def)

lemma receive_clientBytes:
  assumes "effMagic (ccMagic (clCfg cl)) = effMagic m" and "length (frBody f) \<le> 8182"
  shows "receive m (clientBytes cl f) = Some (f\<lparr>frMagic := effMagic m, frIcgID := tunIPWord (icgAddr cl)\<rparr>)"
  using receive_Encode [of "f\<lparr>frMagic := ccMagic (clCfg cl), frIcgID := tunIPWord (icgAddr cl)\<rparr>" m] assms
  by (simp add: clientBytes_def)

lemma receive_cong: "effMagic m = effMagic m' \<Longrightarrow> receive m b = receive m' b"
  by (simp add: receive_def Decode_def)

section \<open>Uploads\<close>

text \<open>The writes of one flow, one after the other: data and leg index of each.\<close>

definition writeAll :: "(nat \<Rightarrow> bool) \<Rightarrow> Flow \<Rightarrow> (byte list \<times> int) list \<Rightarrow> Client \<Rightarrow> Client" where
  "writeAll ok flow ws cl = fold (\<lambda>(d, i) cl. snd (flowWrite ok flow d i cl)) ws cl"

definition upBody :: "u32 \<Rightarrow> Flow \<Rightarrow> byte list \<Rightarrow> TCPBody" where
  "upBody q flow d = \<lparr>tbSeq = q, tbOpcode = TCPPayload, tbSrc = flClient flow, tbDst = flServer flow, tbData = d\<rparr>"

lemma flowSend_ok:
  assumes "Legs ''tcp'' cl \<noteq> []"
  shows "\<exists>l \<in> set (Legs ''tcp'' cl). flowSend (\<lambda>_. True) flow q opc d i cl =
    (None, cl\<lparr>clAsked := clAsked cl + 1, clSent := clSent cl @ [(l, clientBytes cl (upFrame TypeTCPUp 0
       (tcpAppendTo \<lparr>tbSeq = q, tbOpcode = opc, tbSrc = flClient flow, tbDst = flServer flow, tbData = d\<rparr> [])))]\<rparr>)"
proof -
  let ?legs = "Legs ''tcp'' cl"
  define l where "l = (if i \<ge> 0 \<and> i < int (length ?legs) then ?legs ! nat i else ?legs ! (unat q mod length ?legs))"
  have "l \<in> set ?legs" using assms by (auto simp: l_def intro!: nth_mem)
  moreover have "flowSend (\<lambda>_. True) flow q opc d i cl = clientSend (\<lambda>_. True) l (upFrame TypeTCPUp 0
       (tcpAppendTo \<lparr>tbSeq = q, tbOpcode = opc, tbSrc = flClient flow, tbDst = flServer flow, tbData = d\<rparr> [])) cl"
    using assms by (simp only: flowSend_def Let_def l_def if_False)
  ultimately show ?thesis unfolding clientSend_ok by blast
qed

lemma flowWrite_ok:
  assumes "Legs ''tcp'' cl \<noteq> []"
  shows "\<exists>l \<in> set (Legs ''tcp'' cl). snd (flowWrite (\<lambda>_. True) flow d i cl) =
    cl\<lparr>clTcpSeq := clTcpSeq cl + 1, clAsked := clAsked cl + 1,
       clSent := clSent cl @ [(l, clientBytes cl (upFrame TypeTCPUp 0 (tcpAppendTo (upBody (clTcpSeq cl) flow d) [])))]\<rparr>"
proof -
  let ?cl = "cl\<lparr>clTcpSeq := clTcpSeq cl + 1\<rparr>"
  have l: "Legs ''tcp'' ?cl = Legs ''tcp'' cl" by (simp add: Legs_def)
  have b: "clientBytes ?cl = clientBytes cl" by (simp add: fun_eq_iff clientBytes_def icgAddr_def)
  have w: "flowWrite (\<lambda>_. True) flow d i cl = flowSend (\<lambda>_. True) flow (clTcpSeq cl) TCPPayload d i ?cl"
    unfolding flowWrite_def NextTCPSeq_def by (simp only: prod.case)
  obtain k where k: "k \<in> set (Legs ''tcp'' cl)" and f: "flowSend (\<lambda>_. True) flow (clTcpSeq cl) TCPPayload d i ?cl =
      (None, ?cl\<lparr>clAsked := clAsked ?cl + 1, clSent := clSent ?cl @ [(k, clientBytes cl (upFrame TypeTCPUp 0
        (tcpAppendTo (upBody (clTcpSeq cl) flow d) [])))]\<rparr>)"
    using flowSend_ok [of ?cl flow "clTcpSeq cl" TCPPayload d i] assms unfolding l b upBody_def by blast
  show ?thesis unfolding w f by (rule bexI [OF _ k]) simp
qed

lemma writeAll_sent:
  assumes "Legs ''tcp'' cl \<noteq> []"
  shows "\<exists>sent. clSent (writeAll (\<lambda>_. True) flow ws cl) = clSent cl @ sent \<and> length sent = length ws
    \<and> (\<forall>k < length ws. fst (sent ! k) \<in> set (Legs ''tcp'' cl) \<and> snd (sent ! k) =
        clientBytes cl (upFrame TypeTCPUp 0 (tcpAppendTo (upBody (clTcpSeq cl + of_nat k) flow (fst (ws ! k))) [])))"
  using assms
proof (induction ws arbitrary: cl)
  case Nil
  then show ?case by (simp add: writeAll_def)
next
  case (Cons w ws)
  obtain d i where w: "w = (d, i)" by (cases w)
  let ?b = "\<lambda>q d. clientBytes cl (upFrame TypeTCPUp 0 (tcpAppendTo (upBody q flow d) []))"
  obtain l where l: "l \<in> set (Legs ''tcp'' cl)" and eq: "snd (flowWrite (\<lambda>_. True) flow d i cl) =
      cl\<lparr>clTcpSeq := clTcpSeq cl + 1, clAsked := clAsked cl + 1, clSent := clSent cl @ [(l, ?b (clTcpSeq cl) d)]\<rparr>"
    using flowWrite_ok [OF Cons.prems] by blast
  define cl1 where "cl1 = snd (flowWrite (\<lambda>_. True) flow d i cl)"
  have c: "Legs ''tcp'' cl1 = Legs ''tcp'' cl" "clCfg cl1 = clCfg cl" "clTcpSeq cl1 = clTcpSeq cl + 1"
      "clSent cl1 = clSent cl @ [(l, ?b (clTcpSeq cl) d)]"
    unfolding cl1_def eq by (simp_all add: Legs_def)
  have W: "writeAll (\<lambda>_. True) flow (w # ws) cl = writeAll (\<lambda>_. True) flow ws cl1"
    by (simp add: writeAll_def w cl1_def)
  have ne: "Legs ''tcp'' cl1 \<noteq> []" using Cons.prems c(1) by simp
  obtain sent where s: "clSent (writeAll (\<lambda>_. True) flow ws cl1) = clSent cl1 @ sent" "length sent = length ws"
      and n: "\<And>k. k < length ws \<Longrightarrow> fst (sent ! k) \<in> set (Legs ''tcp'' cl) \<and> snd (sent ! k) = ?b (clTcpSeq cl + 1 + of_nat k) (fst (ws ! k))"
    using Cons.IH [OF ne] unfolding c(1,3) clientBytes_cong [OF c(2)] by blast
  have "fst (((l, ?b (clTcpSeq cl) d) # sent) ! k) \<in> set (Legs ''tcp'' cl)
      \<and> snd (((l, ?b (clTcpSeq cl) d) # sent) ! k) = ?b (clTcpSeq cl + of_nat k) (fst ((w # ws) ! k))"
    if "k < length (w # ws)" for k
  proof (cases k)
    case 0
    then show ?thesis using l by (simp add: w)
  next
    case (Suc j)
    have "clTcpSeq cl + 1 + of_nat j = clTcpSeq cl + of_nat (Suc j)" by simp
    then show ?thesis using n [of j] that Suc by (simp only: nth_Cons_Suc) simp
  qed
  then show ?case
    by (intro exI [of _ "(l, ?b (clTcpSeq cl) d) # sent"]) (simp only: W s c(4), simp add: s(2))
qed

text \<open>Frame \<open>k\<close> of what was sent arrives at the server, on some leg at some time.\<close>

definition arrival :: "u32 \<Rightarrow> (WanLeg \<times> byte list) list \<Rightarrow> nat \<times> instant \<times> nat \<Rightarrow> event" where
  "arrival m sent item =
     (case item of (k, now, l) \<Rightarrow> EvFrame \<lparr>inLeg = l, inFrame = the (receive m (snd (sent ! k))), inAt = now\<rparr>)"

lemma arrival_segment:
  assumes "receive m (snd (sent ! k)) = Some ((upFrame TypeTCPUp 0 (tcpAppendTo (upBody (q + of_nat k) flow (data k)) []))
      \<lparr>frMagic := x, frIcgID := y\<rparr>)"
  shows "sessionStep c e (arrival m sent (k, now, l)) s = sessionStep c e (upSegment q flow data (k, now, l)) s"
  using assms
  by (simp add: arrival_def upSegment_def upFrame_def mkFrame_def upBody_def handleFrame_def handleTCPUp_def
      ParseTCPBody_append Let_def)

lemma fold_outcome_cong:
  "(\<And>x s. x \<in> set xs \<Longrightarrow> step (g x) s = step (h x) s) \<Longrightarrow> fold_outcome step (map g xs) s = fold_outcome step (map h xs) s"
proof (induction xs arbitrary: s)
  case (Cons x xs)
  then show ?case by (cases "step (h x) s") simp_all
qed simp

text \<open>
  C1: an upload arrives. What the client writes to a flow, piece by piece and over any of
  its legs, reaches the upstream socket byte for byte: however the network reorders, repeats
  and spreads the frames, up to the reassembler's window, the session queues the pieces in
  the order written, each once, up to the first that never arrives.
\<close>

theorem upload_arrives:
  assumes "Legs ''tcp'' cl \<noteq> []" and "effMagic (ccMagic (clCfg cl)) = effMagic (cfMagic c)"
    and "list_all (\<lambda>(d, i). length d \<le> 8164) ws" and "clTcpSeq cl = rNext (seUpTCP s)"
    and "rStarted (seUpTCP s)" and "rPend (seUpTCP s) = []"
    and "0 \<le> rMaxPend (seUpTCP s)" and "rMaxPend (seUpTCP s) < 2 ^ 31"
    and "displaced (nat (rMaxPend (seUpTCP s))) (map fst items)" and "list_all (\<lambda>(k, now, l). k < length ws) items"
    and "map_of (seFlows s) flow = Some fid"
  shows "\<exists>sent s'. clSent (writeAll (\<lambda>_. True) flow ws cl) = clSent cl @ sent
    \<and> run c e (map (arrival (cfMagic c) sent) items) s = Ret s'
    \<and> seOut s' = seOut s @ map (FlowEnqueue fid) (filter (\<lambda>d. d \<noteq> []) (map fst (take (prefix_len (map fst items)) ws)))"
proof -
  let ?q = "rNext (seUpTCP s)" and ?n = "prefix_len (map fst items)" and ?data = "\<lambda>k. fst (ws ! k)"
  obtain sent where sent: "clSent (writeAll (\<lambda>_. True) flow ws cl) = clSent cl @ sent"
      and n: "\<And>k. k < length ws \<Longrightarrow> snd (sent ! k) =
        clientBytes cl (upFrame TypeTCPUp 0 (tcpAppendTo (upBody (?q + of_nat k) flow (?data k)) []))"
    using writeAll_sent [OF assms(1), of flow ws] unfolding assms(4) by blast
  have "sessionStep c e (arrival (cfMagic c) sent x) s' = sessionStep c e (upSegment ?q flow ?data x) s'"
    if "x \<in> set items" for x s'
  proof -
    obtain k now l where x: "x = (k, now, l)" by (cases x)
    then have k: "k < length ws" using that assms(10) by (auto simp: list_all_iff)
    then have "length (?data k) \<le> 8164" using assms(3) by (simp add: list_all_length case_prod_unfold)
    then have "length (frBody (upFrame TypeTCPUp 0 (tcpAppendTo (upBody (?q + of_nat k) flow (?data k)) []))) \<le> 8182"
      by (simp add: upFrame_def length_tcpAppendTo upBody_def)
    from receive_clientBytes [OF assms(2) this] n [OF k] show ?thesis
      unfolding x by (intro arrival_segment) simp
  qed
  then have "run c e (map (arrival (cfMagic c) sent) items) s = run c e (map (upSegment ?q flow ?data) items) s"
    unfolding run_def by (rule fold_outcome_cong)
  moreover have "set (map fst items) \<subseteq> {..<length ws}" using assms(10) by (auto simp: list_all_iff)
  then have le: "?n \<le> length ws" using prefix_len_in [of "length ws" "map fst items"] by (meson lessThan_iff linorder_not_le order_less_irrefl subsetD)
  have "map ?data [0..<?n] = map fst (take ?n ws)"
    using le by (intro nth_equalityI) simp_all
  ultimately show ?thesis
    using uplink_stream_intact [OF assms(5-9,11), of c e ?data] sent by auto
qed

text \<open>A client on one TCP leg, for the concrete checks.\<close>

definition exClient :: Client where
  "exClient = addLeg \<lparr>wlIndex = 0, wlKind = ''tcp'', wlConn = TCPEndpoint ''127.0.0.1:10088''\<rparr>
     (newClient \<lparr>ccTCPAddr = ''127.0.0.1:10088'', ccUDPAddr = [], ccTCPLegs = 1, ccUDPLegs = 0, ccIcgID = None,
        ccClientTunIP = None, ccMAC = [], ccMagic = 0\<rparr>)"

lemma exClient_facts:
  "Legs ''tcp'' exClient = [\<lparr>wlIndex = 0, wlKind = ''tcp'', wlConn = TCPEndpoint ''127.0.0.1:10088''\<rparr>]"
  "ccMagic (clCfg exClient) = DefaultMagic" "clTcpSeq exClient = 0" "clSent exClient = []"
  "ccMAC (clCfg exClient) = [0x02, 0x00, 0x5e, 0x10, 0x00, 0x01]" "effMagic DefaultMagic = 0x12345678" "effMagic 0x12345678 = 0x12345678"
  by (simp_all add: exClient_def newClient_def clientDefaults_def addLeg_def Legs_def DefaultMagic_def effMagic_def Let_def)

lemma upload_arrives_witness:
  "\<exists>sent s'. clSent (writeAll (\<lambda>_. True) exFlow [([1, 2], 0), ([3], -1)] exClient) = sent
     \<and> run exConfig exEnv (map (arrival 0x12345678 sent) [(1, 9, 0), (0, 10, 0)])
         (exSession\<lparr>seUpTCP := (seUpTCP exSession)\<lparr>rStarted := True\<rparr>, seFlows := [(exFlow, 4)]\<rparr>) = Ret s'
     \<and> seOut s' = [FlowEnqueue 4 [1, 2], FlowEnqueue 4 [3]]"
proof -
  let ?s = "exSession\<lparr>seUpTCP := (seUpTCP exSession)\<lparr>rStarted := True\<rparr>, seFlows := [(exFlow, 4)]\<rparr>"
  let ?items = "[(1, 9, 0), (0, 10, 0)] :: (nat \<times> instant \<times> nat) list"
  have p: "prefix_len (map fst ?items) = 2" by (simp add: prefix_len_def upt_rec)
  have m: "rMaxPend (seUpTCP exSession) = 4096" "rPend (seUpTCP exSession) = []" "rNext (seUpTCP exSession) = 0" "seOut exSession = []"
    by (simp_all add: exSession_def newSession_def NewReorder_def exConfig_def)
  have d: "displaced (nat 4096) (map fst ?items)" by (simp add: displaced_def prefix_len_def upt_rec)
  show ?thesis
    using upload_arrives [of exClient exConfig "[([1, 2], 0), ([3], -1)]" ?s ?items exFlow 4 exEnv, unfolded p] d
    by (simp add: m exClient_facts exConfig_def)
qed

section \<open>Collecting\<close>

lemma joinFrom_run:
  assumes "\<And>i. i < n \<Longrightarrow> map_of frames (s + of_nat i) = Some (d i)" and "map_of frames (s + of_nat n) = None"
  shows "joinFrom frames s out = Some (out @ concat (map d [0..<n]))"
  using assms
proof (induction n arbitrary: s d out)
  case 0
  then show ?case by (subst joinFrom.simps) simp
next
  case (Suc n)
  have z: "map_of frames s = Some (d 0)" using Suc.prems(1) [of 0] by simp
  have "joinFrom frames (s + 1) (out @ d 0) = Some ((out @ d 0) @ concat (map (\<lambda>i. d (Suc i)) [0..<n]))"
  proof (rule Suc.IH)
    fix i assume "i < n"
    then show "map_of frames (s + 1 + of_nat i) = Some (d (Suc i))" using Suc.prems(1) [of "Suc i"] by (simp add: add.assoc)
  qed (use Suc.prems(2) in \<open>simp add: add.assoc\<close>)
  moreover have "[0..<Suc n] = 0 # map Suc [0..<n]" by (simp add: map_Suc_upt upt_conv_Cons del: upt_Suc)
  ultimately show ?case using z by (subst joinFrom.simps) (simp add: comp_def del: upt_Suc)
qed

lemma joinFrom_stops: "joinFrom frames s out = Some r \<Longrightarrow> \<exists>q. map_of frames q = None"
  by (erule joinFrom.raw_induct [of "\<lambda>frames s out r. \<exists>q. map_of frames q = None", rotated])
    (auto split: option.splits)

lemma joinFrom_returns:
  assumes "map_of frames q = None"
  shows "\<exists>out'. joinFrom frames s out = Some out'"
proof -
  let ?P = "\<lambda>n. map_of frames (s + of_nat n) = None"
  have "s + of_nat (unat (q - s)) = q" by simp
  then have "?P (unat (q - s))" using assms by simp
  then have "?P (LEAST n. ?P n)" by (rule LeastI)
  moreover have "\<And>i. i < (LEAST n. ?P n) \<Longrightarrow> map_of frames (s + of_nat i) = Some (the (map_of frames (s + of_nat i)))"
    using not_less_Least [of _ ?P] by (metis option.collapse)
  ultimately show ?thesis using joinFrom_run [where d = "\<lambda>i. the (map_of frames (s + of_nat i))"] by meson
qed

text \<open>The collector holds the pieces \<open>d k\<close>, \<open>k\<close> in \<open>K\<close>, of a stream that starts at number \<open>q\<close>.\<close>

definition holds :: "(u32 \<times> byte list) list \<Rightarrow> u32 \<Rightarrow> (nat \<Rightarrow> byte list) \<Rightarrow> nat set \<Rightarrow> bool" where
  "holds frames q d K \<longleftrightarrow> (\<forall>k < 2 ^ 32. map_of frames (q + of_nat k) = (if k \<in> K then Some (d k) else None))"

lemma key_index: "\<exists>k < 2 ^ 32. x = q + of_nat k" for x q :: u32
  by (rule exI [of _ "unat (x - q)"]) (use unat_u32 [of "x - q"] in simp)

lemma holds_update:
  assumes "holds frames q d K" and "n < 2 ^ 31"
  shows "holds (AList.update (q + of_nat n) (d n) frames) q d (insert n K)"
  using assms by (auto simp: holds_def word_of_nat_eq_iff take_bit_nat_eq_self)

lemma diff_ahead: "k < 2 ^ 31 \<Longrightarrow> diff (q + of_nat k) q = int k"
  using diff_of_int [of "int k" 0 q] by simp

lemma holds_keys:
  assumes "holds frames q d K" and "K \<subseteq> {..<2 ^ 31}" and "x \<in> fst ` set frames"
  shows "\<exists>k \<in> K. x = q + of_nat k \<and> diff x q = int k"
proof -
  obtain k where k: "k < 2 ^ 32" "x = q + of_nat k" using key_index by blast
  have "map_of frames x \<noteq> None" using assms(3) by (simp add: lookup_None_iff)
  then have K: "k \<in> K" using assms(1) k by (auto simp: holds_def split: if_splits)
  then have "k < 2 ^ 31" using assms(2) by auto
  from diff_ahead [OF this] k(2) K show ?thesis by blast
qed

lemma lowestHeld_least:
  assumes "holds frames q d K" and "K \<subseteq> {..<2 ^ 31}" and "frames \<noteq> []"
  shows "\<exists>m \<in> K. lowestHeld frames = q + of_nat m \<and> (\<forall>k \<in> K. m \<le> k)"
proof -
  obtain p ps where f: "frames = p # ps" using assms(3) by (cases frames) auto
  obtain b st where l: "lowestLoop (map fst ps) (fst p) False = (b, st)" by (metis surj_pair)
  then have b: "lowestHeld frames = b" by (simp add: lowestHeld_def f)
  have "b \<in> fst ` set frames" using lowestLoop_result [OF l] by (auto simp: f)
  from holds_keys [OF assms(1,2) this] obtain m where m: "m \<in> K" "b = q + of_nat m" "diff b q = int m" by blast
  have "\<forall>s \<in> insert (fst p) (set (map fst ps)). 0 \<le> diff s q"
  proof
    fix s assume "s \<in> insert (fst p) (set (map fst ps))"
    then have "s \<in> fst ` set frames" by (auto simp: f)
    from holds_keys [OF assms(1,2) this] show "0 \<le> diff s q" by auto
  qed
  from lowestLoop_least [OF this l] have least: "\<And>s. s \<in> fst ` set frames \<Longrightarrow> diff b q \<le> diff s q" by (auto simp: f)
  have "m \<le> k" if "k \<in> K" for k
  proof -
    have k: "k < 2 ^ 31" using that assms(2) by auto
    then have "map_of frames (q + of_nat k) = Some (d k)" using that assms(1) by (simp add: holds_def)
    then have "q + of_nat k \<in> fst ` set frames" using lookup_None_iff [of frames "q + of_nat k"] by fastforce
    then show ?thesis using least [of "q + of_nat k"] m(3) diff_ahead [OF k, of q] by simp
  qed
  with m(1,2) b show ?thesis by blast
qed

text \<open>What is joined: the pieces from the first one held up to the first one missing.\<close>

lemma assemble_holds:
  assumes "holds frames q d K" and "K \<subseteq> {..<N}" and "N \<le> 2 ^ 31"
  shows "\<exists>m p. m \<le> p \<and> {m..<p} \<subseteq> K \<and> (K = {..<N} \<longrightarrow> m = 0 \<and> p = N) \<and> assemble frames = Some (concat (map d [m..<p]))"
proof (cases "frames = []")
  case True
  have "K = {}"
  proof (rule ccontr)
    assume "K \<noteq> {}"
    then obtain k where k: "k \<in> K" by blast
    then have "k < 2 ^ 32" using assms(2,3) by auto
    then have "map_of frames (q + of_nat k) = Some (d k)" using assms(1) k by (simp add: holds_def)
    then show False using True by simp
  qed
  then show ?thesis using True by (intro exI [of _ 0]) (auto simp: assemble_def)
next
  case False
  have "K \<subseteq> {..<2 ^ 31}" using assms(2,3) by auto
  from lowestHeld_least [OF assms(1) this False] obtain m where
    m: "m \<in> K" "lowestHeld frames = q + of_nat m" "\<And>k. k \<in> K \<Longrightarrow> m \<le> k" by blast
  define n where "n = (LEAST n. m + n \<notin> K)"
  have "m + N \<notin> K" using assms(2) by auto
  then have out: "m + n \<notin> K" and le: "n \<le> N" unfolding n_def by (rule LeastI, rule Least_le)
  have "m < N" using m(1) assms(2) by auto
  have inn: "m + i \<in> K" if "i < n" for i using not_less_Least [of i "\<lambda>n. m + n \<notin> K"] that by (simp add: n_def)
  have nN: "m + n \<le> N"
  proof (cases n)
    case (Suc j)
    then show ?thesis using inn [of j] assms(2) by auto
  qed (use \<open>m < N\<close> in simp)
  have "joinFrom frames (q + of_nat m) [] = Some ([] @ concat (map (\<lambda>i. d (m + i)) [0..<n]))"
  proof (rule joinFrom_run)
    fix i assume "i < n"
    then have "m + i < 2 ^ 32" using nN assms(3) by simp
    then show "map_of frames (q + of_nat m + of_nat i) = Some (d (m + i))"
      using inn [OF \<open>i < n\<close>] assms(1) unfolding holds_def by (metis add.assoc of_nat_add)
  next
    have "m + n < 2 ^ 32" using nN assms(3) by simp
    then show "map_of frames (q + of_nat m + of_nat n) = None"
      using out assms(1) unfolding holds_def by (metis add.assoc of_nat_add)
  qed
  moreover have "map (\<lambda>i. d (m + i)) [0..<n] = map d [m..<m + n]" by (rule nth_equalityI) simp_all
  moreover have "{m..<m + n} \<subseteq> K" using inn by (auto dest!: le_Suc_ex)
  moreover have "m = 0 \<and> m + n = N" if "K = {..<N}"
  proof -
    have "0 \<in> K" using that \<open>m < N\<close> by simp
    then have "m = 0" using m(3) by fastforce
    then show ?thesis using out nN that by simp
  qed
  ultimately show ?thesis using False m(2) by (intro exI [of _ m] exI [of _ "m + n"]) (auto simp: assemble_def)
qed

lemma length_pieces: "length (concat (map d [m..<p])) = (\<Sum>i \<in> {m..<p}. length (d i))"
  by (simp add: length_concat comp_def interv_sum_list_conv_sum_set_nat)

lemma pieces_missing:
  assumes "{m..<p} \<subseteq> K" and "K \<subseteq> {..<N}" and "K \<noteq> {..<N}" and "\<And>k. k < N \<Longrightarrow> d k \<noteq> []"
  shows "length (concat (map d [m..<p])) < length (concat (map d [0..<N]))"
proof -
  obtain k where "k < N" "k \<notin> K" using assms(2,3) by auto
  then have "(\<Sum>i \<in> {m..<p}. length (d i)) < (\<Sum>i \<in> {0..<N}. length (d i))"
    using assms(1,4) subset_trans [OF assms(1,2)]
    by (intro sum_strict_mono2 [where b = k]) (auto simp: lessThan_atLeast0)
  then show ?thesis by (simp only: length_pieces)
qed

text \<open>Frame \<open>r\<close> carries piece \<open>k\<close>.\<close>

definition piece :: "Flow \<Rightarrow> u32 \<Rightarrow> (nat \<Rightarrow> byte list) \<Rightarrow> Received \<Rightarrow> nat \<Rightarrow> bool" where
  "piece flow q d r k \<longleftrightarrow> flowBody flow r = Some (DownBody flow (q + of_nat k) TCPPayload (d k))"

lemma piece_unique:
  assumes "piece flow q d r n" and "piece flow q d r k" and "n < 2 ^ 31" and "k < 2 ^ 31"
  shows "n = k"
proof -
  have "(of_nat n :: u32) = of_nat k" using assms(1,2) by (simp add: piece_def DownBody_def)
  then show ?thesis using assms(3,4) by (simp add: word_of_nat_eq_iff take_bit_nat_eq_self)
qed

lemma collect_complete:
  assumes "N \<le> 2 ^ 31" and "\<And>k. k < N \<Longrightarrow> d k \<noteq> []" and "all = concat (map d [0..<N])"
    and "\<And>r. r \<in> set rs \<Longrightarrow> flowBody flow r = None \<or> (\<exists>k < N. piece flow q d r k)"
    and "\<And>k. k < N \<Longrightarrow> k \<in> K \<or> (\<exists>r \<in> set rs. piece flow q d r k)"
    and "holds frames q d K" and "K \<subseteq> {..<N}"
  shows "collect flow (Some (\<lambda>b. length all \<le> length b)) rs frames closed = Some (all, None)"
  using assms(4-)
proof (induction rs arbitrary: frames K)
  case Nil
  then have K: "K = {..<N}" by auto
  from assemble_holds [OF Nil(3,4) assms(1)] K have "assemble frames = Some all" using assms(3) by auto
  then show ?case by simp
next
  case (Cons r rs)
  show ?case
  proof (cases "flowBody flow r")
    case None
    have "collect flow (Some (\<lambda>b. length all \<le> length b)) rs frames closed = Some (all, None)"
      using Cons.prems None by (intro Cons.IH [of K]) (auto simp: piece_def)
    then show ?thesis by (simp add: None)
  next
    case (Some b)
    then obtain n where n: "n < N" and b: "piece flow q d r n" using Cons.prems(1) [of r] by auto
    let ?frames = "AList.update (q + of_nat n) (d n) frames" and ?K = "insert n K"
    have h: "holds ?frames q d ?K" using Cons.prems(3) n assms(1) by (intro holds_update) auto
    have K: "?K \<subseteq> {..<N}" using Cons.prems(4) n by simp
    from assemble_holds [OF h K assms(1)] obtain m p where
      a: "{m..<p} \<subseteq> ?K" "?K = {..<N} \<Longrightarrow> m = 0 \<and> p = N" "assemble ?frames = Some (concat (map d [m..<p]))" by blast
    have step: "collect flow (Some (\<lambda>b. length all \<le> length b)) (r # rs) frames closed =
        (if length all \<le> length (concat (map d [m..<p])) then Some (concat (map d [m..<p]), None)
         else collect flow (Some (\<lambda>b. length all \<le> length b)) rs ?frames closed)"
      using b a(3) by (simp add: piece_def DownBody_def Let_def)
    show ?thesis
    proof (cases "?K = {..<N}")
      case True
      then show ?thesis using a(2) assms(3) unfolding step by simp
    next
      case False
      have "length (concat (map d [m..<p])) < length all"
        using pieces_missing [OF a(1) K False assms(2)] assms(3) by simp
      moreover have "collect flow (Some (\<lambda>b. length all \<le> length b)) rs ?frames closed = Some (all, None)"
      proof (rule Cons.IH [of ?K])
        fix k assume "k < N"
        then show "k \<in> ?K \<or> (\<exists>r \<in> set rs. piece flow q d r k)"
          using Cons.prems(2) [of k] piece_unique [OF b, of k] n assms(1) by auto
      qed (use Cons.prems(1) h K in simp_all)
      ultimately show ?thesis unfolding step by simp
    qed
  qed
qed

section \<open>Downloads\<close>

lemma length_downFrames [simp]: "length (downFrames c tun flow q ds) = length ds"
  by (induction ds arbitrary: q) simp_all

lemma downFrames_nth:
  "k < length ds \<Longrightarrow> downFrames c tun flow q ds ! k = tcpDownFrame c tun (q + of_nat k) flow TCPPayload (ds ! k)"
proof (induction ds arbitrary: q k)
  case (Cons d ds)
  then show ?case by (cases k) (simp_all add: add.assoc)
qed simp

lemma flowBody_down:
  assumes "receive (cfMagic c) (tcpDownFrame c tun x flow opc data) = Some (rcFrame r)" and "length data \<le> maxChunk"
  shows "flowBody flow r = Some (DownBody flow x opc data)"
proof -
  have "ParseTCPBody (frBody (rcFrame r)) = Inr (DownBody flow x opc data) \<and> frType (rcFrame r) = TypeTCPDown"
    using receiveTCP_down [OF assms(2), of c tun x flow opc] assms(1)
    by (auto simp: receiveTCP_def split: if_splits sum.splits)
  then show ?thesis by (cases flow) (simp add: flowBody_def DownBody_def)
qed

lemma length_segments: "length (segments data) \<le> length data"
proof (induction data rule: segments.induct)
  case (1 data)
  then show ?case by (cases data) (simp_all add: segments.simps [of "[]"] segments.simps [of "_ # _"] maxChunk_def)
qed

lemma receive_downFrame:
  assumes "length data \<le> maxChunk"
  shows "receive (cfMagic c) (tcpDownFrame c tun x flow opc data) \<noteq> None"
  using receiveTCP_down [OF assms, of c tun x flow opc] by (auto simp: receiveTCP_def split: option.splits)

text \<open>
  C2: a download arrives. Data from an upstream socket is written as frames; whatever
  order they reach the client in, on whatever legs, repeated and mixed with frames of other
  kinds and other flows, the client's collector returns exactly the data, without error, when
  asked for that many bytes and given every frame.
\<close>

theorem download_arrives:
  assumes "upIsTCP u" and "\<not> upClosed u" and "s' = handleUpstream c e u s" and "length (upData u) \<le> 2 ^ 31"
  shows "\<exists>frames. seOut s' = seOut s @ downOut ''tcp'' s frames \<and> list_all (\<lambda>b. receive (cfMagic c) b \<noteq> None) frames
    \<and> (\<forall>rs. (\<forall>r \<in> set rs. flowBody (upFlow u) r = None \<or> (\<exists>b \<in> set frames. receive (cfMagic c) b = Some (rcFrame r)))
         \<and> (\<forall>b \<in> set frames. \<exists>r \<in> set rs. receive (cfMagic c) b = Some (rcFrame r))
       \<longrightarrow> CollectFlowData (upFlow u) (Some (\<lambda>b. length (upData u) \<le> length b)) rs = Some (upData u, None))"
proof (intro exI conjI allI impI)
  let ?ds = "segments (upData u)" and ?q = "seDownTCPSeq s" and ?N = "length (segments (upData u))"
  let ?frames = "downFrames c (seTunIP s) (upFlow u) ?q ?ds"
  have "s' = sendChunks c e (upFlow u) (upData u) s" using assms by (simp add: handleUpstream_def)
  then show "seOut s' = seOut s @ downOut ''tcp'' s ?frames" by (simp add: sendChunks_trace)
  have small: "length (?ds ! k) \<le> maxChunk" "?ds ! k \<noteq> []" if "k < ?N" for k using segments_small [OF nth_mem [OF that]] by auto
  have p: "piece (upFlow u) ?q ((!) ?ds) r k" if "k < ?N" "receive (cfMagic c) (?frames ! k) = Some (rcFrame r)" for r k
    using flowBody_down small(1) [OF that(1)] that by (simp add: piece_def downFrames_nth)
  show "list_all (\<lambda>b. receive (cfMagic c) b \<noteq> None) ?frames"
    using receive_downFrame small(1) by (simp add: list_all_length downFrames_nth)
  fix rs
  assume a: "(\<forall>r \<in> set rs. flowBody (upFlow u) r = None \<or> (\<exists>b \<in> set ?frames. receive (cfMagic c) b = Some (rcFrame r)))
    \<and> (\<forall>b \<in> set ?frames. \<exists>r \<in> set rs. receive (cfMagic c) b = Some (rcFrame r))"
  show "CollectFlowData (upFlow u) (Some (\<lambda>b. length (upData u) \<le> length b)) rs = Some (upData u, None)"
    unfolding CollectFlowData_def
  proof (rule collect_complete [where N = ?N and d = "(!) ?ds" and K = "{}" and q = ?q])
    show "?N \<le> 2 ^ 31" using length_segments assms(4) by (rule le_trans)
    show "upData u = concat (map ((!) ?ds) [0..<?N])" by (simp add: map_nth segments_concat)
    show "flowBody (upFlow u) r = None \<or> (\<exists>k < ?N. piece (upFlow u) ?q ((!) ?ds) r k)" if in_rs: "r \<in> set rs" for r
    proof -
      from bspec [OF conjunct1 [OF a] in_rs] show ?thesis
      proof (elim disjE bexE)
        fix b assume "b \<in> set ?frames" "receive (cfMagic c) b = Some (rcFrame r)"
        then show ?thesis using p by (auto simp: in_set_conv_nth)
      qed simp
    qed
    show "k \<in> {} \<or> (\<exists>r \<in> set rs. piece (upFlow u) ?q ((!) ?ds) r k)" if "k < ?N" for k
      using a p [OF that] nth_mem [of k ?frames] that by (metis length_downFrames)
  qed (use small in \<open>simp_all add: holds_def\<close>)
qed

lemma download_arrives_witness:
  "\<exists>frames rs. seOut (handleUpstream exConfig exEnv \<lparr>upFlow = exFlow, upData = replicate 1500 7, upClosed = False,
          upDialFailed = False, upIsTCP = True, upPacket = []\<rparr> exSession) = downOut ''tcp'' exSession frames
     \<and> map (\<lambda>r. Some (rcFrame r)) rs = map (receive 0x12345678) (rev frames)
     \<and> CollectFlowData exFlow (Some (\<lambda>b. 1500 \<le> length b)) rs = Some (replicate 1500 7, None)"
proof -
  let ?u = "\<lparr>upFlow = exFlow, upData = replicate 1500 7, upClosed = False, upDialFailed = False, upIsTCP = True, upPacket = []\<rparr>"
  let ?r = "\<lambda>b. \<lparr>rcLeg = hd (Legs ''tcp'' exClient), rcFrame = the (receive 0x12345678 b), rcAt = 0\<rparr>"
  have m: "cfMagic exConfig = 0x12345678" "seOut exSession = []" by (simp_all add: exConfig_def exSession_def newSession_def)
  obtain frames where f: "seOut (handleUpstream exConfig exEnv ?u exSession) = downOut ''tcp'' exSession frames"
      and r: "list_all (\<lambda>b. receive 0x12345678 b \<noteq> None) frames"
      and c: "\<And>rs. (\<forall>r \<in> set rs. flowBody exFlow r = None \<or> (\<exists>b \<in> set frames. receive 0x12345678 b = Some (rcFrame r)))
         \<and> (\<forall>b \<in> set frames. \<exists>r \<in> set rs. receive 0x12345678 b = Some (rcFrame r))
       \<Longrightarrow> CollectFlowData exFlow (Some (\<lambda>b. 1500 \<le> length b)) rs = Some (replicate 1500 7, None)"
    using download_arrives [of ?u _ exConfig exEnv exSession, OF _ _ refl] by (auto simp: m)
  have "CollectFlowData exFlow (Some (\<lambda>b. 1500 \<le> length b)) (map ?r (rev frames)) = Some (replicate 1500 7, None)"
    using r by (intro c) (auto simp: list_all_iff)
  with f r show ?thesis by (intro exI [of _ frames] exI [of _ "map ?r (rev frames)"]) (auto simp: list_all_iff)
qed

section \<open>When collecting ends\<close>

lemma assemble_returns: "assemble frames \<noteq> None \<longleftrightarrow> (\<exists>q. q \<notin> fst ` set frames)"
proof (cases "frames = []")
  case False
  then show ?thesis
    using joinFrom_stops [of frames "lowestHeld frames" "[]"] joinFrom_returns [of frames _ "lowestHeld frames" "[]"]
    by (auto simp: assemble_def simp flip: lookup_None_iff)
qed (simp add: assemble_def)

lemma few_frames: "length frames < 2 ^ 32 \<Longrightarrow> \<exists>q. q \<notin> fst ` set frames" for frames :: "(u32 \<times> byte list) list"
proof (rule ccontr)
  assume l: "length frames < 2 ^ 32" and "\<not> (\<exists>q. q \<notin> fst ` set frames)"
  then have "fst ` set frames = UNIV" by blast
  then have "card (UNIV :: u32 set) \<le> card (set frames)" using card_image_le [of "set frames" fst] by simp
  then show False using card_length [of frames] l by (simp add: card_word)
qed

lemma collect_ends:
  "length frames + length rs < 2 ^ 32 \<Longrightarrow> collect flow stop rs frames closed \<noteq> None"
proof (induction rs arbitrary: frames closed)
  case Nil
  then show ?case using few_frames [of frames] assemble_returns [of frames] by auto
next
  case (Cons r rs)
  have u: "\<exists>out. assemble (AList.update x v frames) = Some out" for x v
    using Cons.prems length_update_le [of x v frames] few_frames [of "AList.update x v frames"]
      assemble_returns [of "AList.update x v frames"] by auto
  have n: "length (AList.update x v frames) + length rs < 2 ^ 32" for x v
    using Cons.prems length_update_le [of x v frames] by simp
  have i: "\<exists>y. collect flow stop rs (AList.update x v frames) cl = Some y" for x v cl
    using Cons.IH [OF n] by auto
  show ?case
  proof (cases "flowBody flow r")
    case (Some b)
    show ?thesis
      using Cons.IH [of frames closed] Cons.prems Some u [of "tbSeq b" "tbData b"] u [of "tbSeq b" "[]"]
        i [of "tbSeq b" "tbData b"] i [of "tbSeq b" "[]"]
      by (auto simp: Let_def split: option.split)
  qed (use Cons in simp)
qed

text \<open>
  C23: joining ends. The loop that joins the collected pieces counts upwards through a map of
  32-bit numbers; it ends exactly when some number is not held, and so a call to the
  collector returns whenever it is given fewer than \<open>2 ^ 32\<close> frames.
\<close>

theorem collecting_ends:
  "(assemble frames \<noteq> None \<longleftrightarrow> (\<exists>q. q \<notin> fst ` set frames))
   \<and> (length rs < 2 ^ 32 \<longrightarrow> CollectFlowData flow stop rs \<noteq> None)"
  using assemble_returns collect_ends [of "[]" rs flow stop False] by (simp add: CollectFlowData_def)

lemma collecting_ends_witness: "CollectFlowData exFlow None [] \<noteq> None \<and> assemble [(7, [1]), (8, [2])] \<noteq> None"
proof -
  have "(9 :: u32) \<notin> fst ` set [(7, [1]), (8, [2])]" by simp
  then show ?thesis
    using collecting_ends [of "[(7, [1]), (8, [2])]" "[]" exFlow None] by (metis list.size(3) zero_less_numeral zero_less_power)
qed

text \<open>
  The collector can stop with less than was sent. Without a callback it returns, without
  an error, at the first end-of-flow frame, although frames sent before it over another leg
  are still to come; and it waits in vain for a number that the server, which numbers all
  flows of a session together, gave to another flow, so that data of two flows sent in turn
  is not collected even though every frame of it has arrived.
\<close>

lemma collector_stops_short:
  "(flowBody flow r = Some b \<and> tbOpcode b = TCPDisconnect \<longrightarrow> CollectFlowData flow None (r # rs) = Some ([], None))
   \<and> (flowBody flow r1 = Some (DownBody flow q TCPPayload d1) \<and> flowBody flow r2 = None
        \<and> flowBody flow r3 = Some (DownBody flow (q + 2) TCPPayload d3) \<and> d3 \<noteq> []
      \<longrightarrow> CollectFlowData flow (Some (\<lambda>x. length (d1 @ d3) \<le> length x)) [r1, r2, r3]
        = Some (d1, Some (FlowTimeout 2 (length d1))))"
proof (intro conjI impI)
  assume "flowBody flow r = Some b \<and> tbOpcode b = TCPDisconnect"
  then show "CollectFlowData flow None (r # rs) = Some ([], None)"
    by (simp add: CollectFlowData_def assemble_def lowestHeld_def joinFrom.simps Let_def)
next
  have a1: "assemble [(q, d1)] = Some d1"
    by (simp add: assemble_def lowestHeld_def joinFrom.simps)
  have "lowestHeld [(q, d1), (q + 2, d3)] = q" by (simp add: lowestHeld_def diff_def)
  then have a2: "assemble [(q, d1), (q + 2, d3)] = Some d1"
    by (simp add: assemble_def joinFrom.simps)
  assume "flowBody flow r1 = Some (DownBody flow q TCPPayload d1) \<and> flowBody flow r2 = None
        \<and> flowBody flow r3 = Some (DownBody flow (q + 2) TCPPayload d3) \<and> d3 \<noteq> []"
  then show "CollectFlowData flow (Some (\<lambda>x. length (d1 @ d3) \<le> length x)) [r1, r2, r3]
      = Some (d1, Some (FlowTimeout 2 (length d1)))"
    by (simp add: CollectFlowData_def DownBody_def Let_def a1 a2)
qed

end
