(* ===== verification/Client_Hello.thy ===== *)
theory Client_Hello
  imports Client_Runs
begin

text \<open>
  The client's handshake and round-trip probe against the session: what each end sends is
  what the other expects, in both directions, through the frame codec.
\<close>

section \<open>The payloads\<close>

lemma ipChecksum_checksum: "ipChecksum = checksum"
  by (simp add: fun_eq_iff ipChecksum_def checksum_def)

text \<open>The MAC as the request carries it: cut or filled up to six bytes.\<close>

definition macSix :: "byte list \<Rightarrow> byte list" where
  "macSix mac = take 6 mac @ replicate (6 - length (take 6 mac)) 0"

lemma length_macSix [simp]: "length (macSix mac) = 6"
  by (simp add: macSix_def)

lemma ParseHandshakeReq_body:
  "ParseHandshakeReq (handshakeReqBody cl) =
     Inr \<lparr>hrMAC = macSix (ccMAC (clCfg cl)), hrIcgID = tunAddr cl, hrUnknown = replicate 40 0\<rparr>"
proof -
  have "handshakeReqBody cl = macSix (ccMAC (clCfg cl)) @ as4 (tunAddr cl) @ replicate 40 0"
    by (simp add: handshakeReqBody_def macSix_def Let_def)
  then show ?thesis by (simp add: ParseHandshakeReq_def addr4_def as4_def)
qed

lemma length_handshakeReqBody: "length (handshakeReqBody cl) = 50"
  by (simp add: handshakeReqBody_def Let_def)

lemma wordSum_bound: "length b \<le> 100 \<Longrightarrow> wordSum b \<le> 65535 * 50"
proof -
  assume l: "length b \<le> 100"
  have "65535 * ((length b + 1) div 2) \<le> 65535 * (50 :: nat)" using l by (intro mult_le_mono) simp_all
  then show ?thesis using wordSum_le [of b] by (rule le_trans [rotated])
qed

text \<open>
  The fake ping is a well-formed echo request: it has the 84 bytes its header declares, both
  checksums are right for the receiver's own checksum routine, and the server reads the
  tunnel number back, modulo \<open>2 ^ 32\<close>.
\<close>

lemma ping_ok:
  "length (FakePing src t) = 0x54 \<and> checksum (take 20 (FakePing src t)) = 0 \<and> checksum (drop 20 (FakePing src t)) = 0
   \<and> TunnelIDFromFakePing (FakePing src t) = Some (t mod 2 ^ 32)"
proof -
  let ?h1 = "[0x45, 0] @ be16 0x54 @ [0, 0, 0, 0] @ [0xff, 1]"
  let ?h2 = "as4 src @ [8, 8, 8, 8]"
  let ?e1 = "[8, 0] :: byte list"
  let ?e2 = "be16 0x74cf @ be16 (word_of_int t) @ [0x02, 0x04] @ le32 (word_of_int t) @ replicate 50 0xa5"
  let ?h = "?h1 @ be16 (checksum (?h1 @ [0, 0] @ ?h2)) @ ?h2" and ?e = "?e1 @ be16 (checksum (?e1 @ [0, 0] @ ?e2)) @ ?e2"
  have p: "FakePing src t = ?h @ ?e" by (simp only: FakePing_def Let_def ipChecksum_checksum append_assoc)
  have l: "length ?h = 20" "length ?e = 64" by simp_all
  have "checksum ?h = 0"
    using wordSum_bound [of ?h1] wordSum_bound [of ?h2] by (intro checksum_verifies) simp_all
  moreover have "checksum ?e = 0"
    using wordSum_bound [of ?e1] wordSum_bound [of ?e2] by (intro checksum_verifies) simp_all
  moreover have "take 20 (FakePing src t) = ?h" "drop 20 (FakePing src t) = ?e" unfolding p using l(1) by simp_all
  moreover have "length (FakePing src t) = 84" using l by (simp only: p length_append)
  moreover have "TunnelIDFromFakePing (FakePing src t) = Some (t mod 2 ^ 32)"
  proof -
    have "\<exists>b. FakePing src t = ?h @ [8, 0] @ b @ be16 0x74cf @ be16 (word_of_int t) @ [0x02, 0x04] @ le32 (word_of_int t) @ replicate 50 0xa5
        \<and> length b = 2" unfolding p by (intro exI [of _ "be16 (checksum (?e1 @ [0, 0] @ ?e2))"]) simp
    then obtain b where b: "FakePing src t = (?h @ [8, 0] @ b @ be16 0x74cf @ be16 (word_of_int t)) @ [0x02, 0x04] @ le32 (word_of_int t) @ replicate 50 0xa5"
      and "length b = 2" by auto
    let ?x = "?h @ [8, 0] @ b @ be16 0x74cf @ be16 (word_of_int t)"
    have lx: "length ?x = 28" using \<open>length b = 2\<close> by simp
    have "FakePing src t ! i = ?h1 ! i" if "i < 10" for i using that by (simp only: p append_assoc nth_append) simp
    then have z: "FakePing src t ! 0 = 0x45" "FakePing src t ! 9 = 1" by (simp_all add: be16_def le16_def)
    have n: "FakePing src t ! 28 = 0x02" "FakePing src t ! (28 + 1) = 0x04"
      "drop (28 + 2) (FakePing src t) = le32 (word_of_int t) @ replicate 50 0xa5"
      unfolding b using lx by (simp_all add: nth_append)
    show ?thesis
      unfolding TunnelIDFromFakePing_def n z \<open>length (FakePing src t) = 84\<close>
      by (simp add: uint_word_of_int)
  qed
  ultimately show ?thesis by simp
qed

section \<open>The handshake\<close>

lemma sendEach_ok:
  "\<exists>n. sendEach (\<lambda>_. True) g i ls cl = (None, cl\<lparr>clAsked := n, clSent := clSent cl @ map (\<lambda>(k, l). (l, clientBytes cl (g k))) (enumerate i ls)\<rparr>)"
proof (induction ls arbitrary: i cl)
  case Nil
  show ?case by (intro exI [of _ "clAsked cl"]) simp
next
  case (Cons l ls)
  let ?cl = "cl\<lparr>clAsked := clAsked cl + 1, clSent := clSent cl @ [(l, clientBytes cl (g i))]\<rparr>"
  have b: "clientBytes ?cl = clientBytes cl" by (simp add: fun_eq_iff clientBytes_def icgAddr_def)
  obtain n where "sendEach (\<lambda>_. True) g (i + 1) ls ?cl =
      (None, ?cl\<lparr>clAsked := n, clSent := clSent ?cl @ map (\<lambda>(k, l). (l, clientBytes cl (g k))) (enumerate (i + 1) ls)\<rparr>)"
    using Cons.IH [of "i + 1" ?cl] unfolding b by blast
  then show ?case by (intro exI [of _ n]) (simp add: clientSend_ok)
qed

lemma waitFor_Some: "r \<in> set rs \<Longrightarrow> pred r \<Longrightarrow> \<exists>r'. waitFor pred rs = Some r' \<and> r' \<in> set rs \<and> pred r'"
  by (induction rs) auto

lemma client_fields:
  "seClientMAC (writeRaw e l b s) = seClientMAC s" "seClientTunIP (writeRaw e l b s) = seClientTunIP s"
  "seClientMAC (bumpOut s) = seClientMAC s" "seClientTunIP (bumpOut s) = seClientTunIP s"
  by (simp_all add: writeRaw_def Let_def bumpOut_def asked_def emit_def setLeg_def modStats_def)

lemma request_accepted:
  assumes "frType (inFrame i) = TypeHandshake" and "frOpcode (inFrame i) = HSReqWithConfig"
    and "ParseHandshakeReq (frBody (inFrame i)) = Inr req"
    and "cfAllowedDevices c = [] \<or> map_of (cfAllowedDevices c) (macText (hrMAC req)) = Some True"
    and "canWrite (seHeap s) (inLeg i)"
  shows "\<exists>s'. handleFrame c e i s = Ret s' \<and> seClientMAC s' = hrMAC req \<and> seClientTunIP s' = Some (hrIcgID req)
    \<and> seAdmitted s' \<and> seState s' = StateSrvReady
    \<and> LegWrite (inLeg i) (Encode (stamp c s (mkFrame TypeHandshake HSServerAck 0 []))) \<in> set (seOut s')"
proof -
  let ?s = "setLeg (inLeg i) ((seHeap s (inLeg i))\<lparr>lgLastRx := inAt i\<rparr>) (modStats (\<lambda>x. x\<lparr>sxFramesIn := sxFramesIn x + 1\<rparr>) s)"
  define s1 where "s1 = (modStats (\<lambda>x. x\<lparr>sxHandshakes := sxHandshakes x + 1\<rparr>) ?s)
      \<lparr>seClientMAC := hrMAC req, seClientTunIP := Some (hrIcgID req)\<rparr>"
  let ?ack = "Encode (stamp c s (mkFrame TypeHandshake HSServerAck 0 []))"
  have f: "seClientMAC s1 = hrMAC req" "seClientTunIP s1 = Some (hrIcgID req)" "seTunIP s1 = seTunIP s"
      "canWrite (seHeap s1) (inLeg i)"
    using assms(5) by (simp_all add: s1_def canWrite_def)
  have "checkAdmission c True s1 = (True, s1\<lparr>seAdmitted := True\<rparr>)" using assms(4) f(1) by (auto simp: checkAdmission_def)
  then have "handleFrame c e i s = Ret (writeRaw e (inLeg i) ?ack
      (bumpOut ((resetForHandshake c (s1\<lparr>seAdmitted := True\<rparr>))\<lparr>seState := StateSrvReady\<rparr>)))"
    using assms(1-3)
    by (simp add: handleFrame_def handleHandshake_def onHandshakeReq_def Let_def s1_def sendOn_def stamp_def resetForHandshake_eq)
  moreover have "LegWrite (inLeg i) ?ack \<in> set (seOut (writeRaw e (inLeg i) ?ack
      (bumpOut ((resetForHandshake c (s1\<lparr>seAdmitted := True\<rparr>))\<lparr>seState := StateSrvReady\<rparr>))))"
    using f(4) by (simp add: writeRaw_out resetForHandshake_eq)
  ultimately show ?thesis by (simp add: client_fields writeRaw_same resetForHandshake_eq f(1,2))
qed

lemma confirm_accepted:
  assumes "frType (inFrame i) = TypeHandshake" and "frOpcode (inFrame i) = HSConfirmAck"
    and "TunnelIDFromFakePing (frBody (inFrame i)) = Some t"
  shows "\<exists>s'. handleFrame c e i s = Ret s' \<and> seState s' = StateBothOK
    \<and> lgTunnelID (seHeap s' (inLeg i)) = (if lgTunnelID (seHeap s (inLeg i)) < 0 then t else lgTunnelID (seHeap s (inLeg i)))"
  using assms by (simp add: handleFrame_def handleHandshake_def noteTunnelID_def Let_def)

text \<open>
  C3: a handshake completes. The request the client sends on its legs is one the server
  accepts for an allowed device, learning its MAC and address; the answer, once it reaches
  the client among whatever else arrives, ends the client's wait without error, after
  which it has sent one confirmation on each leg; and each confirmation puts the session into
  its final state and tells it the number of the leg it came by.
\<close>

theorem handshake_completes:
  assumes "Legs ''tcp'' cl \<noteq> []" and "effMagic (ccMagic (clCfg cl)) = effMagic (cfMagic c)"
    and "cfAllowedDevices c = [] \<or> map_of (cfAllowedDevices c) (macText (macSix (ccMAC (clCfg cl)))) = Some True"
    and "canWrite (seHeap s) l"
  shows "\<exists>req ack confirm f s1. receive (cfMagic c) req = Some f
    \<and> handleFrame c e \<lparr>inLeg = l, inFrame = f, inAt = now\<rparr> s = Ret s1
    \<and> seClientMAC s1 = macSix (ccMAC (clCfg cl)) \<and> seClientTunIP s1 = Some (tunAddr cl)
    \<and> seAdmitted s1 \<and> seState s1 = StateSrvReady \<and> LegWrite l ack \<in> set (seOut s1)
    \<and> receive (ccMagic (clCfg cl)) ack \<noteq> None
    \<and> (\<forall>incoming. (\<exists>r \<in> set incoming. receive (ccMagic (clCfg cl)) ack = Some (rcFrame r)) \<longrightarrow>
        (\<exists>cl'. Handshake (\<lambda>_. True) incoming cl = (None, cl') \<and> clSent cl' = clSent cl
           @ map (\<lambda>w. (w, req)) (Legs ''tcp'' cl) @ map (\<lambda>(i, w). (w, confirm i)) (enumerate 0 (Legs ''tcp'' cl))))
    \<and> (\<forall>i k s2. \<exists>g s3. receive (cfMagic c) (confirm i) = Some g
        \<and> handleFrame c e \<lparr>inLeg = k, inFrame = g, inAt = now\<rparr> s2 = Ret s3 \<and> seState s3 = StateBothOK
        \<and> (lgTunnelID (seHeap s2 k) < 0 \<longrightarrow> lgTunnelID (seHeap s3 k) = int i mod 2 ^ 32))"
proof -
  let ?ls = "Legs ''tcp'' cl" and ?m = "effMagic (cfMagic c)" and ?id = "tunIPWord (icgAddr cl)"
  let ?reqF = "upFrame TypeHandshake HSReqWithConfig (handshakeReqBody cl)"
  let ?conF = "\<lambda>i. upFrame TypeHandshake HSConfirmAck (FakePing (tunAddr cl) (int i))"
  let ?req = "clientBytes cl ?reqF" and ?con = "\<lambda>i. clientBytes cl (?conF i)"
  let ?ack = "Encode (stamp c s (mkFrame TypeHandshake HSServerAck 0 []))"
  have req: "receive (cfMagic c) ?req = Some (?reqF\<lparr>frMagic := ?m, frIcgID := ?id\<rparr>)"
    by (rule receive_clientBytes [OF assms(2)]) (simp add: upFrame_def length_handshakeReqBody)
  let ?i = "\<lparr>inLeg = l, inFrame = ?reqF\<lparr>frMagic := ?m, frIcgID := ?id\<rparr>, inAt = now\<rparr>"
  have "\<exists>s1. handleFrame c e ?i s = Ret s1 \<and> seClientMAC s1 = macSix (ccMAC (clCfg cl)) \<and> seClientTunIP s1 = Some (tunAddr cl)
    \<and> seAdmitted s1 \<and> seState s1 = StateSrvReady \<and> LegWrite l ?ack \<in> set (seOut s1)"
    using request_accepted [of ?i "\<lparr>hrMAC = macSix (ccMAC (clCfg cl)), hrIcgID = tunAddr cl, hrUnknown = replicate 40 0\<rparr>" c s e]
      assms(3,4) by (simp add: upFrame_def ParseHandshakeReq_body)
  then obtain s1 where s1: "handleFrame c e ?i s = Ret s1" "seClientMAC s1 = macSix (ccMAC (clCfg cl))"
      "seClientTunIP s1 = Some (tunAddr cl)" "seAdmitted s1" "seState s1 = StateSrvReady" "LegWrite l ?ack \<in> set (seOut s1)" by blast
  have ack: "receive (ccMagic (clCfg cl)) ?ack = Some ((stamp c s (mkFrame TypeHandshake HSServerAck 0 []))\<lparr>frMagic := effMagic (ccMagic (clCfg cl))\<rparr>)"
    by (rule receive_Encode) (simp_all add: assms(2) stamp_def mkFrame_def)
  then have ack_read: "receive (ccMagic (clCfg cl)) ?ack \<noteq> None" by simp
  have wait: "\<exists>cl'. Handshake (\<lambda>_. True) incoming cl = (None, cl') \<and> clSent cl' = clSent cl
      @ map (\<lambda>w. (w, ?req)) ?ls @ map (\<lambda>(i, w). (w, ?con i)) (enumerate 0 ?ls)"
    if inc: "\<exists>r \<in> set incoming. receive (ccMagic (clCfg cl)) ?ack = Some (rcFrame r)" for incoming
  proof -
    obtain r where r: "r \<in> set incoming" "receive (ccMagic (clCfg cl)) ?ack = Some (rcFrame r)" using inc by blast
    have "isServerAck r"
      using ack r(2) by (auto simp: isServerAck_def stamp_def mkFrame_def dest!: sym [of _ "rcFrame r"])
    then obtain r' where w: "waitFor isServerAck incoming = Some r'" using waitFor_Some r(1) by blast
    obtain n1 where n1: "sendEach (\<lambda>_. True) (\<lambda>_. ?reqF) 0 ?ls cl
        = (None, cl\<lparr>clAsked := n1, clSent := clSent cl @ map (\<lambda>(k, l). (l, ?req)) (enumerate 0 ?ls)\<rparr>)"
      using sendEach_ok [of "\<lambda>_. ?reqF" 0 ?ls cl] by blast
    define cl1 where "cl1 = cl\<lparr>clAsked := n1, clSent := clSent cl @ map (\<lambda>(k, l). (l, ?req)) (enumerate 0 ?ls)\<rparr>"
    have b: "clientBytes cl1 = clientBytes cl" "tunAddr cl1 = tunAddr cl"
      by (simp_all add: fun_eq_iff clientBytes_def icgAddr_def tunAddr_def cl1_def)
    obtain n2 where n2: "sendEach (\<lambda>_. True) ?conF 0 ?ls cl1
        = (None, cl1\<lparr>clAsked := n2, clSent := clSent cl1 @ map (\<lambda>(k, l). (l, ?con k)) (enumerate 0 ?ls)\<rparr>)"
      using sendEach_ok [of ?conF 0 ?ls cl1] unfolding b by blast
    have "map (\<lambda>(k, l). (l, ?req)) (enumerate 0 ?ls) = map (\<lambda>w. (w, ?req)) ?ls"
      by (rule nth_equalityI) (simp_all add: nth_enumerate_eq)
    moreover have "Handshake (\<lambda>_. True) incoming cl
        = (None, cl1\<lparr>clAsked := n2, clSent := clSent cl1 @ map (\<lambda>(k, l). (l, ?con k)) (enumerate 0 ?ls)\<rparr>)"
      unfolding Handshake_def Let_def n1 cl1_def [symmetric] using assms(1) n2
      by (simp only: if_False prod.case option.case w b)
    ultimately show ?thesis by (intro exI conjI) (assumption, simp add: cl1_def)
  qed
  have con: "\<exists>g s3. receive (cfMagic c) (?con i) = Some g
        \<and> handleFrame c e \<lparr>inLeg = k, inFrame = g, inAt = now\<rparr> s2 = Ret s3 \<and> seState s3 = StateBothOK
        \<and> (lgTunnelID (seHeap s2 k) < 0 \<longrightarrow> lgTunnelID (seHeap s3 k) = int i mod 2 ^ 32)" for i k s2
  proof -
    let ?g = "(?conF i)\<lparr>frMagic := ?m, frIcgID := ?id\<rparr>"
    note ping = ping_ok [of "tunAddr cl" "int i"]
    have "receive (cfMagic c) (?con i) = Some ?g"
      by (rule receive_clientBytes [OF assms(2)]) (simp add: upFrame_def ping)
    moreover have "\<exists>s3. handleFrame c e \<lparr>inLeg = k, inFrame = ?g, inAt = now\<rparr> s2 = Ret s3 \<and> seState s3 = StateBothOK
        \<and> (lgTunnelID (seHeap s2 k) < 0 \<longrightarrow> lgTunnelID (seHeap s3 k) = int i mod 2 ^ 32)"
      using confirm_accepted [of "\<lparr>inLeg = k, inFrame = ?g, inAt = now\<rparr>" "int i mod 2 ^ 32" c e s2] ping
      by (auto simp: upFrame_def)
    ultimately show ?thesis by blast
  qed
  show ?thesis
    by (rule exI [of _ ?req], rule exI [of _ ?ack], rule exI [of _ ?con],
        rule exI [of _ "?reqF\<lparr>frMagic := ?m, frIcgID := ?id\<rparr>"], rule exI [of _ s1])
      (intro conjI allI impI; (rule req s1 con wait ack_read | assumption)+)
qed

lemma handshake_completes_witness:
  "\<exists>req ack confirm f s1. receive 0x12345678 req = Some f
    \<and> handleFrame exConfig exEnv \<lparr>inLeg = 0, inFrame = f, inAt = 9\<rparr> exSession = Ret s1
    \<and> seClientMAC s1 = [0x02, 0x00, 0x5e, 0x10, 0x00, 0x01] \<and> LegWrite 0 ack \<in> set (seOut s1)
    \<and> (\<exists>g s3. receive 0x12345678 (confirm 5) = Some g
        \<and> handleFrame exConfig exEnv \<lparr>inLeg = 0, inFrame = g, inAt = 9\<rparr> s1 = Ret s3 \<and> seState s3 = StateBothOK)"
proof -
  have w: "canWrite (seHeap exSession) 0" by (simp add: canWrite_def exSession_def newSession_def exHeap_def)
  have m: "macSix (ccMAC (clCfg exClient)) = [0x02, 0x00, 0x5e, 0x10, 0x00, 0x01]" by (simp add: exClient_facts macSix_def)
  have a: "Legs ''tcp'' exClient \<noteq> []" "effMagic (ccMagic (clCfg exClient)) = effMagic (cfMagic exConfig)"
      "cfAllowedDevices exConfig = [] \<or> map_of (cfAllowedDevices exConfig) (macText (macSix (ccMAC (clCfg exClient)))) = Some True"
    by (simp_all add: exClient_facts exConfig_def)
  have c: "cfMagic exConfig = 0x12345678" by (simp add: exConfig_def)
  from handshake_completes [OF a w, of exEnv 9, unfolded m c] show ?thesis
  proof (elim exE conjE)
    fix req ack confirm f s1
    assume "receive 0x12345678 req = Some f" "handleFrame exConfig exEnv \<lparr>inLeg = 0, inFrame = f, inAt = 9\<rparr> exSession = Ret s1"
        "seClientMAC s1 = [0x02, 0x00, 0x5e, 0x10, 0x00, 0x01]" "LegWrite 0 ack \<in> set (seOut s1)"
      and c: "\<forall>i k s2. \<exists>g s3. receive 0x12345678 (confirm i) = Some g
        \<and> handleFrame exConfig exEnv \<lparr>inLeg = k, inFrame = g, inAt = 9\<rparr> s2 = Ret s3 \<and> seState s3 = StateBothOK
        \<and> (lgTunnelID (seHeap s2 k) < 0 \<longrightarrow> lgTunnelID (seHeap s3 k) = int i mod 2 ^ 32)"
    with spec [OF spec [OF spec [OF c, of 5], of 0], of s1] show ?thesis by blast
  qed
qed

section \<open>The round-trip probe\<close>

lemma probe_answered:
  assumes "frType (inFrame i) = TypeHandshake" and "frOpcode (inFrame i) = HSRTTSync"
    and "frBody (inFrame i) = rttAppendTo r []" and "rtt_ok r" and "canWrite (seHeap s) (inLeg i)"
  shows "\<exists>s'. handleFrame c e i s = Ret s' \<and> LegWrite (inLeg i)
     (Encode (stamp c s (mkFrame TypeHandshake HSRTTSyncAck 0 (rttAppendTo (Reply r (inAt i)) [])))) \<in> set (seOut s')"
proof -
  let ?s = "setLeg (inLeg i) ((seHeap s (inLeg i))\<lparr>lgLastRx := inAt i\<rparr>) (modStats (\<lambda>x. x\<lparr>sxFramesIn := sxFramesIn x + 1\<rparr>) s)"
  let ?b = "Encode (stamp c s (mkFrame TypeHandshake HSRTTSyncAck 0 (rttAppendTo (Reply r (inAt i)) [])))"
  have p: "ParseRTTBody (rttAppendTo r []) = Inr r" using ParseRTTBody_append [OF assms(4), of "[]"] by simp
  have "handleFrame c e i s = Ret (writeRaw e (inLeg i) ?b (bumpOut ?s))"
    using assms(1-3) p by (simp add: handleFrame_def handleHandshake_def onRTTSync_def Let_def sendOn_def stamp_def)
  moreover have "canWrite (seHeap (bumpOut ?s)) (inLeg i)" using assms(5) by (simp add: canWrite_def)
  ultimately show ?thesis by (simp add: writeRaw_out)
qed

lemma ack_measured:
  assumes "frType (inFrame i) = TypeHandshake" and "frOpcode (inFrame i) = HSRTTAck"
    and "ParseRTTBody (frBody (inFrame i)) = Inr r" and "rbServerMS r \<noteq> 0"
    and "rtt = timeSub (inAt i) (timeUnixMilli (sint (rbServerMS r)))"
  shows "\<exists>s'. handleFrame c e i s = Ret s' \<and> lgRtt (seHeap s' (inLeg i)) =
     (if 0 < rtt \<and> rtt < 10 * Second then lgRtt (observeRTT (seHeap s (inLeg i)) rtt) else lgRtt (seHeap s (inLeg i)))"
  using assms by (simp add: handleFrame_def handleHandshake_def onRTTAck_def Let_def observeRTT_def)

lemma length_rttAppendTo: "rtt_ok r \<Longrightarrow> length (rttAppendTo r []) = 25"
  by (simp add: rttAppendTo_def rtt_ok_def)

text \<open>
  C12: a round-trip probe passes and serves both ends. The server answers the client's probe
  on the leg it came by with the client's clock unchanged and its own filled in, so that the
  client's checks succeed and it reports its own elapsed time; the echo it then sends lets
  the server measure from its own clock reading, and the measurement reaches the leg when it
  lies between zero and ten seconds.
\<close>

theorem rtt_probe_works:
  assumes "effMagic (ccMagic (clCfg cl)) = effMagic (cfMagic c)" and "canWrite (seHeap s) l"
    and "0 < UnixMilli at" and "UnixMilli at < 2 ^ 63" and "rtt = timeSub later (timeUnixMilli (UnixMilli at))"
  shows "\<exists>probe f s1 answer. receive (cfMagic c) probe = Some f
    \<and> handleFrame c e \<lparr>inLeg = l, inFrame = f, inAt = at\<rparr> s = Ret s1 \<and> LegWrite l answer \<in> set (seOut s1)
    \<and> receive (ccMagic (clCfg cl)) answer \<noteq> None
    \<and> (\<forall>incoming. (\<exists>r \<in> set incoming. receive (ccMagic (clCfg cl)) answer = Some (rcFrame r))
         \<and> (\<forall>r \<in> set incoming. rttAnswers q r \<longrightarrow> receive (ccMagic (clCfg cl)) answer = Some (rcFrame r)) \<longrightarrow>
        (\<exists>cl' echo g. RTTSync (\<lambda>_. True) sent finish incoming w q cl = (Inr (timeSub finish sent), cl')
          \<and> clSent cl' = clSent cl @ [(w, probe), (w, echo)] \<and> receive (cfMagic c) echo = Some g
          \<and> (\<forall>k s2. \<exists>s3. handleFrame c e \<lparr>inLeg = k, inFrame = g, inAt = later\<rparr> s2 = Ret s3
              \<and> lgRtt (seHeap s3 k) = (if 0 < rtt \<and> rtt < 10 * Second then lgRtt (observeRTT (seHeap s2 k) rtt)
                                        else lgRtt (seHeap s2 k)))))"
proof -
  let ?m = "effMagic (cfMagic c)" and ?id = "tunIPWord (icgAddr cl)"
  let ?r = "\<lparr>rbSeq = q, rbClientMS = word_of_int (UnixMilli sent), rbServerMS = 0, rbTrailer = [0x04, 0x01, 0x01, 0x00, 0x00]\<rparr>"
  let ?a = "Reply ?r at"
  let ?pF = "upFrame TypeHandshake HSRTTSync (rttAppendTo ?r [])" and ?eF = "upFrame TypeHandshake HSRTTAck (rttAppendTo ?a [])"
  let ?probe = "clientBytes cl ?pF" and ?echo = "clientBytes cl ?eF"
  let ?aF = "mkFrame TypeHandshake HSRTTSyncAck 0 (rttAppendTo ?a [])"
  let ?answer = "Encode (stamp c s ?aF)"
  have ok: "rtt_ok ?r" "rtt_ok ?a" by (simp_all add: rtt_ok_def Reply_def)
  have pa: "ParseRTTBody (rttAppendTo ?a []) = Inr ?a" using ParseRTTBody_append [OF ok(2), of "[]"] by simp
  have ms: "sint (rbServerMS ?a) = UnixMilli at"
    using assms(3,4) by (simp add: Reply_def signed_of_int signed_take_bit_int_eq_self)
  then have nz: "rbServerMS ?a \<noteq> 0" using assms(3) by auto
  have probe: "receive (cfMagic c) ?probe = Some (?pF\<lparr>frMagic := ?m, frIcgID := ?id\<rparr>)"
    by (rule receive_clientBytes [OF assms(1)]) (simp add: upFrame_def length_rttAppendTo ok)
  let ?i = "\<lparr>inLeg = l, inFrame = ?pF\<lparr>frMagic := ?m, frIcgID := ?id\<rparr>, inAt = at\<rparr>"
  obtain s1 where s1: "handleFrame c e ?i s = Ret s1" "LegWrite l ?answer \<in> set (seOut s1)"
    using probe_answered [of ?i ?r s c e] ok assms(2) by (auto simp: upFrame_def)
  have answer: "receive (ccMagic (clCfg cl)) ?answer = Some ((stamp c s ?aF)\<lparr>frMagic := effMagic (ccMagic (clCfg cl))\<rparr>)"
    by (rule receive_Encode) (simp_all add: assms(1) stamp_def mkFrame_def length_rttAppendTo ok)
  then have answered: "receive (ccMagic (clCfg cl)) ?answer \<noteq> None" by simp
  have echo: "receive (cfMagic c) ?echo = Some (?eF\<lparr>frMagic := ?m, frIcgID := ?id\<rparr>)"
    by (rule receive_clientBytes [OF assms(1)]) (simp add: upFrame_def length_rttAppendTo ok)
  have meas: "\<forall>k s2. \<exists>s3. handleFrame c e \<lparr>inLeg = k, inFrame = ?eF\<lparr>frMagic := ?m, frIcgID := ?id\<rparr>, inAt = later\<rparr> s2 = Ret s3
      \<and> lgRtt (seHeap s3 k) = (if 0 < rtt \<and> rtt < 10 * Second then lgRtt (observeRTT (seHeap s2 k) rtt) else lgRtt (seHeap s2 k))"
  proof (intro allI)
    fix k s2
    let ?j = "\<lparr>inLeg = k, inFrame = ?eF\<lparr>frMagic := ?m, frIcgID := ?id\<rparr>, inAt = later\<rparr>"
    have j: "inAt ?j = later" "inLeg ?j = k" "frType (inFrame ?j) = TypeHandshake" "frOpcode (inFrame ?j) = HSRTTAck"
        "ParseRTTBody (frBody (inFrame ?j)) = Inr ?a"
      using pa by (simp_all add: upFrame_def)
    show "\<exists>s3. handleFrame c e ?j s2 = Ret s3 \<and> lgRtt (seHeap s3 k)
        = (if 0 < rtt \<and> rtt < 10 * Second then lgRtt (observeRTT (seHeap s2 k) rtt) else lgRtt (seHeap s2 k))"
      using ack_measured [OF j(3-5) nz, of rtt c e s2] unfolding j(1,2) ms by (simp only: assms(5))
  qed
  have sync: "\<exists>cl'. RTTSync (\<lambda>_. True) sent finish incoming w q cl = (Inr (timeSub finish sent), cl')
      \<and> clSent cl' = clSent cl @ [(w, ?probe), (w, ?echo)]"
    if inc: "(\<exists>r \<in> set incoming. receive (ccMagic (clCfg cl)) ?answer = Some (rcFrame r))
      \<and> (\<forall>r \<in> set incoming. rttAnswers q r \<longrightarrow> receive (ccMagic (clCfg cl)) ?answer = Some (rcFrame r))" for incoming
  proof -
    have f: "frBody (rcFrame r) = rttAppendTo ?a [] \<and> rttAnswers q r"
      if "receive (ccMagic (clCfg cl)) ?answer = Some (rcFrame r)" for r
      using that pa unfolding answer
      by (auto simp: rttAnswers_def stamp_def mkFrame_def Reply_def dest!: sym [of _ "rcFrame r"])
    then obtain r where r: "waitFor (rttAnswers q) incoming = Some r" "r \<in> set incoming" "rttAnswers q r"
      using waitFor_Some inc by blast
    then have b: "frBody (rcFrame r) = rttAppendTo ?a []" using f inc by blast
    have c: "rbClientMS ?a = word_of_int (UnixMilli sent)" by (simp add: Reply_def)
    show ?thesis
      unfolding RTTSync_def Let_def clientSend_ok using nz
      by (simp add: r(1) b pa c clientBytes_def icgAddr_def)
  qed
  show ?thesis
    by (rule exI [of _ ?probe], rule exI [of _ "?pF\<lparr>frMagic := ?m, frIcgID := ?id\<rparr>"], rule exI [of _ s1], rule exI [of _ ?answer])
      (intro conjI allI impI; (rule probe s1 answered)?; drule sync; elim exE; intro exI conjI; (elim conjE)?; (assumption | rule echo meas)+)
qed

lemma rtt_probe_works_witness:
  "\<exists>probe f s1 answer. receive 0x12345678 probe = Some f
    \<and> handleFrame exConfig exEnv \<lparr>inLeg = 0, inFrame = f, inAt = timeUnixMilli 1000\<rparr> exSession = Ret s1 \<and> LegWrite 0 answer \<in> set (seOut s1)
    \<and> (\<exists>cl' r. RTTSync (\<lambda>_. True) 3 5 [r] (hd (clLegs exClient)) 7 exClient = (Inr 2, cl') \<and> receive 0x12345678 answer = Some (rcFrame r))"
proof -
  have w: "canWrite (seHeap exSession) 0" by (simp add: canWrite_def exSession_def newSession_def exHeap_def)
  have m: "effMagic (ccMagic (clCfg exClient)) = effMagic (cfMagic exConfig)" by (simp add: exClient_facts exConfig_def)
  have c: "cfMagic exConfig = 0x12345678" "ccMagic (clCfg exClient) = DefaultMagic" by (simp_all add: exConfig_def exClient_facts)
  have d: "receive DefaultMagic b = receive 0x12345678 b" for b by (rule receive_cong) (simp add: exClient_facts)
  have u: "0 < UnixMilli (timeUnixMilli 1000)" "UnixMilli (timeUnixMilli 1000) < 2 ^ 63" by simp_all
  note t = rtt_probe_works [OF m w u refl, where e = exEnv and q = 7 and sent = 3 and finish = 5 and w = "hd (clLegs exClient)", unfolded c d]
  from t [of "timeUnixMilli 1000"] show ?thesis
  proof (elim exE conjE)
    fix probe f s1 answer
    assume s: "receive 0x12345678 probe = Some f"
        "handleFrame exConfig exEnv \<lparr>inLeg = 0, inFrame = f, inAt = timeUnixMilli 1000\<rparr> exSession = Ret s1" "LegWrite 0 answer \<in> set (seOut s1)"
        "receive 0x12345678 answer \<noteq> None"
      and k: "\<forall>incoming. (\<exists>r \<in> set incoming. receive 0x12345678 answer = Some (rcFrame r))
         \<and> (\<forall>r \<in> set incoming. rttAnswers 7 r \<longrightarrow> receive 0x12345678 answer = Some (rcFrame r)) \<longrightarrow>
        (\<exists>cl' echo g. RTTSync (\<lambda>_. True) 3 5 incoming (hd (clLegs exClient)) 7 exClient = (Inr (timeSub 5 3), cl')
          \<and> clSent cl' = clSent exClient @ [(hd (clLegs exClient), probe), (hd (clLegs exClient), echo)] \<and> receive 0x12345678 echo = Some g
          \<and> (\<forall>k s2. \<exists>s3. handleFrame exConfig exEnv \<lparr>inLeg = k, inFrame = g, inAt = timeUnixMilli 1000\<rparr> s2 = Ret s3
              \<and> lgRtt (seHeap s3 k) = (if 0 < timeSub (timeUnixMilli 1000) (timeUnixMilli (UnixMilli (timeUnixMilli 1000)))
                   \<and> timeSub (timeUnixMilli 1000) (timeUnixMilli (UnixMilli (timeUnixMilli 1000))) < 10 * Second
                 then lgRtt (observeRTT (seHeap s2 k) (timeSub (timeUnixMilli 1000) (timeUnixMilli (UnixMilli (timeUnixMilli 1000)))))
                 else lgRtt (seHeap s2 k))))"
    from s(4) obtain g where g: "receive 0x12345678 answer = Some g" by blast
    let ?r = "\<lparr>rcLeg = hd (clLegs exClient), rcFrame = g, rcAt = 4\<rparr>"
    from g have "\<exists>cl' echo h. RTTSync (\<lambda>_. True) 3 5 [?r] (hd (clLegs exClient)) 7 exClient = (Inr (timeSub 5 3), cl')"
      using spec [OF k, of "[?r]"] by auto
    moreover have "timeSub 5 3 = 2" by (simp add: timeSub_def)
    ultimately have "\<exists>cl' r. RTTSync (\<lambda>_. True) 3 5 [r] (hd (clLegs exClient)) 7 exClient = (Inr 2, cl') \<and> receive 0x12345678 answer = Some (rcFrame r)"
      using g by (metis Received.select_convs(2))
    with s(1-3) show ?thesis by blast
  qed
qed

end
