(* ===== verification/Snapshot.thy ===== *)
theory Snapshot
  imports Complex_Main Texts Server_Runs "HOL-Library.Multiset" "HOL-Library.List_Lexorder" "HOL-Library.Char_ord" "HOL-Library.Product_Lexorder"
begin

text \<open>
  \<open>icg/concentrator/snapshot.go\<close>: the views that the status API serves. Seconds and
  milliseconds are exact quotients here where the code has \<open>float64\<close>; an absent
  \<open>net.Addr\<close> prints as the empty string. \<open>sort.Slice\<close> is the library's \<open>sort_key\<close>; Go
  leaves open the order of elements with equal keys.
\<close>

section \<open>One session\<close>

record LegSnapshot =
  lsKind :: string
  lsRemote :: string
  lsTunnelID :: int
  lsRTTMillis :: rat
  lsIdleSec :: rat
  lsWriteErrs :: u64
  lsClosed :: bool

record FlowsSnapshot =
  fsTCPActive :: nat
  fsTCPTotal :: u64
  fsUDPActive :: nat
  fsUDPTotal :: u64

record ReasmSnapshot =
  rsTCPPending :: nat
  rsTCPSkipped :: u64
  rsTCPLate :: u64
  rsUDPPending :: nat
  rsUDPSkipped :: u64
  rsUDPLate :: u64
  rsStashTCP :: nat
  rsStashUDP :: nat
  rsStashMiss :: u64

record CounterSnapshot =
  csFramesIn :: u64
  csFramesOut :: u64
  csDroppedIn :: u64
  csHandshakes :: u64
  csRefused :: u64
  csRefusedFrames :: u64
  csICMPDropped :: u64
  csRetransmitsServed :: u64
  csRetransmitsRequested :: u64
  csUnknownFrames :: u64
  csUpstreamDialFails :: u64

record SessionSnapshot =
  ssIcgID :: string
  ssState :: string
  ssAdmitted :: bool
  ssClientMAC :: string
  ssClientTunIP :: string
  ssCreatedAt :: instant
  ssIdleSec :: rat
  ssLegs :: "LegSnapshot list"
  ssFlows :: FlowsSnapshot
  ssReassembly :: ReasmSnapshot
  ssCounters :: CounterSnapshot

definition inSeconds :: "duration \<Rightarrow> rat" where
  "inSeconds d = of_int d / of_int Second"

definition legSnapshot :: "instant \<Rightarrow> Leg \<Rightarrow> LegSnapshot" where
  "legSnapshot now l =
     \<lparr>lsKind = lgKind l,
      lsRemote = (case lgRemote l of None \<Rightarrow> '''' | Some a \<Rightarrow> a),
      lsTunnelID = lgTunnelID l,
      lsRTTMillis = of_int (lgRtt l) / of_int Millisecond,
      lsIdleSec = (if IsZero (lgLastRx l) then 0 else inSeconds (timeSub now (lgLastRx l))),
      lsWriteErrs = lgWriteErrs l,
      lsClosed = lgClosed l\<rparr>"

definition legOrder :: "LegSnapshot \<Rightarrow> string \<times> string" where
  "legOrder l = (lsKind l, lsRemote l)"

definition flowsSnapshot :: "Session \<Rightarrow> FlowsSnapshot" where
  "flowsSnapshot s = \<lparr>fsTCPActive = length (seFlows s), fsTCPTotal = sxTCPFlows (seStats s),
     fsUDPActive = length (seUdpFlows s), fsUDPTotal = sxUDPFlows (seStats s)\<rparr>"

definition reasmSnapshot :: "Session \<Rightarrow> ReasmSnapshot" where
  "reasmSnapshot s = \<lparr>rsTCPPending = Pending (seUpTCP s), rsTCPSkipped = rSkipped (seUpTCP s), rsTCPLate = rLate (seUpTCP s),
     rsUDPPending = Pending (seUpUDP s), rsUDPSkipped = rSkipped (seUpUDP s), rsUDPLate = rLate (seUpUDP s),
     rsStashTCP = stashLen (seStashTCP s), rsStashUDP = stashLen (seStashUDP s),
     rsStashMiss = stMisses (seStashTCP s) + stMisses (seStashUDP s)\<rparr>"

definition counterSnapshot :: "Stats \<Rightarrow> u64 \<Rightarrow> CounterSnapshot" where
  "counterSnapshot x dropped = \<lparr>csFramesIn = sxFramesIn x, csFramesOut = sxFramesOut x, csDroppedIn = dropped,
     csHandshakes = sxHandshakes x, csRefused = sxRefused x, csRefusedFrames = sxRefusedFrames x,
     csICMPDropped = sxICMPDropped x, csRetransmitsServed = sxRetransmitsServed x,
     csRetransmitsRequested = sxRetransmitsRequested x, csUnknownFrames = sxUnknownFrames x,
     csUpstreamDialFails = sxUpstreamDialFails x\<rparr>"

definition sessionSnapshot :: "instant \<Rightarrow> box \<Rightarrow> SessionSnapshot" where
  "sessionSnapshot now b =
     (let s = bxSess b in
      \<lparr>ssIcgID = icgIDString (seTunIP s),
       ssState = stateString (seState s),
       ssAdmitted = seAdmitted s,
       ssClientMAC = macString (seClientMAC s),
       ssClientTunIP = (case seClientTunIP s of None \<Rightarrow> '''' | Some a \<Rightarrow> dotted (as4 a)),
       ssCreatedAt = seCreatedAt s,
       ssIdleSec = (if bxLastRx b \<noteq> 0 then inSeconds (timeSub now (timeUnixNano (bxLastRx b))) else 0),
       ssLegs = sort_key legOrder (map (\<lambda>(k, l). legSnapshot now (seHeap s l)) (seLegs s)),
       ssFlows = flowsSnapshot s,
       ssReassembly = reasmSnapshot s,
       ssCounters = counterSnapshot (seStats s) (bxDropped b)\<rparr>)"

text \<open>\<open>Session.Snapshot\<close>: \<open>pub\<close> is what \<open>publish\<close> last stored, if it ran yet.\<close>

definition startingSnapshot :: "u32 \<Rightarrow> SessionSnapshot" where
  "startingSnapshot tunIP = \<lparr>ssIcgID = icgIDString tunIP, ssState = ''starting'', ssAdmitted = False, ssClientMAC = '''',
     ssClientTunIP = '''', ssCreatedAt = 0, ssIdleSec = 0, ssLegs = [],
     ssFlows = \<lparr>fsTCPActive = 0, fsTCPTotal = 0, fsUDPActive = 0, fsUDPTotal = 0\<rparr>,
     ssReassembly = \<lparr>rsTCPPending = 0, rsTCPSkipped = 0, rsTCPLate = 0, rsUDPPending = 0, rsUDPSkipped = 0, rsUDPLate = 0,
       rsStashTCP = 0, rsStashUDP = 0, rsStashMiss = 0\<rparr>,
     ssCounters = counterSnapshot noStats 0\<rparr>"

definition lastSnapshot :: "SessionSnapshot option \<Rightarrow> box \<Rightarrow> SessionSnapshot" where
  "lastSnapshot pub b = (case pub of Some p \<Rightarrow> p | None \<Rightarrow> startingSnapshot (seTunIP (bxSess b)))"

section \<open>The server\<close>

record ListenerSnapshot =
  liTCP :: string
  liUDP :: "string list"
  liUDPBase :: int
  liUDPLegs :: int

record AdmissionSnapshot =
  asEnabled :: bool
  asDevices :: "string list"

record ServerSnapshot =
  vsVersion :: string
  vsStartedAt :: instant
  vsUptimeSec :: rat
  vsListeners :: ListenerSnapshot
  vsMagic :: string
  vsAdmission :: AdmissionSnapshot
  vsSessions :: "SessionSnapshot list"
  vsNotices :: "Notice list"

definition admissionSnapshot :: "(string \<times> bool) list \<Rightarrow> AdmissionSnapshot" where
  "admissionSnapshot allowed = \<lparr>asEnabled = (length allowed > 0), asDevices = sort (map fst allowed)\<rparr>"

text \<open>
  The addresses are those of the sockets \<open>Run\<close> has bound; \<open>pub\<close> holds the published view of
  each session.
\<close>

definition serverSnapshot :: "ServerConfig \<Rightarrow> instant \<Rightarrow> string option \<Rightarrow> string list \<Rightarrow> (nat \<Rightarrow> SessionSnapshot option)
    \<Rightarrow> instant \<Rightarrow> Server \<Rightarrow> ServerSnapshot" where
  "serverSnapshot c startedAt tcp udp pub now srv =
     \<lparr>vsVersion = svVersion c,
      vsStartedAt = startedAt,
      vsUptimeSec = inSeconds (timeSub now startedAt),
      vsListeners = \<lparr>liTCP = (case tcp of None \<Rightarrow> '''' | Some a \<Rightarrow> a), liUDP = udp,
                     liUDPBase = svUDPBase c, liUDPLegs = svUDPLegs c\<rparr>,
      vsMagic = hex32 (cfMagic c),
      vsAdmission = admissionSnapshot (cfAllowedDevices c),
      vsSessions = sort_key ssIcgID (map (\<lambda>(k, b). lastSnapshot (pub b) (svBox srv b)) (svSessions srv)),
      vsNotices = noticeSnapshot (svNotices srv)\<rparr>"

section \<open>The session table is a table\<close>

definition table_ok :: "Server \<Rightarrow> bool" where
  "table_ok srv \<longleftrightarrow> distinct (map fst (svSessions srv))"

lemma table_ok_same: "svSessions srv' = svSessions srv \<Longrightarrow> table_ok srv \<Longrightarrow> table_ok srv'"
  by (simp add: table_ok_def)

lemma detachFrom_sessions: "detachFrom l b srv = Some srv' \<Longrightarrow> svSessions srv' = svSessions srv"
  by (auto simp: detachFrom_def putBox_def Let_def split: option.splits)

lemma closeLeg_sessions [simp]: "svSessions (closeLeg l b srv) = svSessions srv"
  by (simp add: closeLeg_def putBox_def Let_def)

lemma dropPeers_sessions: "dropPeers ps srv = Some srv' \<Longrightarrow> svSessions srv' = svSessions srv"
  by (induction ps srv rule: dropPeers.induct) (auto dest: detachFrom_sessions split: option.splits)

lemma resetPeers_sessions: "resetPeers idx srv = Some srv' \<Longrightarrow> svSessions srv' = svSessions srv"
  by (auto simp: resetPeers_def setPeers_def dest: dropPeers_sessions split: option.splits if_splits)

lemma bindLeg_table: "bindLeg c now f l leg srv = Some (b, srv') \<Longrightarrow> table_ok srv \<Longrightarrow> table_ok srv'"
  by (auto simp: bindLeg_def session_def putBox_def table_ok_def Let_def split: option.splits)

lemma serveUDPFrame_table: "serveUDPFrame c now idx addr f srv = Some srv' \<Longrightarrow> table_ok srv \<Longrightarrow> table_ok srv'"
proof (cases "map_of (svPeers srv idx) addr")
  case (Some pl)
  then show "serveUDPFrame c now idx addr f srv = Some srv' \<Longrightarrow> table_ok srv \<Longrightarrow> table_ok srv'"
    by (auto simp: serveUDPFrame_def postTo_def putBox_def table_ok_def)
next
  case None
  assume s: "serveUDPFrame c now idx addr f srv = Some srv'" and t: "table_ok srv"
  obtain srv1 b srv2 where r: "resetPeers idx srv = Some srv1"
      "bindLeg c now f (svNextLeg srv1) (udpLeg idx addr) (srv1\<lparr>svNextLeg := svNextLeg srv1 + 1\<rparr>) = Some (b, srv2)"
      and eq: "svSessions srv' = svSessions srv2"
    using s None by (auto simp: serveUDPFrame_def postTo_def putBox_def setPeers_def Let_def split: option.splits)
  have "table_ok srv2" using bindLeg_table [OF r(2)] resetPeers_sessions [OF r(1)] t by (simp add: table_ok_def)
  then show "table_ok srv'" using eq by (simp add: table_ok_def)
qed

lemma serveUDPFrames_table: "serveUDPFrames c now idx addr fs srv = Some srv' \<Longrightarrow> table_ok srv \<Longrightarrow> table_ok srv'"
  by (induction fs arbitrary: srv) (auto dest: serveUDPFrame_table split: option.splits)

lemma reapSessions_table: "table_ok srv \<Longrightarrow> table_ok (reapSessions c now srv)"
proof -
  assume "table_ok srv"
  then have "table_ok (fold (reapSession c now) xs srv)" for xs
    by (induction xs arbitrary: srv) (auto simp: reapSession_def table_ok_def putBox_def split: prod.split)
  then show ?thesis by (simp add: reapSessions_def)
qed

lemma server_step_table: "server_step c e srv srv' \<Longrightarrow> table_ok srv \<Longrightarrow> table_ok srv'"
proof (induction rule: server_step.induct)
  case (TCPFrame now l f srv srv')
  then show ?case
    by (auto simp: serveTCPFrame_def postTo_def putBox_def table_ok_def split: option.splits
        dest!: bindLeg_table [unfolded table_ok_def])
next
  case (TCPEnd now l resyncs srv srv')
  then show ?case
    by (auto simp: serveTCPEnd_def notice_def table_ok_def Let_def split: option.splits dest!: detachFrom_sessions)
next
  case (Datagram now idx addr buf errText srv srv')
  then show ?case
    by (auto simp: serveDatagram_def reportBadDatagram_def notice_def table_ok_def Let_def split: prod.splits if_splits
        dest!: serveUDPFrames_table [unfolded table_ok_def])
qed (simp_all add: table_ok_def acceptTCP_def OnDesync_def notice_def putBox_def reapSessions_table [unfolded table_ok_def])

lemma server_runs_table: "(server_step c e)\<^sup>*\<^sup>* (newServer c) srv \<Longrightarrow> table_ok srv"
  by (induction rule: rtranclp_induct) (auto simp: table_ok_def newServer_def dest: server_step_table [unfolded table_ok_def])

section \<open>Properties\<close>

lemma sort_key_names: "sorted (map f (sort_key f xs)) \<and> mset (sort_key f xs) = mset xs"
  by simp

text \<open>
  C33: the status page lists each live session once, under its own name. In every reachable
  state of the server, and whatever views the sessions have published, the list is ordered
  by the printed identities, no identity is printed twice, different identities print
  differently, and those listed are exactly the identities in the session table.
\<close>

theorem sessions_listed_once:
  assumes "(server_step c e)\<^sup>*\<^sup>* (newServer c) srv"
    and "\<And>b p. pub b = Some p \<Longrightarrow> \<exists>now x. p = sessionSnapshot now x \<and> seTunIP (bxSess x) = seTunIP (bxSess (svBox srv b))"
  shows "sorted (map ssIcgID (vsSessions (serverSnapshot c t0 tcp udp pub now srv)))
    \<and> distinct (map ssIcgID (vsSessions (serverSnapshot c t0 tcp udp pub now srv)))
    \<and> ssIcgID ` set (vsSessions (serverSnapshot c t0 tcp udp pub now srv)) = icgIDString ` fst ` set (svSessions srv)
    \<and> inj icgIDString"
proof -
  let ?view = "\<lambda>(k, b). lastSnapshot (pub b) (svBox srv b)"
  have core: "core_ok c srv" using server_runs_ok [OF assms(1)] by (simp add: srv_ok_def)
  have table: "distinct (map fst (svSessions srv))" using server_runs_table [OF assms(1)] by (simp add: table_ok_def)
  have name: "ssIcgID (?view x) = icgIDString (fst x)" if "x \<in> set (svSessions srv)" for x
  proof -
    obtain k b where x: "x = (k, b)" by (cases x)
    then have "map_of (svSessions srv) k = Some b" using that table by simp
    from core_parts(1) [OF core this] have b: "b < svNextBox srv" "bxKey (svBox srv b) = k" by auto
    from core_parts(2) [OF core b(1)] have t: "seTunIP (bxSess (svBox srv b)) = k" by (simp add: box_ok_def sess_ok_def b(2))
    show ?thesis
      using assms(2) [of b] t
      by (cases "pub b") (auto simp: x lastSnapshot_def startingSnapshot_def sessionSnapshot_def Let_def)
  qed
  have inj: "inj icgIDString" by (simp add: inj_def icgIDString_inject)
  have names: "map ssIcgID (map ?view (svSessions srv)) = map icgIDString (map fst (svSessions srv))"
    using name by simp
  have "mset (map ssIcgID (vsSessions (serverSnapshot c t0 tcp udp pub now srv))) = mset (map icgIDString (map fst (svSessions srv)))"
    unfolding names [symmetric] by (simp only: serverSnapshot_def ServerSnapshot.select_convs mset_map mset_sort)
  moreover have "distinct (map icgIDString (map fst (svSessions srv)))"
    using table inj by (simp add: distinct_map inj_on_def inj_def)
  ultimately show ?thesis
    using inj mset_eq_imp_distinct_iff mset_eq_setD
    by (metis (no_types, lifting) ServerSnapshot.select_convs(7) list.set_map serverSnapshot_def sort_key_names)
qed

text \<open>A server with one connection, over which one frame has come.\<close>

lemma exServer_one:
  "\<exists>srv. (server_step exServerConfig exEnv)\<^sup>*\<^sup>* (newServer exServerConfig) srv \<and> svSessions srv = [(9, 0)]"
proof -
  let ?c = exServerConfig
  let ?f = "\<lparr>frMagic = DefaultMagic, frIcgID = 9, frType = TypeHandshake, frOpcode = HSKeepalive, frSeq = 0, frBody = []\<rparr>"
  define s1 where "s1 = acceptTCP ''peer'' (newServer ?c)"
  obtain s2 where s2: "serveTCPFrame ?c 5 0 ?f s1 = Some s2" "svSessions s2 = [(9, 0)]"
    by (simp add: s1_def serveTCPFrame_def acceptTCP_def newServer_def bindLeg_def session_def Let_def attachLeg_def sendMsg_def
        newBox_def chanCap_def postTo_def post_def)
  have "(server_step ?c exEnv)\<^sup>*\<^sup>* (newServer ?c) s1" unfolding s1_def by (intro r_into_rtranclp server_step.Accept)
  also have "(server_step ?c exEnv)\<^sup>*\<^sup>* s1 s2" using s2(1) by (intro r_into_rtranclp server_step.TCPFrame)
  finally show ?thesis using s2(2) by blast
qed

lemma sessions_listed_once_witness:
  "\<exists>srv. (server_step exServerConfig exEnv)\<^sup>*\<^sup>* (newServer exServerConfig) srv \<and> svSessions srv = [(9, 0)]
     \<and> ssIcgID ` set (vsSessions (serverSnapshot exServerConfig 0 None [] (\<lambda>_. None) 7 srv)) = {icgIDString 9}"
proof -
  obtain srv where run: "(server_step exServerConfig exEnv)\<^sup>*\<^sup>* (newServer exServerConfig) srv" and t: "svSessions srv = [(9, 0)]"
    using exServer_one by blast
  have "icgIDString ` fst ` set (svSessions srv) = {icgIDString 9}" unfolding t by (simp only: list.set image_insert image_empty fst_conv)
  then show ?thesis using sessions_listed_once [OF run, of "\<lambda>_. None" 0 None "[]" 7] run t by (metis option.distinct(1))
qed

end
