(* ===== verification/Http.thy ===== *)
theory Http
  imports Parsing Snapshot
begin

text \<open>
  \<open>icg/concentrator/http.go\<close>: the status API and who may read it. A request carries what the
  handlers look at: the path, the two headers and the query parameter (each empty when
  absent). A response body that the code encodes as JSON is kept as the value encoded. The
  redirects \<open>http.ServeMux\<close> makes for unclean paths, and the text of the page, are not
  modelled.
\<close>

section \<open>The server\<close>

record HTTPConfig =
  hcAddr :: string
  hcKey :: string

record HTTPServer =
  hsKey :: string
  hsAddr :: string
  hsLn :: "string option"
  hsReady :: bool

datatype http_error = ErrKeyGen string | ErrListenHTTP string | ErrAccept string

text \<open>\<open>rnd\<close> is what \<open>rand.Read\<close> puts into the 24 bytes, or its error.\<close>

definition NewHTTP :: "HTTPConfig \<Rightarrow> string + byte list \<Rightarrow> http_error + HTTPServer option" where
  "NewHTTP cfg rnd =
     (if hcAddr cfg = '''' then Inr None
      else let key = TrimSpace (hcKey cfg) in
        if key = '''' then
          (case rnd of
             Inl err \<Rightarrow> Inl (ErrKeyGen err)
           | Inr b \<Rightarrow> Inr (Some \<lparr>hsKey = rawURLEncode b, hsAddr = hcAddr cfg, hsLn = None, hsReady = False\<rparr>))
        else Inr (Some \<lparr>hsKey = key, hsAddr = hcAddr cfg, hsLn = None, hsReady = False\<rparr>))"

definition GeneratedKey :: "HTTPServer \<Rightarrow> string" where "GeneratedKey h = hsKey h"

definition httpAddr :: "HTTPServer \<Rightarrow> string" where
  "httpAddr h = (case hsLn h of Some a \<Rightarrow> a | None \<Rightarrow> hsAddr h)"

text \<open>
  \<open>Serve\<close> up to the bind, and its result when \<open>http.Server.Serve\<close> returns: the error of
  \<open>Accept\<close>, since nothing calls \<open>Shutdown\<close> or \<open>Close\<close> on the \<open>http.Server\<close>, which alone make it
  return \<open>ErrServerClosed\<close>.
\<close>

definition ServeBind :: "string + string \<Rightarrow> HTTPServer \<Rightarrow> http_error option \<times> HTTPServer" where
  "ServeBind bound h =
     (case bound of
        Inl err \<Rightarrow> (Some (ErrListenHTTP err), h)
      | Inr a \<Rightarrow> (None, h\<lparr>hsLn := Some a, hsReady := True\<rparr>))"

datatype httpEnd = ErrServerClosed | AcceptFailed string

definition httpServerServe :: "bool \<Rightarrow> string \<Rightarrow> httpEnd" where
  "httpServerServe shuttingDown acceptErr = (if shuttingDown then ErrServerClosed else AcceptFailed acceptErr)"

definition ServeReturn :: "string \<Rightarrow> http_error option" where
  "ServeReturn acceptErr =
     (case httpServerServe False acceptErr of
        ErrServerClosed \<Rightarrow> None
      | AcceptFailed err \<Rightarrow> Some (ErrAccept err))"

text \<open>The listener \<open>Close\<close> closes, if there is one yet.\<close>

definition HTTPClose :: "HTTPServer \<Rightarrow> string option" where
  "HTTPClose h = hsLn h"

section \<open>Authorization\<close>

record httpRequest =
  rqPath :: string
  rqIcgdKey :: string
  rqAuthorization :: string
  rqQueryKey :: string

datatype httpBody =
    PlainText string
  | Page
  | JStatus ServerSnapshot
  | JSessions "SessionSnapshot list"
  | JNotices "Notice list"
  | JMap "(string \<times> string) list"

record httpResponse =
  rpStatus :: nat
  rpHeaders :: "(string \<times> string) list"
  rpBody :: httpBody

text \<open>\<open>subtle.ConstantTimeCompare\<close>, with \<open>ConstantTimeByteEq\<close> as the library computes it.\<close>

definition ctByteEq :: "byte \<Rightarrow> byte \<Rightarrow> nat" where
  "ctByteEq x y = unat (drop_bit 31 ((ucast (x XOR y) :: u32) - 1))"

definition ctCompare :: "byte list \<Rightarrow> byte list \<Rightarrow> nat" where
  "ctCompare x y =
     (if length x \<noteq> length y then 0
      else ctByteEq (fold (\<lambda>(a, b) v. v OR (a XOR b)) (zip x y) 0) 0)"

definition presented :: "httpRequest \<Rightarrow> string" where
  "presented rq =
     (let got = rqIcgdKey rq;
          got = (if got = '''' then (case cutPrefix ''Bearer '' (rqAuthorization rq) of Some b \<Rightarrow> b | None \<Rightarrow> got) else got)
      in if got = '''' then rqQueryKey rq else got)"

definition unauthorized :: httpResponse where
  "unauthorized = \<lparr>rpStatus = 401,
     rpHeaders = [(''WWW-Authenticate'', ''Bearer realm=\"icgd\"''), (''Content-Type'', ''text/plain; charset=utf-8''),
                  (''X-Content-Type-Options'', ''nosniff'')],
     rpBody = PlainText (''{\"error\":\"unauthorized\"}'' @ [CHR 0x0A])\<rparr>"

definition auth :: "HTTPServer \<Rightarrow> (httpRequest \<Rightarrow> httpResponse) \<Rightarrow> httpRequest \<Rightarrow> httpResponse" where
  "auth h handler rq =
     (if ctCompare (strBytes (presented rq)) (strBytes (hsKey h)) \<noteq> 1 then unauthorized
      else handler rq)"

section \<open>Handlers\<close>

definition writeJSON :: "httpBody \<Rightarrow> httpResponse" where
  "writeJSON v = \<lparr>rpStatus = 200,
     rpHeaders = [(''Content-Type'', ''application/json; charset=utf-8''), (''Cache-Control'', ''no-store'')], rpBody = v\<rparr>"

definition handleStatus :: "ServerSnapshot \<Rightarrow> httpRequest \<Rightarrow> httpResponse" where
  "handleStatus snap rq = writeJSON (JStatus snap)"

definition handleSessions :: "ServerSnapshot \<Rightarrow> httpRequest \<Rightarrow> httpResponse" where
  "handleSessions snap rq = writeJSON (JSessions (vsSessions snap))"

definition handleNotices :: "Server \<Rightarrow> httpRequest \<Rightarrow> httpResponse" where
  "handleNotices srv rq = writeJSON (JNotices (noticeSnapshot (svNotices srv)))"

definition handleWhoami :: "httpRequest \<Rightarrow> httpResponse" where
  "handleWhoami rq = writeJSON (JMap [(''ok'', ''1'')])"

definition handleUI :: "httpRequest \<Rightarrow> httpResponse" where
  "handleUI rq =
     (if rqPath rq \<noteq> ''/''
      then \<lparr>rpStatus = 404, rpHeaders = [(''Content-Type'', ''text/plain; charset=utf-8''), (''X-Content-Type-Options'', ''nosniff'')],
             rpBody = PlainText (''404 page not found'' @ [CHR 0x0A])\<rparr>
      else \<lparr>rpStatus = 200, rpHeaders = [(''Content-Type'', ''text/html; charset=utf-8''), (''Cache-Control'', ''no-store'')],
             rpBody = Page\<rparr>)"

text \<open>The routes \<open>Serve\<close> registers: an exact path wins over the catch-all.\<close>

definition serveHTTP :: "HTTPServer \<Rightarrow> ServerSnapshot \<Rightarrow> Server \<Rightarrow> httpRequest \<Rightarrow> httpResponse" where
  "serveHTTP h snap srv rq =
     (if rqPath rq = ''/api/status'' then auth h (handleStatus snap) rq
      else if rqPath rq = ''/api/sessions'' then auth h (handleSessions snap) rq
      else if rqPath rq = ''/api/notices'' then auth h (handleNotices srv) rq
      else if rqPath rq = ''/api/whoami'' then auth h handleWhoami rq
      else handleUI rq)"

section \<open>Comparing keys\<close>

lemma ctByteEq_iff: "ctByteEq v 0 = 1 \<longleftrightarrow> v = 0"
proof (cases "v = 0")
  case True
  then show ?thesis by (simp add: ctByteEq_def unat_drop_bit_eq drop_bit_eq_div [where ?'a = nat])
next
  case False
  define n where "n = unat v"
  have "0 < n" "n < 256" using False byte_lt [of v] by (auto simp: n_def unat_gt_0)
  have "unat (ucast v :: u32) = n" by (simp add: n_def unsigned_ucast_eq take_bit_nat_eq_self_iff) (use \<open>n < 256\<close> n_def in auto)
  then have "unat ((ucast v :: u32) - 1) = n - 1" using \<open>0 < n\<close> by (simp add: unat_minus_one unat_gt_0 [symmetric])
  then have "unat (drop_bit 31 ((ucast v :: u32) - 1)) = (n - 1) div 2 ^ 31"
    by (simp only: unat_drop_bit_eq drop_bit_eq_div [where ?'a = nat])
  then show ?thesis using False \<open>n < 256\<close> by (simp add: ctByteEq_def)
qed

lemma ct_fold: "length x = length y \<Longrightarrow>
    fold (\<lambda>(a, b) v. v OR (a XOR b)) (zip x y) w = 0 \<longleftrightarrow> w = 0 \<and> x = (y :: byte list)"
proof (induction x y arbitrary: w rule: list_induct2)
  case (Cons a x b y)
  have "w OR (a XOR b) = 0 \<longleftrightarrow> w = 0 \<and> a = b"
    by (auto simp: bit_eq_iff bit_or_iff bit_xor_iff)
  then show ?case using Cons by auto
qed simp

lemma ctCompare_iff: "ctCompare x y = 1 \<longleftrightarrow> x = y"
  by (auto simp: ctCompare_def ctByteEq_iff ct_fold simp del: One_nat_def)

lemma auth_iff: "auth h handler rq = (if presented rq = hsKey h then handler rq else unauthorized)"
  by (simp add: auth_def ctCompare_iff strBytes_inject del: One_nat_def)

lemma sextets_not_Nil: "bs \<noteq> [] \<Longrightarrow> sextets bs \<noteq> []"
  by (subst sextets.simps) simp

lemma rawURLEncode_not_Nil: "b \<noteq> [] \<Longrightarrow> rawURLEncode b \<noteq> []"
  by (cases b) (simp_all add: rawURLEncode_def byteBits_def sextets_not_Nil)

lemma NewHTTP_key:
  assumes "NewHTTP cfg rnd = Inr (Some h)" and "\<And>b. rnd = Inr b \<Longrightarrow> length b = 24"
  shows "hsKey h \<noteq> ''''"
proof (cases "TrimSpace (hcKey cfg) = ''''")
  case True
  with assms(1) obtain b where b: "rnd = Inr b" "hsKey h = rawURLEncode b"
    by (auto simp: NewHTTP_def split: if_splits sum.splits)
  then have "b \<noteq> []" using assms(2) by force
  then show ?thesis using b rawURLEncode_not_Nil by simp
qed (use assms(1) in \<open>auto simp: NewHTTP_def split: if_splits\<close>)

lemma routes_need_key:
  "rqPath rq \<in> {''/api/status'', ''/api/sessions'', ''/api/notices'', ''/api/whoami''} \<Longrightarrow> presented rq \<noteq> hsKey h \<Longrightarrow>
     serveHTTP h snap srv rq = unauthorized"
  by (auto simp: serveHTTP_def auth_iff)

lemma other_routes:
  "rqPath rq \<notin> {''/api/status'', ''/api/sessions'', ''/api/notices'', ''/api/whoami''} \<Longrightarrow>
     serveHTTP h snap srv rq = handleUI rq"
  by (simp add: serveHTTP_def)

section \<open>Property\<close>

text \<open>
  C29: the status API tells nothing to a caller without the key. However the server was
  configured, its key is not empty, so a request without a credential is not let in; what a
  caller sees who does not present exactly the key is the same in every state of the
  concentrator, and every API path answers it 401; with the key the paths answer with the
  snapshot, the sessions and the notices.
\<close>

theorem api_needs_key:
  assumes "NewHTTP cfg rnd = Inr (Some h)" and "\<And>b. rnd = Inr b \<Longrightarrow> length b = 24"
  shows "hsKey h \<noteq> ''''
    \<and> (presented rq \<noteq> hsKey h \<longrightarrow> (\<forall>snap' srv'. serveHTTP h snap srv rq = serveHTTP h snap' srv' rq)
         \<and> (rqPath rq \<in> {''/api/status'', ''/api/sessions'', ''/api/notices'', ''/api/whoami''} \<longrightarrow>
              rpStatus (serveHTTP h snap srv rq) = 401))
    \<and> (presented rq = hsKey h \<longrightarrow>
         (rqPath rq = ''/api/status'' \<longrightarrow> rpBody (serveHTTP h snap srv rq) = JStatus snap)
         \<and> (rqPath rq = ''/api/sessions'' \<longrightarrow> rpBody (serveHTTP h snap srv rq) = JSessions (vsSessions snap))
         \<and> (rqPath rq = ''/api/notices'' \<longrightarrow>
              rpBody (serveHTTP h snap srv rq) = JNotices (noticeSnapshot (svNotices srv))))"
proof (intro conjI impI allI)
  show "hsKey h \<noteq> ''''" using assms by (rule NewHTTP_key)
next
  fix snap' srv'
  assume "presented rq \<noteq> hsKey h"
  then show "serveHTTP h snap srv rq = serveHTTP h snap' srv' rq"
    by (cases "rqPath rq \<in> {''/api/status'', ''/api/sessions'', ''/api/notices'', ''/api/whoami''}")
      (simp_all only: routes_need_key other_routes not_False_eq_True)
next
  assume "presented rq \<noteq> hsKey h" "rqPath rq \<in> {''/api/status'', ''/api/sessions'', ''/api/notices'', ''/api/whoami''}"
  then have "serveHTTP h snap srv rq = unauthorized" by (simp only: routes_need_key not_False_eq_True)
  then show "rpStatus (serveHTTP h snap srv rq) = 401" by (simp add: unauthorized_def)
qed (simp_all add: serveHTTP_def auth_iff handleStatus_def handleSessions_def handleNotices_def writeJSON_def)

lemma api_needs_key_witness:
  "let h = \<lparr>hsKey = ''secret'', hsAddr = ''127.0.0.1:10099'', hsLn = None, hsReady = False\<rparr>;
       rq = \<lparr>rqPath = ''/api/notices'', rqIcgdKey = '''', rqAuthorization = ''Bearer secret'', rqQueryKey = ''''\<rparr>
   in hsKey h \<noteq> '''' \<and> (\<forall>snap srv. rpBody (serveHTTP h snap srv rq) = JNotices (noticeSnapshot (svNotices srv)))"
proof -
  have "TrimSpace ''secret'' = ''secret''" by (rule TrimSpace_all) (simp_all add: graphic_def)
  then have n: "NewHTTP \<lparr>hcAddr = ''127.0.0.1:10099'', hcKey = ''secret''\<rparr> (Inl ''no entropy'')
      = Inr (Some \<lparr>hsKey = ''secret'', hsAddr = ''127.0.0.1:10099'', hsLn = None, hsReady = False\<rparr>)"
    by (simp add: NewHTTP_def)
  have p: "presented \<lparr>rqPath = ''/api/notices'', rqIcgdKey = '''', rqAuthorization = ''Bearer secret'', rqQueryKey = ''''\<rparr> = ''secret''"
    by (simp add: presented_def cutPrefix_def)
  show ?thesis
    using api_needs_key [OF n, of "\<lparr>rqPath = ''/api/notices'', rqIcgdKey = '''', rqAuthorization = ''Bearer secret'', rqQueryKey = ''''\<rparr>"] p
    by (simp add: Let_def)
qed

end
