(* ===== verification/Daemon.thy ===== *)
theory Daemon
  imports Http Session_Streams
begin

text \<open>
  \<open>cmd/icgd/main.go\<close>: the flags, the device allowlist, the API key, the guard on outgoing
  connections, and the configuration the server is started with. Reading a file is a
  function \<open>files\<close> from paths to an error or the contents; the dialler below the guard is an
  argument of \<open>guardDial\<close>. Logging is not modelled.
\<close>

section \<open>Egress guard\<close>

record egressGuard =
  egAllow :: "Prefix list"
  egDeny :: "Prefix list"

datatype guard_error = BadAllow string | BadDeny string

fun prefixesFrom :: "string list \<Rightarrow> string + Prefix list" where
  "prefixesFrom [] = Inr []"
| "prefixesFrom (s # ss) =
     (let t = TrimSpace s in
      if t = '''' then prefixesFrom ss
      else case ParsePrefix t of
             None \<Rightarrow> Inl t
           | Some p \<Rightarrow> (case prefixesFrom ss of Inl err \<Rightarrow> Inl err | Inr ps \<Rightarrow> Inr (p # ps)))"

definition parsePrefixes :: "string \<Rightarrow> string + Prefix list" where
  "parsePrefixes csv = prefixesFrom (splitOn (CHR '','') csv)"

definition newEgressGuard :: "string \<Rightarrow> string \<Rightarrow> guard_error + egressGuard" where
  "newEgressGuard allowCSV denyCSV =
     (case parsePrefixes allowCSV of
        Inl err \<Rightarrow> Inl (BadAllow err)
      | Inr al \<Rightarrow>
          (case parsePrefixes denyCSV of
             Inl err \<Rightarrow> Inl (BadDeny err)
           | Inr dn \<Rightarrow> Inr \<lparr>egAllow = al, egDeny = dn\<rparr>))"

datatype dial_error = ErrHostPort | ErrNonLiteral string | ErrDenied netAddr | ErrNotAllowed netAddr | ErrDial string

definition guardDial :: "egressGuard \<Rightarrow> (string \<Rightarrow> string \<Rightarrow> string + 'conn) \<Rightarrow> string \<Rightarrow> string \<Rightarrow> dial_error + 'conn" where
  "guardDial g dialer network addr =
     (case SplitHostPort addr of
        None \<Rightarrow> Inl ErrHostPort
      | Some (host, port) \<Rightarrow>
          (case ParseAddr host of
             None \<Rightarrow> Inl (ErrNonLiteral host)
           | Some ip \<Rightarrow>
               if list_ex (\<lambda>p. prefixContains p ip) (egDeny g) then Inl (ErrDenied ip)
               else if 0 < length (egAllow g) \<and> \<not> list_ex (\<lambda>p. prefixContains p ip) (egAllow g)
               then Inl (ErrNotAllowed ip)
               else (case dialer network addr of Inl err \<Rightarrow> Inl (ErrDial err) | Inr conn \<Rightarrow> Inr conn)))"

section \<open>Devices and the key\<close>

datatype devices_error = DevicesFile string | NotAMAC string | NoMACs

type_synonym files = "string \<Rightarrow> string + string"

text \<open>The entries before they are parsed: \<open>raw\<close> in \<open>loadDevices\<close>.\<close>

definition deviceEntries :: "files \<Rightarrow> string \<Rightarrow> string + string list" where
  "deviceEntries files spec =
     (case cutPrefix ''@'' spec of
        Some path \<Rightarrow>
          (case files path of
             Inl err \<Rightarrow> Inl err
           | Inr b \<Rightarrow> Inr (filter (\<lambda>line. line \<noteq> '''')
                         (map (\<lambda>line. TrimSpace (beforeChar (CHR ''#'') line)) (splitOn (CHR 0x0A) b))))
      | None \<Rightarrow> Inr (splitOn (CHR '','') spec))"

fun addDevices :: "string list \<Rightarrow> (string \<times> bool) list \<Rightarrow> devices_error + (string \<times> bool) list" where
  "addDevices [] out = Inr out"
| "addDevices (r # rs) out =
     (let r = TrimSpace r in
      if r = '''' then addDevices rs out
      else case ParseMAC r of
             None \<Rightarrow> Inl (NotAMAC r)
           | Some hw \<Rightarrow> addDevices rs (AList.update (toLower (macText hw)) True out))"

definition loadDevices :: "files \<Rightarrow> string \<Rightarrow> devices_error + (string \<times> bool) list" where
  "loadDevices files spec =
     (let spec = TrimSpace spec in
      if spec = '''' then Inr []
      else case deviceEntries files spec of
             Inl err \<Rightarrow> Inl (DevicesFile err)
           | Inr raw \<Rightarrow>
               (case addDevices raw [] of
                  Inl err \<Rightarrow> Inl err
                | Inr out \<Rightarrow> if length out = 0 then Inl NoMACs else Inr out))"

datatype secret_error = SecretFile string | SecretEmpty string

definition readSecret :: "files \<Rightarrow> string \<Rightarrow> secret_error + string" where
  "readSecret files spec =
     (case cutPrefix ''@'' spec of
        Some path \<Rightarrow>
          (case files path of
             Inl err \<Rightarrow> Inl (SecretFile err)
           | Inr b \<Rightarrow> let key = TrimSpace b in if key = '''' then Inl (SecretEmpty path) else Inr key)
      | None \<Rightarrow> Inr (TrimSpace spec))"

section \<open>Starting\<close>

record Flags =
  fgTCPAddr :: string
  fgUDPBase :: int
  fgUDPLegs :: int
  fgMagic :: string
  fgAllow :: string
  fgDeny :: string
  fgStats :: duration
  fgShowVer :: bool
  fgDevices :: string
  fgHTTPAddr :: string
  fgHTTPKey :: string

text \<open>The flags' defaults; \<open>fmt.Sprintf (\<open>%x\<close>, icg.DefaultMagic)\<close> prints 12345678.\<close>

definition defaultDeny :: string where "defaultDeny = ''127.0.0.0/8,169.254.0.0/16,::1/128''"

definition defaultFlags :: Flags where
  "defaultFlags = \<lparr>fgTCPAddr = '':10088'', fgUDPBase = 10000, fgUDPLegs = 4, fgMagic = ''12345678'', fgAllow = '''',
     fgDeny = defaultDeny, fgStats = 30 * Second, fgShowVer = False, fgDevices = '''',
     fgHTTPAddr = ''127.0.0.1:10099'', fgHTTPKey = ''''\<rparr>"

datatype fatal = BadMagic string | BadGuard guard_error | BadDevices devices_error | BadKey secret_error | BadHTTP http_error

record started =
  stConfig :: ServerConfig
  stGuard :: egressGuard
  stHTTP :: "HTTPServer option"
  stKeyPrinted :: bool
  stRollCall :: "duration option"

datatype icgd = PrintVersion | Fatal fatal | Running started

definition icgdConfig :: "string \<Rightarrow> Flags \<Rightarrow> u32 \<Rightarrow> (string \<times> bool) list \<Rightarrow> ServerConfig" where
  "icgdConfig version fg magic devs =
     \<lparr>cfMagic = magic, cfKeepaliveInterval = 0, cfAckInterval = 0,
      cfReorder = \<lparr>rcMaxPending = 0, rcRetransmitAfter = 0, rcSkipAfter = 0, rcSettle = 0\<rparr>,
      cfStashLimit = 0, cfMaxFlowsPerSession = 0, cfUDPFlowIdle = 0, cfStatsInterval = 0,
      cfAllowedDevices = devs, svTCPAddr = fgTCPAddr fg, svUDPBase = fgUDPBase fg, svUDPLegs = fgUDPLegs fg,
      svSessionIdle = 0, svVersion = version\<rparr>"

text \<open>\<open>main\<close> up to \<open>srv.Run\<close>, whose configuration is what \<open>concentrator.New\<close> makes of this one.\<close>

definition icgdMain :: "string \<Rightarrow> files \<Rightarrow> string + byte list \<Rightarrow> Flags \<Rightarrow> icgd" where
  "icgdMain version files rnd fg =
     (if fgShowVer fg then PrintVersion
      else case parseHex32 (fgMagic fg) of
        None \<Rightarrow> Fatal (BadMagic (fgMagic fg))
      | Some magic \<Rightarrow>
     (case newEgressGuard (fgAllow fg) (fgDeny fg) of
        Inl err \<Rightarrow> Fatal (BadGuard err)
      | Inr guard \<Rightarrow>
     (case loadDevices files (fgDevices fg) of
        Inl err \<Rightarrow> Fatal (BadDevices err)
      | Inr devs \<Rightarrow>
     (case readSecret files (fgHTTPKey fg) of
        Inl err \<Rightarrow> Fatal (BadKey err)
      | Inr secret \<Rightarrow>
     (case NewHTTP \<lparr>hcAddr = fgHTTPAddr fg, hcKey = secret\<rparr> rnd of
        Inl err \<Rightarrow> Fatal (BadHTTP err)
      | Inr obs \<Rightarrow>
          Running \<lparr>stConfig = setDefaults (icgdConfig version fg magic devs), stGuard = guard, stHTTP = obs,
                   stKeyPrinted = (obs \<noteq> None \<and> secret = ''''),
                   stRollCall = (if fgStats fg > 0 then Some (fgStats fg) else None)\<rparr>)))))"

text \<open>One tick of \<open>logStats\<close>: the roll-call lines, or none.\<close>

definition rollCall :: "instant \<Rightarrow> Server \<Rightarrow> (string \<times> duration \<times> u64) list" where
  "rollCall now srv =
     map (\<lambda>(k, b). (icgIDString (seTunIP (bxSess (svBox srv b))), IdleFor now (svBox srv b), bxDropped (svBox srv b)))
       (svSessions srv)"

section \<open>What the guard lets through\<close>

lemma guardDial_printed:
  "guardDial g dialer network (addrPortString a) =
     (if list_ex (\<lambda>p. prefixContains p (IP4 (apAddr a))) (egDeny g) then Inl (ErrDenied (IP4 (apAddr a)))
      else if egAllow g \<noteq> [] \<and> \<not> list_ex (\<lambda>p. prefixContains p (IP4 (apAddr a))) (egAllow g)
      then Inl (ErrNotAllowed (IP4 (apAddr a)))
      else (case dialer network (addrPortString a) of Inl err \<Rightarrow> Inl (ErrDial err) | Inr conn \<Rightarrow> Inr conn))"
  by (simp add: guardDial_def SplitHostPort_printed ParseAddr_dotted)

text \<open>A block of addresses: those that agree with its address in the first bits.\<close>

definition inBlock :: "u32 \<Rightarrow> u32 \<times> nat \<Rightarrow> bool" where
  "inBlock d b \<longleftrightarrow> unat d div 2 ^ (32 - snd b) = unat (fst b) div 2 ^ (32 - snd b)"

definition cidrList :: "(u32 \<times> nat) list \<Rightarrow> string" where
  "cidrList bs = joinWith (CHR '','') (map cidrText bs)"

lemma cidrText_not_Nil [simp]: "cidrText b \<noteq> []"
  by (simp add: cidrText_def)

lemma cidrText_no_comma: "CHR '','' \<notin> set (cidrText b)"
  using dotted_exclude [of "CHR '',''" "as4 (fst b)"] digits_exclude [of "CHR '',''" "snd b"]
  by (simp add: cidrText_def isDigit_def)

lemma prefixesFrom_Cons:
  "ParsePrefix t = Some p \<Longrightarrow> TrimSpace t = t \<Longrightarrow> t \<noteq> '''' \<Longrightarrow> prefixesFrom ts = Inr ps \<Longrightarrow> prefixesFrom (t # ts) = Inr (p # ps)"
  by simp

lemma prefixesFrom_cidr:
  "\<forall>b \<in> set bs. snd b \<le> 32 \<Longrightarrow> prefixesFrom (map cidrText bs) = Inr (map (\<lambda>b. Prefix (IP4 (fst b)) (snd b)) bs)"
proof (induction bs)
  case (Cons b bs)
  have "TrimSpace (cidrText b) = cidrText b" using cidrText_graphic by (intro TrimSpace_all) auto
  moreover have "ParsePrefix (cidrText b) = Some (Prefix (IP4 (fst b)) (snd b))"
    using ParsePrefix_cidr [of "snd b" "fst b"] Cons.prems by simp
  ultimately show ?case using Cons by simp
qed simp

lemma TrimSpace_Nil [simp]: "TrimSpace [] = []"
  by (simp add: TrimSpace_def trimWith.simps spaces_def cutPrefix_def)

lemma parsePrefixes_cidr:
  assumes "\<forall>b \<in> set bs. snd b \<le> 32"
  shows "parsePrefixes (cidrList bs) = Inr (map (\<lambda>b. Prefix (IP4 (fst b)) (snd b)) bs)"
proof (cases "bs = []")
  case True
  then show ?thesis by (simp add: parsePrefixes_def cidrList_def)
next
  case False
  then have "splitOn (CHR '','') (cidrList bs) = map cidrText bs"
    unfolding cidrList_def using cidrText_no_comma by (intro splitOn_join) auto
  then show ?thesis using prefixesFrom_cidr [OF assms] by (simp add: parsePrefixes_def)
qed

lemma newEgressGuard_cidr:
  assumes "\<forall>b \<in> set allow. snd b \<le> 32" and "\<forall>b \<in> set deny. snd b \<le> 32"
  shows "newEgressGuard (cidrList allow) (cidrList deny) =
    Inr \<lparr>egAllow = map (\<lambda>b. Prefix (IP4 (fst b)) (snd b)) allow, egDeny = map (\<lambda>b. Prefix (IP4 (fst b)) (snd b)) deny\<rparr>"
  using assms by (simp add: newEgressGuard_def parsePrefixes_cidr)

lemma inBlock_prefix: "prefixContains (Prefix (IP4 (fst b)) (snd b)) (IP4 d) = inBlock d b"
  by (simp only: prefixContains_block inBlock_def)

lemma list_ex_blocks:
  "list_ex (\<lambda>p. prefixContains p (IP4 d)) (map (\<lambda>b. Prefix (IP4 (fst b)) (snd b)) bs) = (\<exists>b \<in> set bs. inBlock d b)"
  by (simp add: list_ex_iff inBlock_prefix del: prefixContains.simps)

text \<open>
  C26: the guard does what its flags say. Written as comma-separated CIDR blocks, the two
  lists are read without error, and a connection to the address of a flow, printed as the
  session prints it, goes to the dialler exactly when no deny block holds the address and
  the allow list is empty or one of its blocks does; what the dialler then says is returned.
\<close>

theorem egress_guard_exact:
  assumes "\<forall>b \<in> set allow. snd b \<le> 32" and "\<forall>b \<in> set deny. snd b \<le> 32"
  shows "\<exists>g. newEgressGuard (cidrList allow) (cidrList deny) = Inr g
    \<and> guardDial g dialer network (addrPortString a) =
        (if \<exists>b \<in> set deny. inBlock (apAddr a) b then Inl (ErrDenied (IP4 (apAddr a)))
         else if allow \<noteq> [] \<and> \<not> (\<exists>b \<in> set allow. inBlock (apAddr a) b) then Inl (ErrNotAllowed (IP4 (apAddr a)))
         else case dialer network (addrPortString a) of Inl err \<Rightarrow> Inl (ErrDial err) | Inr conn \<Rightarrow> Inr conn)"
proof (rule exI, rule conjI)
  show "newEgressGuard (cidrList allow) (cidrList deny) =
    Inr \<lparr>egAllow = map (\<lambda>b. Prefix (IP4 (fst b)) (snd b)) allow, egDeny = map (\<lambda>b. Prefix (IP4 (fst b)) (snd b)) deny\<rparr>"
    using assms by (rule newEgressGuard_cidr)
qed (simp only: guardDial_printed egressGuard.select_convs list_ex_blocks map_is_Nil_conv)

lemma egress_guard_exact_witness:
  "\<exists>g. newEgressGuard (cidrList []) (cidrList [(0x0a000000, 8)]) = Inr g
     \<and> guardDial g (\<lambda>n a. Inr (7::nat)) ''tcp'' (addrPortString (AddrPort 0x0a090807 80)) = Inl (ErrDenied (IP4 0x0a090807))"
  using egress_guard_exact [of "[]" "[(0x0a000000, 8)]" "\<lambda>n a. Inr (7::nat)" "''tcp''" "AddrPort 0x0a090807 80"]
  by (simp add: inBlock_def)

lemma be128_zeros: "be128 (replicate n 0 @ bs) = be128 bs"
  by (induction n) (simp_all add: be128_def)

lemma ParsePrefix_loopback6: "ParsePrefix ''::1/128'' = Some (Prefix (IP6 1 []) 128)"
proof -
  have "be16 1 = [0, 1]" by (simp add: be16_def le16_def)
  then have "ip6Groups ''1'' [] (Some 0) = Some ([0, 1], Some 0)"
    by (subst ip6Groups.simps) (simp add: isHex_def hexVal_def hexNumber_def Let_def)
  moreover have "be128 (replicate 14 0 @ [0, 1]) = 1" unfolding be128_zeros by (simp add: be128_def)
  ultimately have "parseIPv6 ''::1'' = Some (IP6 1 [])"
    by (simp add: parseIPv6_def beforeChar_def ip6Finish_def Let_def)
  then show ?thesis
    by (simp add: ParsePrefix_def cutLast_def ParseAddr_def isDigit_def digitsValue_def)
qed

lemma default_guard:
  "newEgressGuard '''' defaultDeny =
     Inr \<lparr>egAllow = [], egDeny = [Prefix (IP4 0x7f000000) 8, Prefix (IP4 0xa9fe0000) 16, Prefix (IP6 1 []) 128]\<rparr>"
proof -
  have t: "TrimSpace ''127.0.0.0/8'' = ''127.0.0.0/8''" "TrimSpace ''169.254.0.0/16'' = ''169.254.0.0/16''" "TrimSpace ''::1/128'' = ''::1/128''"
    by (rule TrimSpace_all; simp add: graphic_def)+
  have p: "ParsePrefix ''127.0.0.0/8'' = Some (Prefix (IP4 0x7f000000) 8)"
    by (simp add: ParsePrefix_def cutLast_def ParseAddr_def isDigit_def digitsValue_def beU32_def)
  have q: "ParsePrefix ''169.254.0.0/16'' = Some (Prefix (IP4 0xa9fe0000) 16)"
    by (simp add: ParsePrefix_def cutLast_def ParseAddr_def isDigit_def digitsValue_def beU32_def)

  have s: "splitOn (CHR '','') defaultDeny = [''127.0.0.0/8'', ''169.254.0.0/16'', ''::1/128'']" by (simp add: defaultDeny_def)
  have f: "prefixesFrom [''::1/128''] = Inr [Prefix (IP6 1 []) 128]"
    by (rule prefixesFrom_Cons [OF ParsePrefix_loopback6 t(3)], simp, simp)
  have f: "prefixesFrom [''169.254.0.0/16'', ''::1/128''] = Inr [Prefix (IP4 0xa9fe0000) 16, Prefix (IP6 1 []) 128]"
    by (rule prefixesFrom_Cons [OF q t(2) _ f], simp)
  have f: "prefixesFrom [''127.0.0.0/8'', ''169.254.0.0/16'', ''::1/128'']
      = Inr [Prefix (IP4 0x7f000000) 8, Prefix (IP4 0xa9fe0000) 16, Prefix (IP6 1 []) 128]"
    by (rule prefixesFrom_Cons [OF p t(1) _ f], simp)
  have d: "parsePrefixes defaultDeny = Inr [Prefix (IP4 0x7f000000) 8, Prefix (IP4 0xa9fe0000) 16, Prefix (IP6 1 []) 128]"
    unfolding parsePrefixes_def s f by (rule refl)
  have e: "parsePrefixes '''' = Inr []" by (simp add: parsePrefixes_def)
  show ?thesis unfolding newEgressGuard_def d e by (simp only: sum.case)
qed

definition localDest :: "u32 \<Rightarrow> bool" where
  "localDest d \<longleftrightarrow> unat d div 2 ^ 24 = 127 \<or> unat d div 2 ^ 16 = 169 * 256 + 254"

lemma default_guard_dial:
  assumes "newEgressGuard '''' defaultDeny = Inr g"
  shows "guardDial g dialer network (addrPortString a) =
    (if localDest (apAddr a) then Inl (ErrDenied (IP4 (apAddr a)))
     else case dialer network (addrPortString a) of Inl err \<Rightarrow> Inl (ErrDial err) | Inr conn \<Rightarrow> Inr conn)"
proof -
  have g: "g = \<lparr>egAllow = [], egDeny = [Prefix (IP4 0x7f000000) 8, Prefix (IP4 0xa9fe0000) 16, Prefix (IP6 1 []) 128]\<rparr>"
    using assms by (simp add: default_guard)
  have "prefixContains (Prefix (IP4 0x7f000000) 8) (IP4 d) \<or> prefixContains (Prefix (IP4 0xa9fe0000) 16) (IP4 d) \<longleftrightarrow> localDest d" for d
    by (simp add: prefixContains_block localDest_def del: prefixContains.simps)
  then have "list_ex (\<lambda>p. prefixContains p (IP4 (apAddr a))) (egDeny g) = localDest (apAddr a)" "egAllow g = []"
    by (simp_all add: g del: prefixContains.simps(1))
  then show ?thesis by (simp add: guardDial_printed)
qed

text \<open>
  C27: the guard covers only TCP. Under the daemon's default flags a TCP flow to a loopback or
  link-local address is refused, whatever the dialler would say; a tunnelled UDP datagram to
  the same address is dialled and written all the same.
\<close>

theorem udp_escapes_guard:
  assumes "newEgressGuard '''' defaultDeny = Inr g" and "localDest (apAddr dst)"
    and "length data \<le> 65507" and "map_of (seUdpFlows s) (UdpKey src dst) = None"
    and "int (length (seUdpFlows s)) < cfMaxFlowsPerSession c" and "enDialOK e (seCalls s)"
  shows "guardDial g dialer ''tcp'' (addrPortString dst) = Inl (ErrDenied (IP4 (apAddr dst)))
    \<and> (\<exists>s'. deliverUDP c e (buildUDPPacket src dst ident 64 data) s = Ret s'
        \<and> seOut s' = seOut s @ [UdpDial (UdpKey src dst) True, UdpWrite (UdpKey src dst) data])"
proof
  show "guardDial g dialer ''tcp'' (addrPortString dst) = Inl (ErrDenied (IP4 (apAddr dst)))"
    by (simp add: default_guard_dial [OF assms(1)] assms(2))
  obtain p where p: "parseIPv4 (buildUDPPacket src dst ident 64 data) = Ret (Inr p)"
      "parseUDP p = Inr \<lparr>udSrc = src, udDst = dst, udData = data\<rparr>"
    using udp_packet_parses [OF assms(3) refl] by blast
  then have "ipProto p = protoUDP" by (simp add: parseUDP_def split: if_splits)
  then show "\<exists>s'. deliverUDP c e (buildUDPPacket src dst ident 64 data) s = Ret s'
        \<and> seOut s' = seOut s @ [UdpDial (UdpKey src dst) True, UdpWrite (UdpKey src dst) data]"
    using p assms(4-6) by (simp add: deliverUDP_def Let_def udpForward_def openUDPFlow_def)
qed

lemma udp_escapes_guard_witness:
  "\<exists>g s'. newEgressGuard '''' defaultDeny = Inr g
     \<and> guardDial g (\<lambda>n a. Inr (7::nat)) ''tcp'' (addrPortString (AddrPort 0x7f000001 53)) = Inl (ErrDenied (IP4 0x7f000001))
     \<and> deliverUDP exConfig exEnv (buildUDPPacket (AddrPort 0x0a000002 40000) (AddrPort 0x7f000001 53) 9 64 [1, 2]) exSession = Ret s'
     \<and> UdpWrite (UdpKey (AddrPort 0x0a000002 40000) (AddrPort 0x7f000001 53)) [1, 2] \<in> set (seOut s')"
proof -
  obtain g where g: "newEgressGuard '''' defaultDeny = Inr g" by (simp add: default_guard)
  have "localDest (apAddr (AddrPort 0x7f000001 53))" by (simp add: localDest_def)
  from udp_escapes_guard [OF g this, of "[1, 2]" exSession "AddrPort 0x0a000002 40000" exConfig exEnv "\<lambda>n a. Inr (7::nat)" 9]
  show ?thesis using g by (fastforce simp: exSession_def newSession_def exConfig_def exEnv_def)
qed

section \<open>Which devices are let in\<close>

lemma addDevices_lookup:
  "addDevices rs out = Inr al \<Longrightarrow>
     map_of al k = Some True \<longleftrightarrow> map_of out k = Some True \<or>
       (\<exists>r \<in> set rs. \<exists>hw. TrimSpace r \<noteq> '''' \<and> ParseMAC (TrimSpace r) = Some hw \<and> macText hw = k)"
proof (induction rs arbitrary: out)
  case (Cons r rs)
  then show ?case
    by (auto simp: Let_def toLower_macText AList.update_conv' split: if_splits option.splits)
qed simp

lemma ParseMAC_Nil [simp]: "ParseMAC [] = None"
  by (simp add: ParseMAC_def)

text \<open>
  C28: the allowlist admits exactly the devices it names. When the flag is read without error,
  a session whose handshake parsed to a six-byte address is admitted exactly if the flag is
  blank or one of its entries, trimmed, is a text of that address, in any of the notations
  the parser takes.
\<close>

theorem allowlist_exact:
  assumes "loadDevices files spec = Inr al" and "length (seClientMAC s) = 6"
  shows "fst (checkAdmission (c\<lparr>cfAllowedDevices := al\<rparr>) True s) \<longleftrightarrow>
    TrimSpace spec = '''' \<or>
    (\<exists>raw r. deviceEntries files (TrimSpace spec) = Inr raw \<and> r \<in> set raw \<and> ParseMAC (TrimSpace r) = Some (seClientMAC s))"
proof (cases "TrimSpace spec = ''''")
  case True
  then show ?thesis using assms by (simp add: loadDevices_def checkAdmission_def)
next
  case False
  then obtain raw where raw: "deviceEntries files (TrimSpace spec) = Inr raw" "addDevices raw [] = Inr al" "al \<noteq> []"
    using assms by (auto simp: loadDevices_def Let_def split: sum.splits if_splits)
  have "macText hw = macText (seClientMAC s) \<longleftrightarrow> hw = seClientMAC s" if "ParseMAC t = Some hw" for t hw
    using macText_inject [of hw "seClientMAC s"] ParseMAC_length [OF that] assms(2) by simp
  then have "map_of al (macText (seClientMAC s)) = Some True \<longleftrightarrow> (\<exists>r \<in> set raw. ParseMAC (TrimSpace r) = Some (seClientMAC s))"
    using addDevices_lookup [OF raw(2), of "macText (seClientMAC s)"] by fastforce
  then show ?thesis using raw False by (auto simp: checkAdmission_def)
qed

lemma allowlist_exact_witness:
  "let files = (\<lambda>p. Inr (''aa:bb:cc:00:01:02 # spare'' @ [CHR 0x0A]))
   in \<exists>al. loadDevices files ''@/etc/icgd'' = Inr al
     \<and> fst (checkAdmission (exConfig\<lparr>cfAllowedDevices := al\<rparr>) True (exSession\<lparr>seClientMAC := [0xaa, 0xbb, 0xcc, 0, 1, 2]\<rparr>))"
proof -
  let ?files = "\<lambda>p :: string. Inr (''aa:bb:cc:00:01:02 # spare'' @ [CHR 0x0A]) :: string + string"
  have t: "TrimSpace ''@/etc/icgd'' = ''@/etc/icgd''" "TrimSpace ''aa:bb:cc:00:01:02'' = ''aa:bb:cc:00:01:02''"
    by (rule TrimSpace_all; simp add: graphic_def)+
  have u: "TrimSpace ''aa:bb:cc:00:01:02 '' = ''aa:bb:cc:00:01:02''"
    by code_simp
  have e: "deviceEntries ?files ''@/etc/icgd'' = Inr [''aa:bb:cc:00:01:02'']"
    by (simp add: deviceEntries_def cutPrefix_def beforeChar_def u)
  have m: "ParseMAC ''aa:bb:cc:00:01:02'' = Some [0xaa, 0xbb, 0xcc, 0, 1, 2]"
    using ParseMAC_macText [of "[0xaa, 0xbb, 0xcc, 0, 1, 2]"] by (simp add: hexDigit_def)
  have l: "loadDevices ?files ''@/etc/icgd'' = Inr [(toLower (macText [0xaa, 0xbb, 0xcc, 0, 1, 2]), True)]"
    unfolding loadDevices_def t e Let_def by (simp add: t m)
  have n: "length (seClientMAC (exSession\<lparr>seClientMAC := [0xaa, 0xbb, 0xcc, 0, 1, 2]\<rparr>)) = 6" by simp
  have "\<exists>raw r. deviceEntries ?files (TrimSpace ''@/etc/icgd'') = Inr raw \<and> r \<in> set raw
      \<and> ParseMAC (TrimSpace r) = Some (seClientMAC (exSession\<lparr>seClientMAC := [0xaa, 0xbb, 0xcc, 0, 1, 2]\<rparr>))"
    unfolding t e by (rule exI [of _ "[''aa:bb:cc:00:01:02'']"], rule exI [of _ "''aa:bb:cc:00:01:02''"]) (simp add: t m)
  with allowlist_exact [OF l n, of exConfig] l show ?thesis unfolding Let_def by blast
qed

section \<open>The statistics flag\<close>

lemma icgdMain_runs:
  assumes "\<not> fgShowVer fg" and "parseHex32 (fgMagic fg) = Some magic" and "newEgressGuard (fgAllow fg) (fgDeny fg) = Inr guard"
    and "loadDevices files (fgDevices fg) = Inr devs" and "readSecret files (fgHTTPKey fg) = Inr secret"
    and "NewHTTP \<lparr>hcAddr = fgHTTPAddr fg, hcKey = secret\<rparr> rnd = Inr obs"
  shows "\<exists>st. icgdMain version files rnd fg = Running st \<and> stConfig st = setDefaults (icgdConfig version fg magic devs)
    \<and> stGuard st = guard \<and> stHTTP st = obs"
  using assms by (simp add: icgdMain_def)

lemma stats_Let:
  "cfStatsInterval x = 0 \<Longrightarrow> (\<And>d. cfStatsInterval d = 0 \<Longrightarrow> cfStatsInterval (F d) = r) \<Longrightarrow> cfStatsInterval (Let x F) = r"
  for F :: "'a Config_scheme \<Rightarrow> 'b Config_scheme"
  by (simp add: Let_def)

lemma setDefaults_stats: "cfStatsInterval c = 0 \<Longrightarrow> cfStatsInterval (setDefaults c) = 30 * Second"
  unfolding setDefaults_def by (intro stats_Let) simp_all

lemma icgdMain_Running:
  assumes "icgdMain version files rnd fg = Running st"
  obtains magic devs where "stConfig st = setDefaults (icgdConfig version fg magic devs)"
    and "stRollCall st = (if fgStats fg > 0 then Some (fgStats fg) else None)"
proof -
  from assms obtain magic where m: "\<not> fgShowVer fg" "parseHex32 (fgMagic fg) = Some magic"
    by (auto simp only: icgdMain_def icgd.distinct split: if_splits option.splits)
  obtain guard where g: "newEgressGuard (fgAllow fg) (fgDeny fg) = Inr guard"
    using assms m by (cases "newEgressGuard (fgAllow fg) (fgDeny fg)") (simp_all add: icgdMain_def)
  obtain devs where d: "loadDevices files (fgDevices fg) = Inr devs"
    using assms m g by (cases "loadDevices files (fgDevices fg)") (simp_all add: icgdMain_def)
  obtain secret where k: "readSecret files (fgHTTPKey fg) = Inr secret"
    using assms m g d by (cases "readSecret files (fgHTTPKey fg)") (simp_all add: icgdMain_def)
  obtain obs where h: "NewHTTP \<lparr>hcAddr = fgHTTPAddr fg, hcKey = secret\<rparr> rnd = Inr obs"
    using assms m g d k by (cases "NewHTTP \<lparr>hcAddr = fgHTTPAddr fg, hcKey = secret\<rparr> rnd") (simp_all add: icgdMain_def)
  have "st = \<lparr>stConfig = setDefaults (icgdConfig version fg magic devs), stGuard = guard, stHTTP = obs,
      stKeyPrinted = (obs \<noteq> None \<and> secret = ''''), stRollCall = (if fgStats fg > 0 then Some (fgStats fg) else None)\<rparr>"
    using assms m g d k h by (simp add: icgdMain_def)
  then show thesis by (intro that [of magic devs]) (simp_all only: started.simps)
qed

text \<open>
  The flag \<open>-stats\<close> does not reach the sessions. Whatever the flags are, if the daemon starts, its
  sessions log their counters every thirty seconds; the flag, documented to disable the
  per-session counters at 0, only sets the period of the roll-call.
\<close>

lemma stats_flag_ignored:
  assumes "icgdMain version files rnd fg = Running st"
  shows "cfStatsInterval (stConfig st) = 30 * Second
    \<and> stRollCall st = (if fgStats fg > 0 then Some (fgStats fg) else None)"
proof -
  obtain magic devs where st: "stConfig st = setDefaults (icgdConfig version fg magic devs)"
      "stRollCall st = (if fgStats fg > 0 then Some (fgStats fg) else None)"
    using assms by (rule icgdMain_Running)
  have "cfStatsInterval (setDefaults (icgdConfig version fg magic devs)) = 30 * Second"
    by (rule setDefaults_stats) (simp add: icgdConfig_def)
  then show ?thesis by (simp only: st conj_absorb simp_thms)
qed

end
