(* ===== verification/Blobcrypt.thy ===== *)
theory Blobcrypt
  imports Parsing
begin

text \<open>
  \<open>emu/blobcrypt/main.go\<close>: the container for an encrypted binary, and the tool around it. The
  cipher is the standard library's: PBKDF2, AES and GCM are arguments, and what the code
  relies on is \<open>gcm_contract\<close>: opening a sealed text gives the text back, a sealed text is
  sixteen bytes longer, and only sealed texts open. The random bytes are arguments too. The
  process has an environment variable, a standard input that can be read once, and files.
\<close>

section \<open>Format\<close>

definition blobMagic :: "byte list" where "blobMagic = strBytes ''ICGBLOB1''"
definition saltLen :: nat where "saltLen = 16"
definition nonceLen :: nat where "nonceLen = 12"
definition keyLen :: nat where "keyLen = 32"
definition iterCount :: nat where "iterCount = 600000"

record gcm =
  gcmSeal :: "byte list \<Rightarrow> byte list \<Rightarrow> byte list \<Rightarrow> byte list"
  gcmOpen :: "byte list \<Rightarrow> byte list \<Rightarrow> byte list \<Rightarrow> byte list option"

text \<open>The three steps of the library, each of which may fail.\<close>

record 'b crypto =
  crKDF :: "byte list \<Rightarrow> byte list \<Rightarrow> nat \<Rightarrow> nat \<Rightarrow> string + byte list"
  crAES :: "byte list \<Rightarrow> string + 'b"
  crGCM :: "'b \<Rightarrow> string + gcm"

datatype blob_error =
    ErrSalt string | ErrNonce string | ErrKDF string | ErrCipher string | ErrGCM string
  | ErrBadMagic | ErrTooShort | ErrOpen
  | ErrNoKey | ErrKeyRead string | ErrInput string | ErrOutput string | ErrKeygen string | ErrModes

definition aead :: "'b crypto \<Rightarrow> byte list \<Rightarrow> byte list \<Rightarrow> blob_error + gcm" where
  "aead cr key salt =
     (case crKDF cr key salt iterCount keyLen of
        Inl err \<Rightarrow> Inl (ErrKDF err)
      | Inr dk \<Rightarrow>
          (case crAES cr dk of
             Inl err \<Rightarrow> Inl (ErrCipher err)
           | Inr block \<Rightarrow> (case crGCM cr block of Inl err \<Rightarrow> Inl (ErrGCM err) | Inr g \<Rightarrow> Inr g)))"

definition encrypt :: "'b crypto \<Rightarrow> string + byte list \<Rightarrow> string + byte list \<Rightarrow> byte list \<Rightarrow> byte list \<Rightarrow> blob_error + byte list" where
  "encrypt cr rndSalt rndNonce key plaintext =
     (case rndSalt of
        Inl err \<Rightarrow> Inl (ErrSalt err)
      | Inr salt \<Rightarrow>
          (case rndNonce of
             Inl err \<Rightarrow> Inl (ErrNonce err)
           | Inr nonce \<Rightarrow>
               (case aead cr key salt of
                  Inl err \<Rightarrow> Inl err
                | Inr g \<Rightarrow> let header = blobMagic @ salt @ nonce in Inr (header @ gcmSeal g nonce plaintext header))))"

definition decrypt :: "'b crypto \<Rightarrow> byte list \<Rightarrow> byte list \<Rightarrow> blob_error + byte list" where
  "decrypt cr key blob =
     (if take (length blobMagic) blob \<noteq> blobMagic then Inl ErrBadMagic
      else let hdrLen = length blobMagic + saltLen + nonceLen in
        if length blob < hdrLen + 16 then Inl ErrTooShort
        else let salt = take saltLen (drop (length blobMagic) blob);
                 nonce = take nonceLen (drop (length blobMagic + saltLen) blob)
             in case aead cr key salt of
                  Inl err \<Rightarrow> Inl err
                | Inr g \<Rightarrow>
                    (case gcmOpen g nonce (drop hdrLen blob) (take hdrLen blob) of
                       None \<Rightarrow> Inl ErrOpen
                     | Some out \<Rightarrow> Inr out))"

section \<open>The tool\<close>

definition alpha64 :: string where
  "alpha64 = ''ABCDEFGHIJKLMNOPQRSTUVWXYZabcdefghijklmnopqrstuvwxyz0123456789-_''"

definition alphaAt :: "u32 \<Rightarrow> char" where
  "alphaAt n = alpha64 ! unat (n AND 63)"

function b64 :: "byte list \<Rightarrow> string" where
  "b64 b =
     (if b = [] then []
      else let rem = length b;
               n = push_bit 16 (ucast (b ! 0)) :: u32;
               n = (if rem > 1 then n OR push_bit 8 (ucast (b ! 1)) else n);
               n = (if rem > 2 then n OR ucast (b ! 2) else n)
           in [alphaAt (drop_bit 18 n), alphaAt (drop_bit 12 n)]
              @ (if rem > 1 then [alphaAt (drop_bit 6 n)] else [])
              @ (if rem > 2 then [alphaAt n] else [])
              @ b64 (drop 3 b))"
  by pat_completeness auto
termination by (relation "measure length") auto

declare b64.simps [simp del]

text \<open>\<open>readAll\<close> and \<open>readKey\<close> share the standard input, which the first of them empties.\<close>

record process =
  prKey :: string
  prStdin :: "string + byte list"
  prFiles :: "string \<Rightarrow> string + byte list"
  prWritten :: "(string \<times> byte list) list"

definition readStdin :: "process \<Rightarrow> (string + byte list) \<times> process" where
  "readStdin p = (prStdin p, p\<lparr>prStdin := (case prStdin p of Inl err \<Rightarrow> Inl err | Inr _ \<Rightarrow> Inr [])\<rparr>)"

definition bytesStr :: "byte list \<Rightarrow> string" where
  "bytesStr b = map (\<lambda>x. char_of (unat x)) b"

definition readKey :: "process \<Rightarrow> (blob_error + byte list) \<times> process" where
  "readKey p =
     (if prKey p \<noteq> '''' then (Inr (strBytes (TrimSpace (prKey p))), p)
      else case readStdin p of
             (Inl err, p) \<Rightarrow> (Inl (ErrKeyRead err), p)
           | (Inr b, p) \<Rightarrow>
               (let k = TrimSpace (bytesStr b) in
                if length k = 0 then (Inl ErrNoKey, p) else (Inr (strBytes k), p)))"

definition readAll :: "string \<Rightarrow> process \<Rightarrow> (string + byte list) \<times> process" where
  "readAll path p = (if path = '''' \<or> path = ''-'' then readStdin p else (prFiles p path, p))"

text \<open>\<open>writable\<close>: whether a write to the path succeeds; the empty path is the standard output.\<close>

definition writeAllTo :: "(string \<Rightarrow> string option) \<Rightarrow> string \<Rightarrow> byte list \<Rightarrow> process \<Rightarrow> string option \<times> process" where
  "writeAllTo writable path b p =
     (let target = (if path = '''' \<or> path = ''-'' then '''' else path) in
      case writable target of
        Some err \<Rightarrow> (Some err, p)
      | None \<Rightarrow> (None, p\<lparr>prWritten := prWritten p @ [(target, b)]\<rparr>))"

record blobFlags =
  bfEnc :: bool
  bfDec :: bool
  bfIn :: string
  bfOut :: string
  bfKeygen :: bool

definition blobMain :: "'b crypto \<Rightarrow> (nat \<Rightarrow> string + byte list) \<Rightarrow> (string \<Rightarrow> string option) \<Rightarrow> blobFlags \<Rightarrow> process
    \<Rightarrow> blob_error option \<times> process" where
  "blobMain cr rnd writable fl p =
     (if bfKeygen fl then
        (case rnd 32 of
           Inl err \<Rightarrow> (Some (ErrKeygen err), p)
         | Inr b \<Rightarrow> (None, p\<lparr>prWritten := prWritten p @ [('''', strBytes (b64 b @ [CHR 0x0A]))]\<rparr>))
      else if bfEnc fl = bfDec fl then (Some ErrModes, p)
      else case readKey p of
        (Inl err, p) \<Rightarrow> (Some err, p)
      | (Inr key, p) \<Rightarrow>
     (case readAll (bfIn fl) p of
        (Inl err, p) \<Rightarrow> (Some (ErrInput err), p)
      | (Inr data, p) \<Rightarrow>
     (case (if bfEnc fl then encrypt cr (rnd saltLen) (rnd nonceLen) key data else decrypt cr key data) of
        Inl err \<Rightarrow> (Some err, p)
      | Inr result \<Rightarrow>
     (case writeAllTo writable (bfOut fl) result p of
        (Some err, p) \<Rightarrow> (Some (ErrOutput err), p)
      | (None, p) \<Rightarrow> (None, p)))))"

section \<open>The container\<close>

definition gcm_contract :: "gcm \<Rightarrow> bool" where
  "gcm_contract g \<longleftrightarrow>
     (\<forall>nonce pt ad. length nonce = nonceLen \<longrightarrow>
        gcmOpen g nonce (gcmSeal g nonce pt ad) ad = Some pt \<and> length (gcmSeal g nonce pt ad) = length pt + 16)
     \<and> (\<forall>nonce ct ad pt. length nonce = nonceLen \<longrightarrow> gcmOpen g nonce ct ad = Some pt \<longrightarrow> ct = gcmSeal g nonce pt ad)"

lemma length_blobMagic [simp]: "length blobMagic = 8"
  by (simp add: blobMagic_def strBytes_def)

lemma split_blob:
  assumes "take 8 blob = blobMagic" and "36 \<le> length blob"
  shows "take 36 blob = blobMagic @ take 16 (drop 8 blob) @ take 12 (drop 24 blob)"
proof -
  have "take (8 + (16 + 12)) blob = take 8 blob @ take 16 (drop 8 blob) @ take 12 (drop 16 (drop 8 blob))"
    by (simp only: take_add)
  then show ?thesis using assms(1) by simp
qed

lemma aead_errors: "aead cr key salt \<noteq> Inl ErrBadMagic" "aead cr key salt \<noteq> Inl ErrTooShort"
  by (auto simp: aead_def split: sum.splits)

lemma decrypt_encrypt:
  assumes "aead cr key salt = Inr g" and "gcm_contract g" and "length salt = saltLen" and "length nonce = nonceLen"
  shows "decrypt cr key ((blobMagic @ salt @ nonce) @ gcmSeal g nonce plain (blobMagic @ salt @ nonce)) = Inr plain"
proof -
  have "length salt = 16" "length nonce = 12" using assms(3,4) by (simp_all add: saltLen_def nonceLen_def)
  moreover have "gcmOpen g nonce (gcmSeal g nonce plain ad) ad = Some plain \<and> length (gcmSeal g nonce plain ad) = length plain + 16" for ad
    using assms(2,4) by (simp add: gcm_contract_def)
  ultimately show ?thesis using assms(1) by (simp add: decrypt_def Let_def saltLen_def nonceLen_def)
qed

lemma encrypt_Inr:
  "encrypt cr (Inr salt) (Inr nonce) key plain = Inr blob \<longleftrightarrow>
     (\<exists>g. aead cr key salt = Inr g \<and> blob = (blobMagic @ salt @ nonce) @ gcmSeal g nonce plain (blobMagic @ salt @ nonce))"
  by (auto simp: encrypt_def Let_def split: sum.splits)

lemma decrypt_Inr:
  assumes "\<forall>salt g. aead cr key salt = Inr g \<longrightarrow> gcm_contract g"
    and "decrypt cr key blob = Inr plain"
  shows "encrypt cr (Inr (take 16 (drop 8 blob))) (Inr (take 12 (drop 24 blob))) key plain = Inr blob
    \<and> length (take 16 (drop 8 blob)) = saltLen \<and> length (take 12 (drop 24 blob)) = nonceLen"
proof -
  have d: "take 8 blob = blobMagic" "52 \<le> length blob"
    using assms(2) by (auto simp: decrypt_def saltLen_def nonceLen_def Let_def split: if_splits)
  then have l: "length (take 16 (drop 8 blob)) = saltLen" "length (take 12 (drop 24 blob)) = nonceLen"
    by (simp_all add: saltLen_def nonceLen_def)
  obtain g where g: "aead cr key (take 16 (drop 8 blob)) = Inr g"
      "gcmOpen g (take 12 (drop 24 blob)) (drop 36 blob) (take 36 blob) = Some plain"
    using assms(2) d by (auto simp: decrypt_def saltLen_def nonceLen_def Let_def split: if_splits sum.splits option.splits)
  then have "drop 36 blob = gcmSeal g (take 12 (drop 24 blob)) plain (take 36 blob)"
    using assms(1) l(2) by (fastforce simp: gcm_contract_def)
  moreover have "take 36 blob = blobMagic @ take 16 (drop 8 blob) @ take 12 (drop 24 blob)"
    using d by (intro split_blob) simp_all
  ultimately have "blob = (blobMagic @ take 16 (drop 8 blob) @ take 12 (drop 24 blob))
      @ gcmSeal g (take 12 (drop 24 blob)) plain (blobMagic @ take 16 (drop 8 blob) @ take 12 (drop 24 blob))"
    by (metis append_take_drop_id)
  then show ?thesis using g(1) l unfolding encrypt_Inr by blast
qed

text \<open>
  C30: a container opens to exactly what was put in. With a cipher that keeps its contract,
  \<open>decrypt\<close> gives a text if and only if the bytes are a result of \<open>encrypt\<close> for that text and
  key, with some salt and nonce; bytes with another beginning are reported as a bad magic, and
  bytes with the right beginning but no room for a tag as too short.
\<close>

theorem blob_exact:
  assumes "\<forall>salt g. aead cr key salt = Inr g \<longrightarrow> gcm_contract g"
  shows "(decrypt cr key blob = Inr plain \<longleftrightarrow>
      (\<exists>salt nonce. length salt = saltLen \<and> length nonce = nonceLen \<and> encrypt cr (Inr salt) (Inr nonce) key plain = Inr blob))
    \<and> (decrypt cr key blob = Inl ErrBadMagic \<longleftrightarrow> take 8 blob \<noteq> blobMagic)
    \<and> (decrypt cr key blob = Inl ErrTooShort \<longleftrightarrow> take 8 blob = blobMagic \<and> length blob < 52)"
proof (intro conjI)
  show "decrypt cr key blob = Inr plain \<longleftrightarrow>
      (\<exists>salt nonce. length salt = saltLen \<and> length nonce = nonceLen \<and> encrypt cr (Inr salt) (Inr nonce) key plain = Inr blob)"
    using decrypt_Inr [OF assms, where blob = blob and plain = plain] decrypt_encrypt [where cr = cr and key = key] assms unfolding encrypt_Inr by blast
  note e = aead_errors [of cr key "take 16 (drop 8 blob)"]
  show "decrypt cr key blob = Inl ErrBadMagic \<longleftrightarrow> take 8 blob \<noteq> blobMagic"
    using e by (auto simp: decrypt_def saltLen_def nonceLen_def Let_def split: sum.splits option.splits)
  show "decrypt cr key blob = Inl ErrTooShort \<longleftrightarrow> take 8 blob = blobMagic \<and> length blob < 52"
    using e by (auto simp: decrypt_def saltLen_def nonceLen_def Let_def split: sum.splits option.splits)
qed

text \<open>A cipher that keeps the contract: the text in clear, followed by a tag that names key and nonce.\<close>

definition clearSeal :: "byte list \<Rightarrow> byte list \<Rightarrow> byte list \<Rightarrow> byte list \<Rightarrow> byte list" where
  "clearSeal dk nonce pt ad = pt @ take 16 (dk @ replicate 16 0)"

definition clearGCM :: "byte list \<Rightarrow> gcm" where
  "clearGCM dk = \<lparr>gcmSeal = clearSeal dk,
     gcmOpen = (\<lambda>nonce ct ad. let pt = take (length ct - 16) ct in if ct = clearSeal dk nonce pt ad then Some pt else None)\<rparr>"

definition clearCrypto :: "byte list crypto" where
  "clearCrypto = \<lparr>crKDF = (\<lambda>key salt n len. Inr key), crAES = Inr, crGCM = (\<lambda>dk. Inr (clearGCM dk))\<rparr>"

lemma clear_contract: "gcm_contract (clearGCM dk)"
  by (auto simp: gcm_contract_def clearGCM_def clearSeal_def Let_def split: if_splits)

lemma clear_aead: "aead clearCrypto key salt = Inr (clearGCM key)"
  by (simp add: aead_def clearCrypto_def)

lemma blob_exact_witness:
  "\<exists>blob. encrypt clearCrypto (Inr (replicate 16 1)) (Inr (replicate 12 2)) [7] [0xca, 0xfe] = Inr blob
     \<and> decrypt clearCrypto [7] blob = Inr [0xca, 0xfe]"
proof -
  have c: "\<forall>salt g. aead clearCrypto [7] salt = Inr g \<longrightarrow> gcm_contract g" by (auto simp: clear_aead clear_contract)
  obtain blob where b: "encrypt clearCrypto (Inr (replicate 16 1)) (Inr (replicate 12 2)) [7] [0xca, 0xfe] = Inr blob"
    by (simp add: encrypt_def clear_aead Let_def)
  moreover have "length (replicate 16 (1::byte)) = saltLen" "length (replicate 12 (2::byte)) = nonceLen"
    by (simp_all add: saltLen_def nonceLen_def)
  ultimately have "decrypt clearCrypto [7] blob = Inr [0xca, 0xfe]" using blob_exact [OF c, where blob = blob and plain = "[0xca, 0xfe]"] by blast
  then show ?thesis using b by blast
qed

section \<open>The printed key\<close>

lemma foldl_bits: "foldl (\<lambda>a b. 2 * a + of_bool b) (0::nat) bs = horner_sum of_bool 2 (rev bs)"
  by (induction bs rule: rev_induct) simp_all

lemma six_bits:
  "foldl (\<lambda>a b. 2 * a + of_bool b) (0::nat) [bit n 5, bit n 4, bit n 3, bit n 2, bit n 1, bit n 0] = unat (n AND 63)" for n :: u32
proof -
  have m: "(63 :: u32) = mask 6" by (simp add: mask_eq_exp_minus_1)
  have "unat (take_bit 6 n) = horner_sum of_bool 2 (map (bit (unat n)) [0..<6])"
    by (simp only: unsigned_take_bit_eq horner_sum_bit_eq_take_bit)
  also have "map (bit (unat n)) [0..<6] = [bit n 0, bit n 1, bit n 2, bit n 3, bit n 4, bit n 5]"
    by (simp add: upt_rec bit_unsigned_iff numeral_eq_Suc)
  finally show ?thesis unfolding foldl_bits m take_bit_eq_mask by simp
qed

lemma byteBits_list: "byteBits b = [bit b 7, bit b 6, bit b 5, bit b 4, bit b 3, bit b 2, bit b 1, bit b 0]"
  by (simp add: byteBits_def upt_rec)

lemma byte_high_bit: "8 \<le> k \<Longrightarrow> \<not> bit (w :: byte) k"
  by (auto dest: bit_imp_le_length)

lemma sextets_six: "sextets (a # b # c # d # e # f # bs) = foldl (\<lambda>a b. 2 * a + of_bool b) 0 [a, b, c, d, e, f] # sextets bs"
  by (subst sextets.simps) (simp add: numeral_eq_Suc)

lemma sextets_four: "sextets [a, b, c, d] = [foldl (\<lambda>a b. 2 * a + of_bool b) 0 [a, b, c, d, False, False]]"
  by (subst sextets.simps) (simp add: numeral_eq_Suc sextets.simps [of "[]"])

lemma sextets_two: "sextets [a, b] = [foldl (\<lambda>a b. 2 * a + of_bool b) 0 [a, b, False, False, False, False]]"
  by (subst sextets.simps) (simp add: numeral_eq_Suc sextets.simps [of "[]"])

lemma sextets_Nil: "sextets [] = []"
  by (simp add: sextets.simps)

lemma alphaAt_bits:
  "alphaAt n = b64Alphabet ! foldl (\<lambda>a b. 2 * a + of_bool b) 0 [bit n 5, bit n 4, bit n 3, bit n 2, bit n 1, bit n 0]"
  unfolding six_bits by (simp add: alphaAt_def alpha64_def b64Alphabet_def)

lemmas word24 = bit_or_iff bit_push_bit_iff bit_drop_bit_eq bit_unsigned_iff byte_high_bit

lemma chunk_three:
  fixes a b c :: byte
  defines "n \<equiv> push_bit 16 (ucast a) OR push_bit 8 (ucast b) OR ucast c :: u32"
  shows "rawURLEncode (a # b # c # r) = [alphaAt (drop_bit 18 n), alphaAt (drop_bit 12 n), alphaAt (drop_bit 6 n), alphaAt n] @ rawURLEncode r"
  unfolding rawURLEncode_def n_def alphaAt_bits
  by (simp add: byteBits_list sextets_six word24 del: foldl_Cons)

lemma chunk_two:
  fixes a b :: byte
  defines "n \<equiv> push_bit 16 (ucast a) OR push_bit 8 (ucast b) :: u32"
  shows "rawURLEncode [a, b] = [alphaAt (drop_bit 18 n), alphaAt (drop_bit 12 n), alphaAt (drop_bit 6 n)]"
  unfolding rawURLEncode_def n_def alphaAt_bits
  by (simp add: byteBits_list sextets_six sextets_four word24 del: foldl_Cons)

lemma chunk_one:
  fixes a :: byte
  defines "n \<equiv> push_bit 16 (ucast a) :: u32"
  shows "rawURLEncode [a] = [alphaAt (drop_bit 18 n), alphaAt (drop_bit 12 n)]"
  unfolding rawURLEncode_def n_def alphaAt_bits
  by (simp add: byteBits_list sextets_six sextets_two word24 del: foldl_Cons)

text \<open>
  The hand-written encoder of \<open>-keygen\<close> is the standard URL-safe base64 without padding, for
  inputs of every length: its characters are the bits of the input in groups of six, the last
  filled up with zeros.
\<close>

lemma b64_is_base64: "b64 b = rawURLEncode b"
proof (induction b rule: b64.induct)
  case (1 b)
  consider "b = []" | x where "b = [x]" | x y where "b = [x, y]" | x y z r where "b = x # y # z # r"
    by (cases b; cases "tl b"; cases "tl (tl b)") auto
  then show ?case
  proof cases
    case 1
    then show ?thesis by (simp add: b64.simps rawURLEncode_def sextets_Nil)
  next
    case 2
    then show ?thesis by (subst b64.simps) (simp add: chunk_one Let_def b64.simps [of "[]"])
  next
    case 3
    then show ?thesis by (subst b64.simps) (simp add: chunk_two Let_def b64.simps [of "[]"])
  next
    case (4 x y z r)
    then have "b64 r = rawURLEncode r" using 1 by simp
    with 4 show ?thesis by (subst b64.simps) (simp add: chunk_three Let_def or.assoc)
  qed
qed


section \<open>Key and data from one input\<close>

text \<open>
  Without a key in the environment and without \<open>-in\<close>, encrypting loses the data. The whole
  standard input is read as the key, the data read after it is empty, and the tool reports
  success with a container that opens, under the input as its key, to the empty text.
\<close>

lemma stdin_swallowed:
  assumes "\<not> bfKeygen fl" and "bfEnc fl" and "\<not> bfDec fl" and "bfIn fl = ''''" and "bfOut fl = ''''"
    and "prKey p = ''''" and "prStdin p = Inr data" and "TrimSpace (bytesStr data) \<noteq> ''''"
    and "rnd saltLen = Inr salt" and "length salt = saltLen" and "rnd nonceLen = Inr nonce" and "length nonce = nonceLen"
    and "aead cr (strBytes (TrimSpace (bytesStr data))) salt = Inr g" and "gcm_contract g" and "writable '''' = None"
  shows "\<exists>blob p'. blobMain cr rnd writable fl p = (None, p') \<and> prWritten p' = prWritten p @ [('''', blob)]
    \<and> decrypt cr (strBytes (TrimSpace (bytesStr data))) blob = Inr []"
proof -
  let ?key = "strBytes (TrimSpace (bytesStr data))"
  let ?h = "blobMagic @ salt @ nonce"
  have "readKey p = (Inr ?key, p\<lparr>prStdin := Inr []\<rparr>)"
    using assms(6-8) by (simp add: readKey_def readStdin_def Let_def)
  moreover have "encrypt cr (rnd saltLen) (rnd nonceLen) ?key [] = Inr (?h @ gcmSeal g nonce [] ?h)"
    using assms(9,11,13) by (simp add: encrypt_def Let_def)
  ultimately have "\<exists>p'. blobMain cr rnd writable fl p = (None, p') \<and> prWritten p' = prWritten p @ [('''', ?h @ gcmSeal g nonce [] ?h)]"
    using assms(1-5,15) by (simp add: blobMain_def readAll_def readStdin_def writeAllTo_def)
  then show ?thesis using decrypt_encrypt [OF assms(13,14,10,12), of "[]"] by auto
qed

end
