(* ===== verification/Probe.thy ===== *)
theory Probe
  imports Complex_Main Client_Runs Parsing
begin

text \<open>
  \<open>cmd/icg-probe/main.go\<close>: the checks from \<open>client.New\<close> to the exit status, what they send
  through the client, and the verdicts; then the command line. \<open>url.Parse\<close>, the answers of
  the resolver, the frames heard in each phase, the clock readings and the final counters are
  arguments. Of a verdict only its name is kept. Megabits per second are exact quotients
  where the code has \<open>float64\<close>.
\<close>

section \<open>Verdicts\<close>

datatype verdict = Pass | Fail | Skip

record report =
  nPass :: int
  nFail :: int
  nSkip :: int
  verdicts :: "(verdict \<times> string) list"

definition noReport :: report where
  "noReport = \<lparr>nPass = 0, nFail = 0, nSkip = 0, verdicts = []\<rparr>"

definition pass :: "string \<Rightarrow> report \<Rightarrow> report" where
  "pass name rep = rep\<lparr>nPass := nPass rep + 1, verdicts := verdicts rep @ [(Pass, name)]\<rparr>"

definition failed :: "string \<Rightarrow> report \<Rightarrow> report" where
  "failed name rep = rep\<lparr>nFail := nFail rep + 1, verdicts := verdicts rep @ [(Fail, name)]\<rparr>"

definition skip :: "string \<Rightarrow> report \<Rightarrow> report" where
  "skip name rep = rep\<lparr>nSkip := nSkip rep + 1, verdicts := verdicts rep @ [(Skip, name)]\<rparr>"

section \<open>Requests and answers\<close>

record url =
  urScheme :: string
  urHostname :: string
  urPort :: string
  urRequestURI :: string

type_synonym resolver = "string \<Rightarrow> addr option list option"

definition crlf :: string where "crlf = [CHR 0x0D, CHR 0x0A]"

definition getRequest :: "url \<Rightarrow> string \<Rightarrow> string list \<Rightarrow> byte list" where
  "getRequest u agent extra =
     strBytes (''GET '' @ urRequestURI u @ '' HTTP/1.1'' @ crlf @ ''Host: '' @ urHostname u @ crlf @ ''User-Agent: '' @ agent @ crlf
       @ concat (map (\<lambda>h. h @ crlf) extra) @ ''Connection: close'' @ crlf @ crlf)"

text \<open>\<open>bytes.Contains\<close> and the first part of \<open>strings.Cut\<close>.\<close>

fun containsText :: "'a list \<Rightarrow> 'a list \<Rightarrow> bool" where
  "containsText p [] = (p = [])"
| "containsText p (x # xs) = (take (length p) (x # xs) = p \<or> containsText p xs)"

fun beforeText :: "'a list \<Rightarrow> 'a list \<Rightarrow> 'a list" where
  "beforeText p [] = []"
| "beforeText p (x # xs) = (if take (length p) (x # xs) = p then [] else x # beforeText p xs)"

definition headComplete :: "byte list \<Rightarrow> bool" where
  "headComplete b = containsText (strBytes (crlf @ crlf)) b"

definition statusLine :: "byte list \<Rightarrow> byte list" where
  "statusLine body = beforeText (strBytes crlf) body"

definition statusOK :: "byte list \<Rightarrow> bool" where
  "statusOK body = containsText (strBytes '' 200 '') (statusLine body)"

text \<open>The first IPv4 address; \<open>Sscanf\<close> of a port leaves 0 when it does not fit.\<close>

definition pickV4 :: "addr option list \<Rightarrow> addr option" where
  "pickV4 ips = (case filter (\<lambda>a. a \<noteq> None) ips of [] \<Rightarrow> None | a # _ \<Rightarrow> a)"

definition portOf :: "url \<Rightarrow> u16" where
  "portOf u =
     (let port = (if urPort u = '''' then ''80'' else urPort u);
          n = digitsValue port
      in if n < 2 ^ 16 then of_nat n else 0)"

section \<open>Fetching\<close>

definition probeFetch :: "(nat \<Rightarrow> bool) \<Rightarrow> resolver \<Rightarrow> url option \<Rightarrow> Received list \<Rightarrow> report \<Rightarrow> Client \<Rightarrow> (report \<times> Client) option" where
  "probeFetch ok dns u incoming rep cl =
     (let bad = failed ''data-path'' rep in
      case u of
        None \<Rightarrow> Some (bad, cl)
      | Some u \<Rightarrow>
          if urScheme u \<noteq> ''http'' then Some (bad, cl)
          else case dns (urHostname u) of
            None \<Rightarrow> Some (bad, cl)
          | Some ips \<Rightarrow>
          (case pickV4 ips of
             None \<Rightarrow> Some (bad, cl)
           | Some v4 \<Rightarrow>
          (case OpenFlow ok (AddrPort (beU32 [192, 168, 0, 245]) 54321) (AddrPort v4 (portOf u)) cl of
             (flow, Some err, cl) \<Rightarrow> Some (bad, cl)
           | (flow, None, cl) \<Rightarrow>
          (case flowWrite ok flow (getRequest u ''icg-probe'' []) 0 cl of
             (Some err, cl) \<Rightarrow> Some (bad, cl)
           | (None, cl) \<Rightarrow>
          (case CollectFlowData flow (Some headComplete) incoming of
             None \<Rightarrow> None
           | Some (body, Some err) \<Rightarrow> Some (bad, cl)
           | Some (body, None) \<Rightarrow>
               if take 7 (statusLine body) \<noteq> strBytes ''HTTP/1.'' then Some (bad, cl)
               else if \<not> statusOK body then Some (bad, cl)
               else Some (pass ''data-path'' rep, snd (flowClose ok flow cl)))))))"

section \<open>Striping\<close>

definition chunk :: nat where "chunk = 7"

function chunksOf :: "byte list \<Rightarrow> byte list list" where
  "chunksOf req = (if req = [] then [] else take chunk req # chunksOf (drop chunk req))"
  by pat_completeness auto
termination by (relation "measure length") (auto simp: chunk_def)

declare chunksOf.simps [simp del]

fun allocSeqs :: "nat \<Rightarrow> Client \<Rightarrow> u32 list \<times> Client" where
  "allocSeqs 0 cl = ([], cl)"
| "allocSeqs (Suc n) cl =
     (case NextTCPSeq cl of (q, cl) \<Rightarrow> (case allocSeqs n cl of (qs, cl) \<Rightarrow> (q # qs, cl)))"

text \<open>The loop from the last chunk to the first; the argument is one more than \<open>i\<close>.\<close>

fun writeBackwards :: "(nat \<Rightarrow> bool) \<Rightarrow> Flow \<Rightarrow> nat \<Rightarrow> u32 list \<Rightarrow> byte list list \<Rightarrow> nat \<Rightarrow> Client \<Rightarrow> client_error option \<times> Client" where
  "writeBackwards ok flow nLegs seqs chunks 0 cl = (None, cl)"
| "writeBackwards ok flow nLegs seqs chunks (Suc i) cl =
     (case WriteAt ok flow (seqs ! i) (chunks ! i) (int (i mod nLegs)) cl of
        (Some err, cl) \<Rightarrow> (Some err, cl)
      | (None, cl) \<Rightarrow> writeBackwards ok flow nLegs seqs chunks i cl)"

definition stripe :: "(nat \<Rightarrow> bool) \<Rightarrow> Flow \<Rightarrow> byte list \<Rightarrow> Client \<Rightarrow> client_error option \<times> Client" where
  "stripe ok flow req cl =
     (let chunks = chunksOf req in
      case allocSeqs (length chunks) cl of
        (seqs, cl) \<Rightarrow> writeBackwards ok flow (length (Legs ''tcp'' cl)) seqs chunks (length chunks) cl)"

text \<open>
  \<open>Panic\<close>: the URL is used without looking at the parse error, and the address without
  looking whether one was found; \<open>As4\<close> of no address panics when the flow is opened.
\<close>

definition probeStriping :: "(nat \<Rightarrow> bool) \<Rightarrow> resolver \<Rightarrow> url option \<Rightarrow> Received list \<Rightarrow> report \<Rightarrow> Client
    \<Rightarrow> (report \<times> Client) outcome option" where
  "probeStriping ok dns u incoming rep cl =
     (let bad = failed ''striping'' rep in
      case u of
        None \<Rightarrow> Some Panic
      | Some u \<Rightarrow>
          (case dns (urHostname u) of
             None \<Rightarrow> Some (Ret (skip ''striping'' rep, cl))
           | Some [] \<Rightarrow> Some (Ret (skip ''striping'' rep, cl))
           | Some (ip # ips) \<Rightarrow>
          (case pickV4 (ip # ips) of
             None \<Rightarrow> if Legs ''tcp'' cl = [] then Some (Ret (bad, snd (NextTCPSeq cl))) else Some Panic
           | Some v4 \<Rightarrow>
          (case OpenFlow ok (AddrPort (beU32 [192, 168, 0, 246]) 54322) (AddrPort v4 80) cl of
             (flow, Some err, cl) \<Rightarrow> Some (Ret (bad, cl))
           | (flow, None, cl) \<Rightarrow>
          (case stripe ok flow (getRequest u ''icg-probe-striped'' []) cl of
             (Some err, cl) \<Rightarrow> Some (Ret (bad, cl))
           | (None, cl) \<Rightarrow>
          (case CollectFlowData flow (Some headComplete) incoming of
             None \<Rightarrow> None
           | Some (body, Some err) \<Rightarrow> Some (Ret (bad, cl))
           | Some (body, None) \<Rightarrow>
               if \<not> statusOK body then Some (Ret (bad, cl))
               else Some (Ret (pass ''striping'' rep, snd (flowClose ok flow cl)))))))))"

section \<open>Throughput\<close>

definition mbitPerSec :: "int \<Rightarrow> duration \<Rightarrow> rat" where
  "mbitPerSec got elapsed = of_int (got * 8) / (of_int elapsed / of_int Second) / 1000000"

text \<open>No time at all is an infinite rate, as in floating point.\<close>

definition tooSlow :: "int \<Rightarrow> duration \<Rightarrow> rat \<Rightarrow> bool" where
  "tooSlow got elapsed minMbps \<longleftrightarrow> elapsed \<noteq> 0 \<and> mbitPerSec got elapsed < minMbps"

definition benchLabel :: "nat \<Rightarrow> nat \<Rightarrow> string" where
  "benchLabel r runs = (if 1 < runs then ''throughput-'' @ dec_digits r @ ''/'' @ dec_digits runs else ''throughput'')"

definition probeThroughput :: "(nat \<Rightarrow> bool) \<Rightarrow> resolver \<Rightarrow> url option \<Rightarrow> int \<Rightarrow> rat \<Rightarrow> instant \<Rightarrow> instant \<Rightarrow> nat \<Rightarrow> nat
    \<Rightarrow> Received list \<Rightarrow> report \<Rightarrow> Client \<Rightarrow> report \<times> Client" where
  "probeThroughput ok dns u wanted minMbps started finished r runs incoming rep cl =
     (let bad = failed ''throughput'' rep in
      case u of
        None \<Rightarrow> (bad, cl)
      | Some u \<Rightarrow>
          if urScheme u \<noteq> ''http'' then (bad, cl)
          else case dns (urHostname u) of
            None \<Rightarrow> (bad, cl)
          | Some ips \<Rightarrow>
          (case pickV4 ips of
             None \<Rightarrow> (bad, cl)
           | Some v4 \<Rightarrow>
          (case OpenFlow ok (AddrPort (beU32 [192, 168, 0, 247]) (of_nat (54322 + r))) (AddrPort v4 (portOf u)) cl of
             (flow, Some err, cl) \<Rightarrow> (bad, cl)
           | (flow, None, cl) \<Rightarrow>
               let closing = (\<lambda>rep cl. (rep, snd (flowClose ok flow cl))) in
               case flowWrite ok flow (getRequest u ''icg-probe'' [''Accept-Encoding: identity'']) 0 cl of
                 (Some err, cl) \<Rightarrow> closing bad cl
               | (None, cl) \<Rightarrow>
                   (case CountFlowData flow wanted incoming of
                      (got, Some err) \<Rightarrow> closing bad cl
                    | (got, None) \<Rightarrow>
                        if tooSlow got (timeSub finished started) minMbps then closing (failed (benchLabel r runs) rep) cl
                        else closing (pass (benchLabel r runs) rep) cl))))"

section \<open>All checks\<close>

text \<open>
  What the run was asked to do, and what it hears: the frames of each phase, the two clock
  readings of each round trip and each download, and the counters when they are read.
\<close>

record probeFlags =
  pfUDP :: bool
  pfTCPLegs :: int
  pfUDPLegs :: int
  pfFetch :: "url option option"
  pfBench :: "url option option"
  pfBenchLen :: int
  pfBenchMin :: rat
  pfBenchRuns :: nat

record heard =
  hdHello :: "Received list"
  hdDetect :: "Received list"
  hdRTT :: "nat \<Rightarrow> Received list"
  hdFetch :: "Received list"
  hdStripe :: "Received list"
  hdBench :: "nat \<Rightarrow> Received list"
  hdRTTClock :: "nat \<Rightarrow> instant \<times> instant"
  hdBenchClock :: "nat \<Rightarrow> instant \<times> instant"
  hdCumulativeAcks :: u64
  hdResyncs :: u64

definition isDetect :: "Received \<Rightarrow> bool" where
  "isDetect r \<longleftrightarrow> frType (rcFrame r) = TypeAck \<and> frOpcode (rcFrame r) = AckTunnelDetect"

fun keepaliveLegs :: "(nat \<Rightarrow> bool) \<Rightarrow> WanLeg list \<Rightarrow> report \<Rightarrow> Client \<Rightarrow> report \<times> Client" where
  "keepaliveLegs ok [] rep cl = (rep, cl)"
| "keepaliveLegs ok (l # ls) rep cl =
     (case Keepalive ok l cl of
        (Some err, cl) \<Rightarrow> keepaliveLegs ok ls (failed ''keepalive'' rep) cl
      | (None, cl) \<Rightarrow> keepaliveLegs ok ls rep cl)"

definition keepaliveCheck :: "(nat \<Rightarrow> bool) \<Rightarrow> Received list \<Rightarrow> report \<Rightarrow> Client \<Rightarrow> report \<times> Client" where
  "keepaliveCheck ok incoming rep cl =
     (case keepaliveLegs ok (Legs ''tcp'' cl) rep cl of
        (rep, cl) \<Rightarrow>
          ((case waitFor isDetect incoming of None \<Rightarrow> failed ''keepalive'' rep | Some r \<Rightarrow> pass ''keepalive'' rep), cl))"

fun rttLegs :: "(nat \<Rightarrow> bool) \<Rightarrow> heard \<Rightarrow> nat \<Rightarrow> WanLeg list \<Rightarrow> nat \<Rightarrow> report \<Rightarrow> Client \<Rightarrow> nat \<times> report \<times> Client" where
  "rttLegs ok h i [] okLegs rep cl = (okLegs, rep, cl)"
| "rttLegs ok h i (l # ls) okLegs rep cl =
     (case RTTSync ok (fst (hdRTTClock h i)) (snd (hdRTTClock h i)) (hdRTT h i) l (of_nat (0x1000 + i)) cl of
        (Inl err, cl) \<Rightarrow> rttLegs ok h (i + 1) ls okLegs (failed ''rtt-sync'' rep) cl
      | (Inr rtt, cl) \<Rightarrow> rttLegs ok h (i + 1) ls (okLegs + 1) rep cl)"

definition rttCheck :: "(nat \<Rightarrow> bool) \<Rightarrow> probeFlags \<Rightarrow> heard \<Rightarrow> report \<Rightarrow> Client \<Rightarrow> report \<times> Client" where
  "rttCheck ok fl h rep cl =
     (if \<not> pfUDP fl \<or> pfUDPLegs fl = 0 then (skip ''rtt-sync'' rep, cl)
      else case rttLegs ok h 0 (Legs ''udp'' cl) 0 rep cl of
        (okLegs, rep, cl) \<Rightarrow> (if 0 < okLegs then pass ''rtt-sync'' rep else rep, cl))"

definition fetchCheck :: "(nat \<Rightarrow> bool) \<Rightarrow> resolver \<Rightarrow> probeFlags \<Rightarrow> heard \<Rightarrow> report \<Rightarrow> Client \<Rightarrow> (report \<times> Client) option" where
  "fetchCheck ok dns fl h rep cl =
     (case pfFetch fl of
        None \<Rightarrow> Some (skip ''data-path'' rep, cl)
      | Some u \<Rightarrow> probeFetch ok dns u (hdFetch h) rep cl)"

definition stripeCheck :: "(nat \<Rightarrow> bool) \<Rightarrow> resolver \<Rightarrow> probeFlags \<Rightarrow> heard \<Rightarrow> report \<Rightarrow> Client \<Rightarrow> (report \<times> Client) outcome option" where
  "stripeCheck ok dns fl h rep cl =
     (case pfFetch fl of
        Some u \<Rightarrow> if pfTCPLegs fl > 1 then probeStriping ok dns u (hdStripe h) rep cl else Some (Ret (skip ''striping'' rep, cl))
      | None \<Rightarrow> Some (Ret (if pfTCPLegs fl \<le> 1 then skip ''striping'' rep else rep, cl)))"

fun benchRunsFrom :: "(nat \<Rightarrow> bool) \<Rightarrow> resolver \<Rightarrow> probeFlags \<Rightarrow> heard \<Rightarrow> url option \<Rightarrow> nat list \<Rightarrow> report \<Rightarrow> Client \<Rightarrow> report \<times> Client" where
  "benchRunsFrom ok dns fl h u [] rep cl = (rep, cl)"
| "benchRunsFrom ok dns fl h u (r # rs) rep cl =
     (case probeThroughput ok dns u (pfBenchLen fl) (pfBenchMin fl) (fst (hdBenchClock h r)) (snd (hdBenchClock h r))
             r (pfBenchRuns fl) (hdBench h r) rep cl of
        (rep, cl) \<Rightarrow> benchRunsFrom ok dns fl h u rs rep cl)"

definition benchCheck :: "(nat \<Rightarrow> bool) \<Rightarrow> resolver \<Rightarrow> probeFlags \<Rightarrow> heard \<Rightarrow> report \<Rightarrow> Client \<Rightarrow> report \<times> Client" where
  "benchCheck ok dns fl h rep cl =
     (case pfBench fl of
        None \<Rightarrow> (skip ''throughput'' rep, cl)
      | Some u \<Rightarrow> benchRunsFrom ok dns fl h u [1..<pfBenchRuns fl + 1] rep cl)"

definition countersCheck :: "heard \<Rightarrow> report \<Rightarrow> report" where
  "countersCheck h rep =
     (let rep = (if 0 < hdCumulativeAcks h then pass ''cumulative-ack'' rep else failed ''cumulative-ack'' rep)
      in if 0 < hdResyncs h then failed ''framing'' rep else pass ''framing'' rep)"

text \<open>
  From \<open>client.New\<close> on: the exit status and the report; \<open>None\<close> would be a run that does not end.
\<close>

definition probeMain :: "(nat \<Rightarrow> bool) \<Rightarrow> resolver \<Rightarrow> probeFlags \<Rightarrow> heard \<Rightarrow> ClientConfig \<Rightarrow> (nat \<times> report) outcome option" where
  "probeMain ok dns fl h cfg =
     (case Dial ok (newClient cfg) of
        (Some err, cl) \<Rightarrow> Some (Ret (1, failed ''connect'' noReport))
      | (None, cl) \<Rightarrow>
     (case Handshake ok (hdHello h) cl of
        (Some err, cl) \<Rightarrow> Some (Ret (1, failed ''handshake'' (pass ''connect'' noReport)))
      | (None, cl) \<Rightarrow>
     (case keepaliveCheck ok (hdDetect h) (pass ''handshake'' (pass ''connect'' noReport)) cl of
        (rep, cl) \<Rightarrow>
     (case rttCheck ok fl h rep cl of
        (rep, cl) \<Rightarrow>
     (case fetchCheck ok dns fl h rep cl of
        None \<Rightarrow> None
      | Some (rep, cl) \<Rightarrow>
     (case stripeCheck ok dns fl h rep cl of
        None \<Rightarrow> None
      | Some Panic \<Rightarrow> Some Panic
      | Some (Ret (rep, cl)) \<Rightarrow>
     (case benchCheck ok dns fl h rep cl of
        (rep, cl) \<Rightarrow>
          let rep = countersCheck h rep in Some (Ret (if nFail rep > 0 then 1 else 0, rep)))))))))"

section \<open>The command line\<close>

record probeArgs =
  paServer :: string
  paUDPAddr :: string
  paLegs :: int
  paUDPLegs :: int
  paMagic :: string
  paIcgID :: string
  paClientIP :: string
  paMAC :: string
  paFetch :: string
  paBench :: string
  paBenchLen :: int
  paBenchMin :: rat
  paBenchRuns :: int

definition defaultArgs :: probeArgs where
  "defaultArgs = \<lparr>paServer = '''', paUDPAddr = '''', paLegs = 2, paUDPLegs = 2, paMagic = ''12345678'',
     paIcgID = ''172.16.25.18'', paClientIP = ''172.16.25.19'', paMAC = ''02:00:5e:10:00:01'', paFetch = '''', paBench = '''',
     paBenchLen = 0, paBenchMin = 0, paBenchRuns = 1\<rparr>"

text \<open>The checks that end in \<open>os.Exit (2)\<close> before anything is parsed.\<close>

definition argsRefused :: "probeArgs \<Rightarrow> bool" where
  "argsRefused a \<longleftrightarrow> paServer a = '''' \<or> (paBench a \<noteq> '''' \<and> paBenchLen a \<le> 0) \<or> paBenchMin a < 0
     \<or> paBenchRuns a \<le> 0 \<or> paBenchRuns a > 10000"

definition probeConfig :: "probeArgs \<Rightarrow> addr option \<Rightarrow> addr option \<Rightarrow> byte list \<Rightarrow> u32 \<Rightarrow> ClientConfig" where
  "probeConfig a icg tun hw magic =
     \<lparr>ccTCPAddr = paServer a, ccUDPAddr = paUDPAddr a, ccTCPLegs = paLegs a, ccUDPLegs = paUDPLegs a,
      ccIcgID = icg, ccClientTunIP = tun, ccMAC = hw, ccMagic = magic\<rparr>"

text \<open>\<open>parseURL\<close> is \<open>url.Parse\<close>.\<close>

definition flagsOf :: "(string \<Rightarrow> url option) \<Rightarrow> probeArgs \<Rightarrow> probeFlags" where
  "flagsOf parseURL a =
     \<lparr>pfUDP = (paUDPAddr a \<noteq> ''''), pfTCPLegs = paLegs a, pfUDPLegs = paUDPLegs a,
      pfFetch = (if paFetch a = '''' then None else Some (parseURL (paFetch a))),
      pfBench = (if paBench a = '''' then None else Some (parseURL (paBench a))),
      pfBenchLen = paBenchLen a, pfBenchMin = paBenchMin a, pfBenchRuns = nat (paBenchRuns a)\<rparr>"

text \<open>
  \<open>As4\<close>: IPv4, also in its IPv6 form; it panics on any other address. With such an address
  the run comes as far as the body of the first handshake frame.
\<close>

definition as4Of :: "netAddr \<Rightarrow> addr option" where
  "as4Of ip = (case ip of
      IP4 a \<Rightarrow> Some a
    | IP6 v zone \<Rightarrow> if drop_bit 32 v = 0xffff then Some (ucast v) else None)"

definition probeNotV4 :: "(nat \<Rightarrow> bool) \<Rightarrow> ClientConfig \<Rightarrow> (nat \<times> report) outcome" where
  "probeNotV4 ok cfg =
     (case Dial ok (newClient cfg) of
        (Some err, cl) \<Rightarrow> Ret (1, failed ''connect'' noReport)
      | (None, cl) \<Rightarrow>
          if Legs ''tcp'' cl = [] then Ret (1, failed ''handshake'' (pass ''connect'' noReport)) else Panic)"

definition probeCommand :: "(nat \<Rightarrow> bool) \<Rightarrow> resolver \<Rightarrow> (string \<Rightarrow> url option) \<Rightarrow> heard \<Rightarrow> probeArgs
    \<Rightarrow> (nat \<times> report) outcome option" where
  "probeCommand ok dns parseURL h a =
     (if argsRefused a then Some (Ret (2, noReport))
      else case ScanHex32 (paMagic a) of
        None \<Rightarrow> Some (Ret (2, noReport))
      | Some magic \<Rightarrow>
     (case ParseMAC (paMAC a) of
        None \<Rightarrow> Some (Ret (2, noReport))
      | Some hw \<Rightarrow>
     (case ParseAddr (paIcgID a) of
        None \<Rightarrow> Some Panic
      | Some icg \<Rightarrow>
     (case ParseAddr (paClientIP a) of
        None \<Rightarrow> Some Panic
      | Some tun \<Rightarrow>
          let cfg = probeConfig a (as4Of icg) (as4Of tun) hw magic
          in if as4Of icg = None \<or> as4Of tun = None then Some (probeNotV4 ok cfg)
             else probeMain ok dns (flagsOf parseURL a) h cfg))))"

end
