(* ===== verification/Probe_Runs.thy ===== *)
theory Probe_Runs
  imports Probe
begin

text \<open>
  What a clean run of \<open>icg-probe\<close> proves, where it crashes, and what its striping check sends:
  frames that only a working reassembler turns back into the request.
\<close>

section \<open>What a clean run proves\<close>

lemma nFail_simps [simp]:
  "nFail (pass n rep) = nFail rep" "nFail (skip n rep) = nFail rep" "nFail (failed n rep) = nFail rep + 1" "nFail noReport = 0"
  by (simp_all add: pass_def skip_def failed_def noReport_def)

lemma clientSend_legs: "clientSend ok l f cl = (r, cl') \<Longrightarrow> clLegs cl' = clLegs cl"
  by (auto simp: clientSend_def askedOnce_def split: if_splits)

lemma Legs_cong: "clLegs cl' = clLegs cl \<Longrightarrow> Legs kind cl' = Legs kind cl"
  by (simp add: Legs_def)

lemma waitFor_hit: "waitFor P rs = Some r \<Longrightarrow> r \<in> set rs \<and> P r"
  by (induction rs) (auto split: if_splits)

lemma keepaliveLegs_run:
  "keepaliveLegs ok ls rep cl = (rep', cl') \<Longrightarrow> nFail rep \<le> nFail rep' \<and> clLegs cl' = clLegs cl"
proof (induction ls arbitrary: rep cl)
  case (Cons l ls)
  obtain e cl1 where k: "Keepalive ok l cl = (e, cl1)" by (cases "Keepalive ok l cl")
  then have "clLegs cl1 = clLegs cl" unfolding Keepalive_def by (rule clientSend_legs)
  then show ?case using Cons k by (cases e) (fastforce simp: k)+
qed simp

lemma keepaliveCheck_run:
  assumes "keepaliveCheck ok incoming rep cl = (rep', cl')"
  shows "nFail rep \<le> nFail rep' \<and> clLegs cl' = clLegs cl \<and> (nFail rep' \<le> nFail rep \<longrightarrow> (\<exists>r \<in> set incoming. isDetect r))"
proof -
  obtain rep1 where k: "keepaliveLegs ok (Legs ''tcp'' cl) rep cl = (rep1, cl')"
      and r: "rep' = (case waitFor isDetect incoming of None \<Rightarrow> failed ''keepalive'' rep1 | Some r \<Rightarrow> pass ''keepalive'' rep1)"
    using assms by (auto simp: keepaliveCheck_def split: prod.splits)
  show ?thesis using keepaliveLegs_run [OF k] r by (auto split: option.splits dest: waitFor_hit)
qed

definition rttOK :: "heard \<Rightarrow> nat \<Rightarrow> bool" where
  "rttOK h i \<longleftrightarrow> (\<exists>r \<in> set (hdRTT h i). \<exists>b. ParseRTTBody (frBody (rcFrame r)) = Inr b \<and> rbSeq b = of_nat (0x1000 + i)
     \<and> rbClientMS b = word_of_int (UnixMilli (fst (hdRTTClock h i))) \<and> rbServerMS b \<noteq> 0)"

lemma RTTSync_run:
  assumes "RTTSync ok t t' incoming l q cl = (res, cl')"
  shows "clLegs cl' = clLegs cl \<and> (\<forall>d. res = Inr d \<longrightarrow> (\<exists>r \<in> set incoming. \<exists>b. ParseRTTBody (frBody (rcFrame r)) = Inr b
    \<and> rbSeq b = q \<and> rbClientMS b = word_of_int (UnixMilli t) \<and> rbServerMS b \<noteq> 0))"
proof -
  let ?body = "\<lparr>rbSeq = q, rbClientMS = word_of_int (UnixMilli t), rbServerMS = 0, rbTrailer = [0x04, 0x01, 0x01, 0x00, 0x00]\<rparr>"
  obtain e cl1 where s: "clientSend ok l (upFrame TypeHandshake HSRTTSync (rttAppendTo ?body [])) cl = (e, cl1)"
    by (metis surj_pair)
  have l: "clLegs cl1 = clLegs cl" using s by (rule clientSend_legs)
  show ?thesis
  proof (cases e)
    case (Some err)
    then show ?thesis using assms s l by (auto simp: RTTSync_def)
  next
    case None
    show ?thesis
    proof (cases "waitFor (rttAnswers q) incoming")
      case n: None
      then show ?thesis using assms s l None by (auto simp: RTTSync_def)
    next
      case (Some r)
      then have r: "r \<in> set incoming" "rttAnswers q r" using waitFor_hit by blast+
      then obtain b where b: "ParseRTTBody (frBody (rcFrame r)) = Inr b" "rbSeq b = q"
        by (auto simp: rttAnswers_def split: if_splits sum.splits)
      obtain e2 cl2 where s2: "clientSend ok l (upFrame TypeHandshake HSRTTAck (frBody (rcFrame r))) cl1 = (e2, cl2)" by (metis surj_pair)
      have "clLegs cl2 = clLegs cl" using clientSend_legs [OF s2] l by simp
      then show ?thesis using assms s l None Some b r s2 by (auto simp: RTTSync_def Let_def split: if_splits)
    qed
  qed
qed

lemma rttLegs_run:
  "rttLegs ok h i ls n rep cl = (n', rep', cl') \<Longrightarrow> nFail rep \<le> nFail rep' \<and> clLegs cl' = clLegs cl
     \<and> (nFail rep' \<le> nFail rep \<longrightarrow> (\<forall>j < length ls. rttOK h (i + j)))"
proof (induction ls arbitrary: i n rep cl)
  case (Cons l ls)
  obtain res cl1 where r: "RTTSync ok (fst (hdRTTClock h i)) (snd (hdRTTClock h i)) (hdRTT h i) l (of_nat (0x1000 + i)) cl = (res, cl1)"
    by (metis surj_pair)
  note R = RTTSync_run [OF r]
  show ?case
  proof (cases res)
    case (Inl err)
    then have "rttLegs ok h (i + 1) ls n (failed ''rtt-sync'' rep) cl1 = (n', rep', cl')" using Cons.prems r by simp
    from Cons.IH [OF this] show ?thesis using R by auto
  next
    case (Inr d)
    then have "rttLegs ok h (i + 1) ls (n + 1) rep cl1 = (n', rep', cl')" using Cons.prems r by simp
    note I = Cons.IH [OF this]
    have "rttOK h i" using R Inr by (simp add: rttOK_def)
    have "nFail rep' \<le> nFail rep \<longrightarrow> (\<forall>j < length (l # ls). rttOK h (i + j))"
    proof (intro impI allI)
      fix j assume "nFail rep' \<le> nFail rep" "j < length (l # ls)"
      then show "rttOK h (i + j)" using I \<open>rttOK h i\<close> by (cases j) auto
    qed
    then show ?thesis using I R by simp
  qed
qed simp

lemma rttCheck_run:
  assumes "rttCheck ok fl h rep cl = (rep', cl')"
  shows "nFail rep \<le> nFail rep' \<and> clLegs cl' = clLegs cl
    \<and> (nFail rep' \<le> nFail rep \<longrightarrow> pfUDP fl \<longrightarrow> pfUDPLegs fl \<noteq> 0 \<longrightarrow> (\<forall>i < length (Legs ''udp'' cl). rttOK h i))"
proof (cases "\<not> pfUDP fl \<or> pfUDPLegs fl = 0")
  case True
  then show ?thesis using assms by (auto simp: rttCheck_def)
next
  case False
  obtain n rep1 cl1 where r: "rttLegs ok h 0 (Legs ''udp'' cl) 0 rep cl = (n, rep1, cl1)" by (metis surj_pair)
  then show ?thesis using assms False rttLegs_run [OF r] by (auto simp: rttCheck_def split: if_splits)
qed

text \<open>
  What the three checks on the data path are about: the flow each of them opens, to the first
  IPv4 address of the host, and what it wants to hear on it.
\<close>

definition resolved :: "resolver \<Rightarrow> url \<Rightarrow> addr \<Rightarrow> bool" where
  "resolved dns v v4 \<longleftrightarrow> (\<exists>ips. dns (urHostname v) = Some ips \<and> pickV4 ips = Some v4)"

definition probeFlow :: "u8 \<Rightarrow> u16 \<Rightarrow> addr \<Rightarrow> u16 \<Rightarrow> Flow" where
  "probeFlow host port v4 p = Flow (AddrPort (beU32 [192, 168, 0, host]) port) (AddrPort v4 p)"

definition fetched :: "resolver \<Rightarrow> heard \<Rightarrow> url option \<Rightarrow> bool" where
  "fetched dns h u \<longleftrightarrow> (\<exists>v v4 body. u = Some v \<and> urScheme v = ''http'' \<and> resolved dns v v4
     \<and> CollectFlowData (probeFlow 245 54321 v4 (portOf v)) (Some headComplete) (hdFetch h) = Some (body, None)
     \<and> take 7 (statusLine body) = strBytes ''HTTP/1.'' \<and> statusOK body)"

definition striped :: "resolver \<Rightarrow> heard \<Rightarrow> url option \<Rightarrow> bool" where
  "striped dns h u \<longleftrightarrow> (\<exists>v v4 body. u = Some v \<and> resolved dns v v4
     \<and> CollectFlowData (probeFlow 246 54322 v4 80) (Some headComplete) (hdStripe h) = Some (body, None) \<and> statusOK body)"

text \<open>A download: as many bytes as asked for, at the rate asked for, by the clock of the run.\<close>

definition downloaded :: "resolver \<Rightarrow> heard \<Rightarrow> url option \<Rightarrow> int \<Rightarrow> rat \<Rightarrow> nat \<Rightarrow> bool" where
  "downloaded dns h u wanted minMbps r \<longleftrightarrow> (\<exists>v v4 got. u = Some v \<and> urScheme v = ''http'' \<and> resolved dns v v4
     \<and> CountFlowData (probeFlow 247 (of_nat (54322 + r)) v4 (portOf v)) wanted (hdBench h r) = (got, None) \<and> wanted \<le> got
     \<and> (timeSub (snd (hdBenchClock h r)) (fst (hdBenchClock h r)) = 0
        \<or> minMbps \<le> mbitPerSec got (timeSub (snd (hdBenchClock h r)) (fst (hdBenchClock h r)))))"

lemma resolved_iff: "dns (urHostname v) = Some ips \<Longrightarrow> pickV4 ips = Some v4 \<Longrightarrow> resolved dns v w \<longleftrightarrow> w = v4"
  by (auto simp: resolved_def)

lemma OpenFlow_flow: "OpenFlow ok a b cl = (Flow a b, flowSend ok (Flow a b) (clTcpSeq cl) TCPConnect [] 0 (snd (NextTCPSeq cl)))"
  by (simp add: OpenFlow_def NextTCPSeq_def)

lemma probeFetch_run:
  assumes "probeFetch ok dns u (hdFetch h) rep cl = Some (rep', cl')"
  shows "nFail rep \<le> nFail rep' \<and> (nFail rep' \<le> nFail rep \<longrightarrow> fetched dns h u)"
proof -
  have no: ?thesis if "\<nexists>v ips v4. u = Some v \<and> urScheme v = ''http'' \<and> dns (urHostname v) = Some ips \<and> pickV4 ips = Some v4"
    using assms that by (auto simp: probeFetch_def Let_def split: option.splits if_splits)
  have yes: ?thesis if u: "u = Some v" "urScheme v = ''http''" "dns (urHostname v) = Some ips" "pickV4 ips = Some v4" for v ips v4
    using assms u resolved_iff [of dns v ips v4, OF u(3,4)] unfolding probeFetch_def Let_def OpenFlow_flow fetched_def probeFlow_def
    by (auto split: option.splits prod.splits if_splits)
  show ?thesis using no yes by blast
qed

lemma fetchCheck_run:
  assumes "fetchCheck ok dns fl h rep cl = Some (rep', cl')"
  shows "nFail rep \<le> nFail rep' \<and> (nFail rep' \<le> nFail rep \<longrightarrow> (\<forall>u. pfFetch fl = Some u \<longrightarrow> fetched dns h u))"
  using assms probeFetch_run [of ok dns _ h rep cl rep' cl']
  by (cases "pfFetch fl") (auto simp: fetchCheck_def)

text \<open>The striping check is skipped when the host does not resolve, which the fetch has ruled out.\<close>

lemma probeStriping_run:
  assumes "probeStriping ok dns u (hdStripe h) rep cl = Some (Ret (rep', cl'))"
  shows "nFail rep \<le> nFail rep' \<and> (nFail rep' \<le> nFail rep \<longrightarrow> fetched dns h u \<longrightarrow> striped dns h u)"
proof -
  have m: "nFail rep \<le> nFail rep'"
    using assms unfolding probeStriping_def Let_def by (auto split: option.splits prod.splits if_splits list.splits)
  have "striped dns h u" if n: "nFail rep' \<le> nFail rep" and f: "fetched dns h u"
  proof -
    obtain v ips v4 where u: "u = Some v" "dns (urHostname v) = Some ips" "pickV4 ips = Some v4"
      using f by (auto simp: fetched_def resolved_def)
    then obtain ip ips' where ips: "ips = ip # ips'" by (cases ips) (auto simp: pickV4_def)
    show ?thesis
      using assms n u resolved_iff [of dns v ips v4, OF u(2,3)] unfolding probeStriping_def Let_def OpenFlow_flow striped_def probeFlow_def ips
      by (auto split: option.splits prod.splits if_splits)
  qed
  with m show ?thesis by blast
qed

lemma stripeCheck_run:
  assumes "stripeCheck ok dns fl h rep cl = Some (Ret (rep', cl'))"
  shows "nFail rep \<le> nFail rep' \<and> (nFail rep' \<le> nFail rep \<longrightarrow> 1 < pfTCPLegs fl \<longrightarrow>
    (\<forall>u. pfFetch fl = Some u \<longrightarrow> fetched dns h u \<longrightarrow> striped dns h u))"
proof (cases "pfFetch fl")
  case (Some u)
  then show ?thesis
    using assms probeStriping_run [of ok dns u h rep cl rep' cl'] by (cases "1 < pfTCPLegs fl") (auto simp: stripeCheck_def)
qed (use assms in \<open>auto simp: stripeCheck_def split: if_splits\<close>)

lemma countLoop_enough: "countLoop flow wanted rs seen got cls = (n, None) \<Longrightarrow> wanted \<le> n"
  by (induction flow wanted rs seen got cls rule: countLoop.induct) (auto simp: Let_def split: option.splits if_splits)

lemma CountFlowData_enough: "CountFlowData flow wanted rs = (n, None) \<Longrightarrow> wanted \<le> n"
  by (auto simp: CountFlowData_def dest: countLoop_enough split: if_splits)

lemma probeThroughput_run:
  assumes "probeThroughput ok dns u n m (fst (hdBenchClock h r)) (snd (hdBenchClock h r)) r runs (hdBench h r) rep cl = (rep', cl')"
  shows "nFail rep \<le> nFail rep' \<and> (nFail rep' \<le> nFail rep \<longrightarrow> downloaded dns h u n m r)"
proof -
  have no: ?thesis if "\<nexists>v ips v4. u = Some v \<and> urScheme v = ''http'' \<and> dns (urHostname v) = Some ips \<and> pickV4 ips = Some v4"
    using assms that by (auto simp: probeThroughput_def Let_def split: option.splits if_splits)
  have yes: ?thesis if u: "u = Some v" "urScheme v = ''http''" "dns (urHostname v) = Some ips" "pickV4 ips = Some v4" for v ips v4
    using assms u resolved_iff [of dns v ips v4, OF u(3,4)] unfolding probeThroughput_def Let_def OpenFlow_flow downloaded_def probeFlow_def tooSlow_def
    by (auto split: option.splits prod.splits if_splits dest: CountFlowData_enough)
  show ?thesis using no yes by blast
qed

lemma benchRunsFrom_run:
  "benchRunsFrom ok dns fl h u rs rep cl = (rep', cl') \<Longrightarrow> nFail rep \<le> nFail rep'
     \<and> (nFail rep' \<le> nFail rep \<longrightarrow> (\<forall>r \<in> set rs. downloaded dns h u (pfBenchLen fl) (pfBenchMin fl) r))"
proof (induction rs arbitrary: rep cl)
  case (Cons r rs)
  obtain rep1 cl1 where t: "probeThroughput ok dns u (pfBenchLen fl) (pfBenchMin fl) (fst (hdBenchClock h r)) (snd (hdBenchClock h r))
      r (pfBenchRuns fl) (hdBench h r) rep cl = (rep1, cl1)"
    by (metis surj_pair)
  then have "benchRunsFrom ok dns fl h u rs rep1 cl1 = (rep', cl')" using Cons.prems by simp
  from Cons.IH [OF this] probeThroughput_run [OF t] show ?case by auto
qed simp

lemma benchCheck_run:
  "benchCheck ok dns fl h rep cl = (rep', cl') \<Longrightarrow> nFail rep \<le> nFail rep'
     \<and> (nFail rep' \<le> nFail rep \<longrightarrow> (\<forall>u. pfBench fl = Some u \<longrightarrow>
          (\<forall>r \<in> {1..pfBenchRuns fl}. downloaded dns h u (pfBenchLen fl) (pfBenchMin fl) r)))"
  unfolding benchCheck_def by (auto split: option.splits dest!: benchRunsFrom_run)

lemma countersCheck_run:
  "nFail rep \<le> nFail (countersCheck h rep) \<and> (nFail (countersCheck h rep) \<le> nFail rep \<longrightarrow> 0 < hdCumulativeAcks h \<and> hdResyncs h = 0)"
  by (auto simp: countersCheck_def Let_def word_gt_0)

lemma dialLegs_legs:
  "dialLegs ok kind loc ks cl = (None, cl') \<Longrightarrow>
     clLegs cl' = clLegs cl @ map (\<lambda>i. \<lparr>wlIndex = i, wlKind = kind, wlConn = loc i\<rparr>) ks \<and> clCfg cl' = clCfg cl"
  by (induction ok kind loc ks cl rule: dialLegs.induct) (auto simp: addLeg_def askedOnce_def split: if_splits)

lemma clientDefaults_udp: "ccUDPAddr (clientDefaults c) = ccUDPAddr c" "ccUDPLegs (clientDefaults c) = ccUDPLegs c"
  by (simp_all add: clientDefaults_def Let_def)

lemma Dial_udp:
  assumes "Dial ok (newClient cfg) = (None, cl)" and "ccUDPAddr cfg \<noteq> ''''" and "0 < ccUDPLegs cfg"
  shows "length (Legs ''udp'' cl) = nat (ccUDPLegs cfg)"
proof -
  let ?cl = "newClient cfg"
  obtain e cl1 where t: "dialLegs ok ''tcp'' (\<lambda>_. TCPEndpoint (ccTCPAddr (clCfg ?cl))) [0..<nat (ccTCPLegs (clCfg ?cl))] ?cl = (e, cl1)"
    by (metis surj_pair)
  have e: "e = None" using assms(1) t by (cases e) (auto simp: Dial_def)
  note d = dialLegs_legs [OF t [unfolded e]]
  have c: "clCfg cl1 = clientDefaults cfg" "clLegs ?cl = []" using d by (simp_all add: newClient_def)
  obtain host base where "dialLegs ok ''udp'' (\<lambda>i. UDPEndpoint host (base + int i)) [0..<nat (ccUDPLegs cfg)] cl1 = (None, cl)"
    using assms t e c(1) by (auto simp: Dial_def clientDefaults_udp split: option.splits prod.splits)
  from dialLegs_legs [OF this] d c(2) show ?thesis by (simp add: Legs_def comp_def)
qed

lemma sendEach_legs: "sendEach ok g i ls cl = (r, cl') \<Longrightarrow> clLegs cl' = clLegs cl"
  by (induction ok g i ls cl rule: sendEach.induct) (auto split: prod.splits option.splits dest: clientSend_legs)

lemma Handshake_run:
  assumes "Handshake ok incoming cl = (None, cl')"
  shows "clLegs cl' = clLegs cl \<and> Legs ''tcp'' cl \<noteq> [] \<and> (\<exists>r \<in> set incoming. isServerAck r)"
  using assms unfolding Handshake_def Let_def
  by (auto split: if_splits prod.splits option.splits dest!: sendEach_legs waitFor_hit)

lemma probeMain_zero:
  assumes "probeMain ok dns fl h cfg = Some (Ret (0, rep))"
  obtains cl cl1 rep1 cl2 rep2 cl3 rep3 cl4 rep4 cl5 rep5 cl6 where
    "Dial ok (newClient cfg) = (None, cl)" "Handshake ok (hdHello h) cl = (None, cl1)"
    "keepaliveCheck ok (hdDetect h) (pass ''handshake'' (pass ''connect'' noReport)) cl1 = (rep1, cl2)"
    "rttCheck ok fl h rep1 cl2 = (rep2, cl3)" "fetchCheck ok dns fl h rep2 cl3 = Some (rep3, cl4)"
    "stripeCheck ok dns fl h rep3 cl4 = Some (Ret (rep4, cl5))" "benchCheck ok dns fl h rep4 cl5 = (rep5, cl6)"
    "rep = countersCheck h rep5" "nFail rep \<le> 0"
  using assms unfolding probeMain_def Let_def
  by (auto split: prod.splits option.splits outcome.splits if_splits)

text \<open>A probe with two TCP legs, and a server that answers, for the concrete checks.\<close>

definition exProbeConfig :: ClientConfig where
  "exProbeConfig = \<lparr>ccTCPAddr = ''192.0.2.1:10088'', ccUDPAddr = [], ccTCPLegs = 2, ccUDPLegs = 0, ccIcgID = Some 0xac101912,
     ccClientTunIP = Some 0xac101913, ccMAC = [0x02, 0x00, 0x5e, 0x10, 0x00, 0x01], ccMagic = 0x12345678\<rparr>"

definition exAnswer :: "u8 \<Rightarrow> u8 \<Rightarrow> Received" where
  "exAnswer ty op = \<lparr>rcLeg = \<lparr>wlIndex = 0, wlKind = ''tcp'', wlConn = TCPEndpoint ''192.0.2.1:10088''\<rparr>,
     rcFrame = upFrame ty op [], rcAt = 9\<rparr>"

definition exHeard :: heard where
  "exHeard = \<lparr>hdHello = [exAnswer TypeHandshake HSServerAck], hdDetect = [exAnswer TypeAck AckTunnelDetect], hdRTT = (\<lambda>i. []),
     hdFetch = [], hdStripe = [], hdBench = (\<lambda>r. []), hdRTTClock = (\<lambda>i. (0, 0)), hdBenchClock = (\<lambda>r. (0, 0)),
     hdCumulativeAcks = 3, hdResyncs = 0\<rparr>"

lemma ex_dial:
  "\<exists>cl. Dial (\<lambda>_. True) (newClient exProbeConfig) = (None, cl) \<and> length (Legs ''tcp'' cl) = 2"
  by (simp add: Dial_def newClient_def clientDefaults_def exProbeConfig_def addLeg_def askedOnce_def Legs_def Let_def numeral_2_eq_2)

lemma sendEach_fine: "fst (sendEach (\<lambda>_. True) g i ls cl) = None"
  by (induction ls arbitrary: i cl) (simp_all add: clientSend_ok)

lemma ex_handshake:
  assumes "Legs ''tcp'' cl \<noteq> []"
  shows "\<exists>cl1. Handshake (\<lambda>_. True) (hdHello exHeard) cl = (None, cl1) \<and> clLegs cl1 = clLegs cl"
proof -
  have w: "waitFor isServerAck (hdHello exHeard) = Some (exAnswer TypeHandshake HSServerAck)"
    by (simp add: exHeard_def exAnswer_def isServerAck_def upFrame_def)
  obtain cl1 where a: "sendEach (\<lambda>_. True) (\<lambda>_. upFrame TypeHandshake HSReqWithConfig (handshakeReqBody cl)) 0 (Legs ''tcp'' cl) cl = (None, cl1)"
    using sendEach_fine by (metis prod.collapse)
  obtain cl2 where b: "sendEach (\<lambda>_. True) (\<lambda>i. upFrame TypeHandshake HSConfirmAck (FakePing (tunAddr cl1) (int i))) 0 (Legs ''tcp'' cl) cl1 = (None, cl2)"
    using sendEach_fine by (metis prod.collapse)
  have h: "Handshake (\<lambda>_. True) (hdHello exHeard) cl = (None, cl2)"
    unfolding Handshake_def Let_def using assms a b w by simp
  with Handshake_run [OF h] show ?thesis by blast
qed

lemma ex_keepalive: "fst (keepaliveCheck (\<lambda>_. True) (hdDetect exHeard) rep cl) = pass ''keepalive'' rep"
proof -
  have k: "fst (keepaliveLegs (\<lambda>_. True) ls rep cl) = rep" for ls cl
    by (induction ls arbitrary: cl) (simp_all add: Keepalive_def clientSend_ok)
  have "waitFor isDetect (hdDetect exHeard) = Some (exAnswer TypeAck AckTunnelDetect)"
    by (simp add: exHeard_def exAnswer_def isDetect_def upFrame_def)
  then show ?thesis using k [of "Legs ''tcp'' cl" cl] by (auto simp: keepaliveCheck_def split: prod.split)
qed

lemma probeMain_sound:
  assumes "probeMain ok dns fl h cfg = Some (Ret (0, rep))"
    and "pfUDP fl \<longleftrightarrow> ccUDPAddr cfg \<noteq> ''''" and "pfUDPLegs fl = ccUDPLegs cfg"
  shows "(\<exists>r \<in> set (hdHello h). isServerAck r) \<and> (\<exists>r \<in> set (hdDetect h). isDetect r)
    \<and> (pfUDP fl \<longrightarrow> (\<forall>i < nat (pfUDPLegs fl). rttOK h i))
    \<and> (\<forall>u. pfFetch fl = Some u \<longrightarrow> fetched dns h u \<and> (1 < pfTCPLegs fl \<longrightarrow> striped dns h u))
    \<and> (\<forall>u. pfBench fl = Some u \<longrightarrow> (\<forall>r \<in> {1..pfBenchRuns fl}. downloaded dns h u (pfBenchLen fl) (pfBenchMin fl) r))
    \<and> 0 < hdCumulativeAcks h \<and> hdResyncs h = 0"
proof -
  from assms(1) obtain cl cl1 rep1 cl2 rep2 cl3 rep3 cl4 rep4 cl5 rep5 cl6 where
    d: "Dial ok (newClient cfg) = (None, cl)" and hs: "Handshake ok (hdHello h) cl = (None, cl1)" and
    k: "keepaliveCheck ok (hdDetect h) (pass ''handshake'' (pass ''connect'' noReport)) cl1 = (rep1, cl2)" and
    r: "rttCheck ok fl h rep1 cl2 = (rep2, cl3)" and f: "fetchCheck ok dns fl h rep2 cl3 = Some (rep3, cl4)" and
    s: "stripeCheck ok dns fl h rep3 cl4 = Some (Ret (rep4, cl5))" and b: "benchCheck ok dns fl h rep4 cl5 = (rep5, cl6)" and
    z: "rep = countersCheck h rep5" "nFail rep \<le> 0"
    by (rule probeMain_zero)
  note K = keepaliveCheck_run [OF k, simplified] and R = rttCheck_run [OF r] and F = fetchCheck_run [OF f]
    and S = stripeCheck_run [OF s] and B = benchCheck_run [OF b] and C = countersCheck_run [of rep5 h]
  have n: "nFail rep1 \<le> 0" "nFail rep2 \<le> nFail rep1" "nFail rep3 \<le> nFail rep2" "nFail rep4 \<le> nFail rep3"
      "nFail rep5 \<le> nFail rep4" "nFail (countersCheck h rep5) \<le> nFail rep5"
    using K R F S B C z by auto
  have "Legs ''udp'' cl2 = Legs ''udp'' cl" using K Handshake_run [OF hs] by (intro Legs_cong) simp
  then have "pfUDP fl \<longrightarrow> 0 < pfUDPLegs fl \<longrightarrow> length (Legs ''udp'' cl2) = nat (pfUDPLegs fl)"
    using Dial_udp [OF d] assms(2,3) by simp
  then have u: "pfUDP fl \<longrightarrow> (\<forall>i < nat (pfUDPLegs fl). rttOK h i)"
    using R n(2) by (cases "0 < pfUDPLegs fl") auto
  show ?thesis
  proof (intro conjI)
    show "\<exists>r \<in> set (hdHello h). isServerAck r" using Handshake_run [OF hs] by blast
    show "\<exists>r \<in> set (hdDetect h). isDetect r" using K n(1) by blast
    show "\<forall>u. pfFetch fl = Some u \<longrightarrow> fetched dns h u \<and> (1 < pfTCPLegs fl \<longrightarrow> striped dns h u)" using F S n(3,4) by blast
    show "\<forall>u. pfBench fl = Some u \<longrightarrow> (\<forall>r \<in> {1..pfBenchRuns fl}. downloaded dns h u (pfBenchLen fl) (pfBenchMin fl) r)"
      using B n(5) by blast
  qed (use u C n(6) in auto)
qed

lemma probeCommand_zero:
  assumes "probeCommand ok dns parseURL h a = Some (Ret (0, rep))"
  obtains cfg where "probeMain ok dns (flagsOf parseURL a) h cfg = Some (Ret (0, rep))"
    and "ccUDPAddr cfg = paUDPAddr a" and "ccUDPLegs cfg = paUDPLegs a" and "paServer a \<noteq> ''''"
proof -
  have "probeNotV4 ok cfg \<noteq> Ret (0, rep)" for cfg
    by (auto simp: probeNotV4_def split: prod.splits option.splits if_splits)
  then show thesis
    using assms that unfolding probeCommand_def Let_def
    by (auto simp: argsRefused_def probeConfig_def split: if_splits option.splits)
qed

text \<open>
  C32: a clean run of the probe means what it says. If the exit status is 0 then a server was
  named and, in the frames the probe heard, a handshake acknowledgement came back, a
  tunnel-detect answered the keepalives, and every UDP leg asked for was sent an answer to its
  own probe with our time unchanged and a time of the server's. The fetch, when one was asked
  for, was of an \<open>http\<close> URL whose host has an IPv4 address, and gathered on its own flow an
  HTTP answer with status 200; with two or more legs the striped request got, on its own flow,
  an answer with status 200 too. Every download asked for brought at least the bytes asked for
  on the flow of that run, at the rate asked for or more. Cumulative acknowledgements arrived,
  and no stream lost its framing.
\<close>

theorem probe_sound:
  assumes "probeCommand ok dns parseURL h a = Some (Ret (0, rep))"
  shows "paServer a \<noteq> '''' \<and> (\<exists>r \<in> set (hdHello h). isServerAck r) \<and> (\<exists>r \<in> set (hdDetect h). isDetect r)
    \<and> (paUDPAddr a \<noteq> '''' \<longrightarrow> (\<forall>i < nat (paUDPLegs a). rttOK h i))
    \<and> (paFetch a \<noteq> '''' \<longrightarrow> fetched dns h (parseURL (paFetch a)))
    \<and> (paFetch a \<noteq> '''' \<and> 1 < paLegs a \<longrightarrow> striped dns h (parseURL (paFetch a)))
    \<and> (paBench a \<noteq> '''' \<longrightarrow> (\<forall>r \<in> {1..nat (paBenchRuns a)}. downloaded dns h (parseURL (paBench a)) (paBenchLen a) (paBenchMin a) r))
    \<and> 0 < hdCumulativeAcks h \<and> hdResyncs h = 0"
proof -
  obtain cfg where cfg: "probeMain ok dns (flagsOf parseURL a) h cfg = Some (Ret (0, rep))"
    "ccUDPAddr cfg = paUDPAddr a" "ccUDPLegs cfg = paUDPLegs a" "paServer a \<noteq> ''''"
    using assms by (rule probeCommand_zero)
  have f: "pfUDP (flagsOf parseURL a) = (paUDPAddr a \<noteq> '''')" "pfUDPLegs (flagsOf parseURL a) = paUDPLegs a"
    "pfTCPLegs (flagsOf parseURL a) = paLegs a"
    "pfFetch (flagsOf parseURL a) = (if paFetch a = '''' then None else Some (parseURL (paFetch a)))"
    "pfBench (flagsOf parseURL a) = (if paBench a = '''' then None else Some (parseURL (paBench a)))"
    "pfBenchLen (flagsOf parseURL a) = paBenchLen a" "pfBenchMin (flagsOf parseURL a) = paBenchMin a"
    "pfBenchRuns (flagsOf parseURL a) = nat (paBenchRuns a)"
    by (simp_all add: flagsOf_def)
  from probeMain_sound [OF cfg(1)] show ?thesis unfolding f cfg(2,3) using cfg(4) by simp
qed

text \<open>A host, what it answers on a flow, and a run in which it answers all three checks.\<close>

definition exURL :: url where
  "exURL = \<lparr>urScheme = ''http'', urHostname = ''example'', urPort = '''', urRequestURI = ''/''\<rparr>"

definition exResolver :: resolver where
  "exResolver host = Some [Some 0xc0000250]"

definition exPage :: "byte list" where
  "exPage = strBytes (''HTTP/1.1 200 OK'' @ crlf @ crlf)"

definition exReply :: "Flow \<Rightarrow> Received" where
  "exReply flow = \<lparr>rcLeg = \<lparr>wlIndex = 0, wlKind = ''tcp'', wlConn = TCPEndpoint ''192.0.2.1:10088''\<rparr>,
     rcFrame = upFrame TypeTCPDown 0 (tcpAppendTo \<lparr>tbSeq = 7, tbOpcode = TCPPayload, tbSrc = flServer flow, tbDst = flClient flow, tbData = exPage\<rparr> []),
     rcAt = 9\<rparr>"

definition exServes :: heard where
  "exServes = exHeard\<lparr>hdFetch := [exReply (probeFlow 245 54321 0xc0000250 80)], hdStripe := [exReply (probeFlow 246 54322 0xc0000250 80)],
     hdBench := (\<lambda>r. [exReply (probeFlow 247 54323 0xc0000250 80)]), hdBenchClock := (\<lambda>r. (0, 1000))\<rparr>"

lemma exServes_detect: "hdDetect exServes = hdDetect exHeard" by (simp add: exServes_def)

lemma exServes_rest: "hdBenchClock exServes r = (0, 1000)" "hdCumulativeAcks exServes = 3" "hdResyncs exServes = 0"
  by (simp_all add: exServes_def exHeard_def)

lemma exPage_fields: "headComplete exPage" "take 7 (statusLine exPage) = strBytes ''HTTP/1.''" "statusOK exPage" "length exPage = 19"
  by (simp_all add: exPage_def crlf_def strBytes_def headComplete_def statusOK_def statusLine_def)

lemma flowBody_exReply:
  "flowBody flow (exReply flow) = Some \<lparr>tbSeq = 7, tbOpcode = TCPPayload, tbSrc = flServer flow, tbDst = flClient flow, tbData = exPage\<rparr>"
  by (cases flow) (simp add: flowBody_def exReply_def upFrame_def ParseTCPBody_append)

lemma exReply_heard:
  "CollectFlowData flow (Some headComplete) [exReply flow] = Some (exPage, None)"
  "0 < n \<Longrightarrow> n \<le> 19 \<Longrightarrow> CountFlowData flow n [exReply flow] = (19, None)"
  by (simp_all add: CollectFlowData_def CountFlowData_def flowBody_exReply exPage_fields assemble_def lowestHeld_def joinFrom.simps Let_def)

lemma allocSeqs_run:
  "allocSeqs n cl = (map (\<lambda>i. clTcpSeq cl + of_nat i) [0..<n], cl\<lparr>clTcpSeq := clTcpSeq cl + of_nat n\<rparr>)"
proof (induction n arbitrary: cl)
  case (Suc n)
  have "map (\<lambda>i. clTcpSeq cl + of_nat i) [0..<Suc n] = clTcpSeq cl # map (\<lambda>i. clTcpSeq cl + 1 + of_nat i) [0..<n]"
    by (simp add: upt_conv_Cons map_Suc_upt [symmetric] comp_def add.assoc del: upt_Suc)
  then show ?case by (simp add: NextTCPSeq_def Suc add.assoc del: upt_Suc)
qed simp

lemma Legs_nonempty_cong: "clLegs cl' = clLegs cl \<Longrightarrow> Legs kind cl \<noteq> [] \<Longrightarrow> Legs kind cl' \<noteq> []"
  by (simp add: Legs_def)

lemma send_fine:
  "Legs ''tcp'' cl \<noteq> [] \<Longrightarrow> \<exists>cl'. flowSend (\<lambda>_. True) flow q opc d i cl = (None, cl') \<and> clLegs cl' = clLegs cl"
  using flowSend_ok [of cl flow q opc d i] by fastforce

lemma writeBackwards_fine:
  "Legs ''tcp'' cl \<noteq> [] \<Longrightarrow> \<exists>cl'. writeBackwards (\<lambda>_. True) flow m qs ds n cl = (None, cl') \<and> clLegs cl' = clLegs cl"
proof (induction n arbitrary: cl)
  case (Suc n)
  obtain cl1 where w: "WriteAt (\<lambda>_. True) flow (qs ! n) (ds ! n) (int (n mod m)) cl = (None, cl1)" "clLegs cl1 = clLegs cl"
    using send_fine [OF Suc.prems] unfolding WriteAt_def by blast
  with Suc.IH [OF Legs_nonempty_cong [OF w(2) Suc.prems]] show ?case by auto
qed simp

lemma flow_calls_fine:
  assumes "Legs ''tcp'' cl \<noteq> []"
  shows "\<exists>cl'. flowSend (\<lambda>_. True) flow q opc d i (snd (NextTCPSeq cl)) = (None, cl') \<and> clLegs cl' = clLegs cl"
    and "\<exists>cl'. flowWrite (\<lambda>_. True) flow d i cl = (None, cl') \<and> clLegs cl' = clLegs cl"
    and "clLegs (snd (flowClose (\<lambda>_. True) flow cl)) = clLegs cl"
    and "\<exists>cl'. stripe (\<lambda>_. True) flow d cl = (None, cl') \<and> clLegs cl' = clLegs cl"
proof -
  have next1: "clLegs (snd (NextTCPSeq cl)) = clLegs cl" by (simp add: NextTCPSeq_def)
  have s: "\<exists>cl'. flowSend (\<lambda>_. True) flow q opc d i (snd (NextTCPSeq cl)) = (None, cl') \<and> clLegs cl' = clLegs cl" for q opc d i
    using send_fine [OF Legs_nonempty_cong [OF next1 assms], of flow q opc d i] unfolding next1 .
  show "\<exists>cl'. flowSend (\<lambda>_. True) flow q opc d i (snd (NextTCPSeq cl)) = (None, cl') \<and> clLegs cl' = clLegs cl" by (rule s)
  show "\<exists>cl'. flowWrite (\<lambda>_. True) flow d i cl = (None, cl') \<and> clLegs cl' = clLegs cl"
    using s [of "clTcpSeq cl" TCPPayload d i] by (simp add: flowWrite_def NextTCPSeq_def)
  obtain cl1 where "flowSend (\<lambda>_. True) flow (clTcpSeq cl) TCPDisconnect [] 0 (snd (NextTCPSeq cl)) = (None, cl1)" "clLegs cl1 = clLegs cl"
    using s by blast
  then show "clLegs (snd (flowClose (\<lambda>_. True) flow cl)) = clLegs cl" by (simp add: flowClose_def NextTCPSeq_def)
  obtain qs cl2 where q: "allocSeqs (length (chunksOf d)) cl = (qs, cl2)" by (metis surj_pair)
  then have l: "clLegs cl2 = clLegs cl" by (auto simp: allocSeqs_run)
  show "\<exists>cl'. stripe (\<lambda>_. True) flow d cl = (None, cl') \<and> clLegs cl' = clLegs cl"
    using writeBackwards_fine [OF Legs_nonempty_cong [OF l assms]] by (simp add: stripe_def q l Let_def)
qed

lemma ex_checks:
  assumes "Legs ''tcp'' cl \<noteq> []"
  shows "\<exists>cl'. probeFetch (\<lambda>_. True) exResolver (Some exURL) (hdFetch exServes) rep cl = Some (pass ''data-path'' rep, cl') \<and> clLegs cl' = clLegs cl"
    and "\<exists>cl'. probeStriping (\<lambda>_. True) exResolver (Some exURL) (hdStripe exServes) rep cl = Some (Ret (pass ''striping'' rep, cl')) \<and> clLegs cl' = clLegs cl"
    and "\<exists>cl'. probeThroughput (\<lambda>_. True) exResolver (Some exURL) 19 (1 / 10) 0 1000 1 1 (hdBench exServes 1) rep cl = (pass ''throughput'' rep, cl')"
proof -
  have dns: "exResolver host = Some [Some 0xc0000250]" "pickV4 [Some 0xc0000250] = Some 0xc0000250" for host
    by (simp_all add: exResolver_def pickV4_def)
  have url: "urScheme exURL = ''http''" "portOf exURL = 80" by (simp_all add: exURL_def portOf_def digitsValue_def)
  have open_fine: "\<exists>cl1. OpenFlow (\<lambda>_. True) a b cl = (Flow a b, None, cl1) \<and> clLegs cl1 = clLegs cl" for a b
    using flow_calls_fine(1) [OF assms] unfolding OpenFlow_flow by fastforce
  show "\<exists>cl'. probeFetch (\<lambda>_. True) exResolver (Some exURL) (hdFetch exServes) rep cl = Some (pass ''data-path'' rep, cl') \<and> clLegs cl' = clLegs cl"
  proof -
    obtain cl1 where 1: "OpenFlow (\<lambda>_. True) (AddrPort (beU32 [192, 168, 0, 245]) 54321) (AddrPort 0xc0000250 80) cl
        = (probeFlow 245 54321 0xc0000250 80, None, cl1)" "clLegs cl1 = clLegs cl"
      using open_fine unfolding probeFlow_def by blast
    note l1 = Legs_nonempty_cong [OF 1(2) assms]
    obtain cl2 where 2: "flowWrite (\<lambda>_. True) (probeFlow 245 54321 0xc0000250 80) (getRequest exURL ''icg-probe'' []) 0 cl1 = (None, cl2)"
        "clLegs cl2 = clLegs cl1"
      using flow_calls_fine(2) [OF l1] by blast
    show ?thesis
      using flow_calls_fine(3) [OF Legs_nonempty_cong [OF 2(2) l1]]
      by (simp add: probeFetch_def dns url 1 2 exServes_def exReply_heard exPage_fields)
  qed
  show "\<exists>cl'. probeStriping (\<lambda>_. True) exResolver (Some exURL) (hdStripe exServes) rep cl = Some (Ret (pass ''striping'' rep, cl')) \<and> clLegs cl' = clLegs cl"
  proof -
    obtain cl1 where 1: "OpenFlow (\<lambda>_. True) (AddrPort (beU32 [192, 168, 0, 246]) 54322) (AddrPort 0xc0000250 80) cl
        = (probeFlow 246 54322 0xc0000250 80, None, cl1)" "clLegs cl1 = clLegs cl"
      using open_fine unfolding probeFlow_def by blast
    note l1 = Legs_nonempty_cong [OF 1(2) assms]
    obtain cl2 where 2: "stripe (\<lambda>_. True) (probeFlow 246 54322 0xc0000250 80) (getRequest exURL ''icg-probe-striped'' []) cl1 = (None, cl2)"
        "clLegs cl2 = clLegs cl1"
      using flow_calls_fine(4) [OF l1] by blast
    show ?thesis
      using flow_calls_fine(3) [OF Legs_nonempty_cong [OF 2(2) l1]]
      by (simp add: probeStriping_def dns 1 2 exServes_def exReply_heard exPage_fields)
  qed
  show "\<exists>cl'. probeThroughput (\<lambda>_. True) exResolver (Some exURL) 19 (1 / 10) 0 1000 1 1 (hdBench exServes 1) rep cl = (pass ''throughput'' rep, cl')"
  proof -
    obtain cl1 where 1: "OpenFlow (\<lambda>_. True) (AddrPort (beU32 [192, 168, 0, 247]) 54323) (AddrPort 0xc0000250 80) cl
        = (probeFlow 247 54323 0xc0000250 80, None, cl1)" "clLegs cl1 = clLegs cl"
      using open_fine unfolding probeFlow_def by blast
    obtain cl2 where 2: "flowWrite (\<lambda>_. True) (probeFlow 247 54323 0xc0000250 80) (getRequest exURL ''icg-probe'' [''Accept-Encoding: identity'']) 0 cl1
        = (None, cl2)"
      using flow_calls_fine(2) [OF Legs_nonempty_cong [OF 1(2) assms]] by blast
    show ?thesis
      by (simp add: probeThroughput_def dns url 1 2 exServes_def exReply_heard tooSlow_def mbitPerSec_def timeSub_def Second_def benchLabel_def Let_def)
  qed
qed

definition exFlags :: probeFlags where
  "exFlags = \<lparr>pfUDP = False, pfTCPLegs = 2, pfUDPLegs = 0, pfFetch = Some (Some exURL), pfBench = Some (Some exURL),
     pfBenchLen = 19, pfBenchMin = 1 / 10, pfBenchRuns = 1\<rparr>"

definition exArgs :: probeArgs where
  "exArgs = defaultArgs\<lparr>paServer := ''192.0.2.1:10088'', paUDPLegs := 0, paFetch := ''http://example/'', paBench := ''http://example/'',
     paBenchLen := 19, paBenchMin := 1 / 10\<rparr>"

lemma scan_default: "ScanHex32 ''12345678'' = Some 0x12345678"
proof -
  have "scanSpace ''12345678'' = Some ''12345678''" by (rule scanSpace_id) (simp_all add: graphic_def)
  then show ?thesis by (simp add: ScanHex32_def parseHex32_def hexVal_def hexNumber_def Let_def)
qed

lemma exArgs_command:
  "probeCommand ok dns (\<lambda>_. Some exURL) h exArgs = probeMain ok dns exFlags h exProbeConfig"
proof -
  have m: "ParseMAC ''02:00:5e:10:00:01'' = Some [0x02, 0x00, 0x5e, 0x10, 0x00, 0x01]"
    using ParseMAC_macText [of "[0x02, 0x00, 0x5e, 0x10, 0x00, 0x01]"] by (simp add: hexDigit_def)
  have a: "ParseAddr ''172.16.25.18'' = Some (IP4 0xac101912)" "ParseAddr ''172.16.25.19'' = Some (IP4 0xac101913)"
    by (simp_all add: ParseAddr_def isDigit_def digitsValue_def beU32_def)
  show ?thesis
    by (simp add: probeCommand_def exArgs_def defaultArgs_def argsRefused_def scan_default m a as4Of_def probeConfig_def
        flagsOf_def exFlags_def exProbeConfig_def)
qed

text \<open>Two legs; the page is fetched, fetched again in stripes, and downloaded at 152 bits a microsecond.\<close>

lemma probe_sound_witness:
  "\<exists>rep. probeCommand (\<lambda>_. True) exResolver (\<lambda>_. Some exURL) exServes exArgs = Some (Ret (0, rep))
     \<and> fetched exResolver exServes (Some exURL) \<and> striped exResolver exServes (Some exURL)
     \<and> downloaded exResolver exServes (Some exURL) 19 (1 / 10) 1"
proof -
  obtain cl where d: "Dial (\<lambda>_. True) (newClient exProbeConfig) = (None, cl)" "Legs ''tcp'' cl \<noteq> []" using ex_dial by fastforce
  obtain cl1 where h: "Handshake (\<lambda>_. True) (hdHello exServes) cl = (None, cl1)" "clLegs cl1 = clLegs cl"
    using ex_handshake [OF d(2)] by (auto simp: exServes_def)
  let ?rep = "pass ''handshake'' (pass ''connect'' noReport)"
  obtain cl2 where k: "keepaliveCheck (\<lambda>_. True) (hdDetect exServes) ?rep cl1 = (pass ''keepalive'' ?rep, cl2)"
    using ex_keepalive [of ?rep cl1] by (metis prod.collapse exServes_detect)
  have l2: "Legs ''tcp'' cl2 \<noteq> []" using keepaliveCheck_run [OF k] h(2) d(2) by (simp add: Legs_def)
  let ?rep2 = "skip ''rtt-sync'' (pass ''keepalive'' ?rep)"
  obtain cl3 where f: "probeFetch (\<lambda>_. True) exResolver (Some exURL) (hdFetch exServes) ?rep2 cl2 = Some (pass ''data-path'' ?rep2, cl3)"
      "clLegs cl3 = clLegs cl2" using ex_checks(1) [OF l2] by blast
  note l3 = Legs_nonempty_cong [OF f(2) l2]
  let ?rep3 = "pass ''data-path'' ?rep2"
  obtain cl4 where st: "probeStriping (\<lambda>_. True) exResolver (Some exURL) (hdStripe exServes) ?rep3 cl3 = Some (Ret (pass ''striping'' ?rep3, cl4))"
      "clLegs cl4 = clLegs cl3" using ex_checks(2) [OF l3] by blast
  let ?rep4 = "pass ''striping'' ?rep3"
  obtain cl5 where t: "probeThroughput (\<lambda>_. True) exResolver (Some exURL) 19 (1 / 10) 0 1000 1 1 (hdBench exServes 1) ?rep4 cl4
      = (pass ''throughput'' ?rep4, cl5)" using ex_checks(3) [OF Legs_nonempty_cong [OF st(2) l3]] by blast
  have "\<exists>rep. probeMain (\<lambda>_. True) exResolver exFlags exServes exProbeConfig = Some (Ret (0, rep))"
    using d h k f st t exServes_rest by (simp add: probeMain_def rttCheck_def fetchCheck_def stripeCheck_def benchCheck_def countersCheck_def
        exFlags_def Let_def)
  then obtain rep where run: "probeCommand (\<lambda>_. True) exResolver (\<lambda>_. Some exURL) exServes exArgs = Some (Ret (0, rep))"
    unfolding exArgs_command by blast
  have a: "paFetch exArgs \<noteq> ''''" "paBench exArgs \<noteq> ''''" "1 < paLegs exArgs" "paBenchLen exArgs = 19" "paBenchMin exArgs = 1 / 10"
      "1 \<in> {1..nat (paBenchRuns exArgs)}"
    by (simp_all add: exArgs_def defaultArgs_def)
  from probe_sound [OF run] a(6) have "fetched exResolver exServes (Some exURL) \<and> striped exResolver exServes (Some exURL)
     \<and> downloaded exResolver exServes (Some exURL) 19 (1 / 10) 1" unfolding a(4,5) using a(1-3) by blast
  with run show ?thesis by blast
qed

text \<open>
  A magic written the way it is printed, with \<open>0x\<close>, is read as 0, which stands for the default:
  whatever follows, the probe runs with the default magic and says nothing.
\<close>

lemma magic_0x: "ScanHex32 (''0x'' @ s) = Some 0"
proof -
  have "scanSpace (''0x'' @ s) = Some (''0x'' @ s)" by (rule scanSpace_id) (simp_all add: graphic_def)
  then show ?thesis by (simp add: ScanHex32_def parseHex32_def hexVal_def hexNumber_def Let_def)
qed

lemma newClient_zero_magic:
  "newClient (probeConfig a icg tun hw 0) = newClient (probeConfig a icg tun hw DefaultMagic)"
  by (simp add: newClient_def clientDefaults_def probeConfig_def Let_def)

lemma magic_prefix_ignored:
  "probeCommand ok dns parseURL h (a\<lparr>paMagic := ''0x'' @ s\<rparr>) = probeCommand ok dns parseURL h (a\<lparr>paMagic := ''12345678''\<rparr>)"
proof -
  have c: "probeConfig (a\<lparr>paMagic := m\<rparr>) = probeConfig a" "argsRefused (a\<lparr>paMagic := m\<rparr>) = argsRefused a"
    "flagsOf parseURL (a\<lparr>paMagic := m\<rparr>) = flagsOf parseURL a" for m
    by (simp_all add: probeConfig_def argsRefused_def flagsOf_def fun_eq_iff)
  have z: "ScanHex32 (CHR ''0'' # CHR ''x'' # s) = Some 0" using magic_0x [of s] by simp
  have d: "DefaultMagic = 0x12345678" by (simp add: DefaultMagic_def)
  have "probeNotV4 ok (probeConfig a icg tun hw 0) = probeNotV4 ok (probeConfig a icg tun hw DefaultMagic)"
    "probeMain ok dns fl h (probeConfig a icg tun hw 0) = probeMain ok dns fl h (probeConfig a icg tun hw DefaultMagic)" for icg tun hw fl
    unfolding probeNotV4_def probeMain_def newClient_zero_magic by (rule refl)+
  then show ?thesis
    unfolding probeCommand_def Let_def c d by (simp add: z scan_default split: option.split)
qed

text \<open>
  The striping check crashes the probe on a host without IPv4 addresses. The fetch before it
  reports the missing address, or a URL that does not parse, as a failed check; with two or
  more legs the striping check then uses the URL and the address without looking, and
  the run ends in a panic instead of its summary and exit status.
\<close>

lemma striping_panics:
  assumes "Dial ok (newClient cfg) = (None, cl)" and "Handshake ok (hdHello h) cl = (None, cl1)"
    and "pfFetch fl = Some u" and "1 < pfTCPLegs fl"
    and "u = None \<or> (\<exists>v ips. u = Some v \<and> dns (urHostname v) = Some ips \<and> ips \<noteq> [] \<and> pickV4 ips = None)"
  shows "probeMain ok dns fl h cfg = Some Panic"
proof -
  obtain rep1 cl2 where k: "keepaliveCheck ok (hdDetect h) (pass ''handshake'' (pass ''connect'' noReport)) cl1 = (rep1, cl2)"
    by (metis surj_pair)
  obtain rep2 cl3 where r: "rttCheck ok fl h rep1 cl2 = (rep2, cl3)" by (metis surj_pair)
  have l: "Legs ''tcp'' cl3 = Legs ''tcp'' cl" "Legs ''tcp'' cl \<noteq> []"
    using keepaliveCheck_run [OF k] rttCheck_run [OF r] Handshake_run [OF assms(2)] Legs_cong [of cl3 cl "''tcp''"] by simp_all
  have "fetchCheck ok dns fl h rep2 cl3 = Some (failed ''data-path'' rep2, cl3)"
    using assms(3,5) by (auto simp: fetchCheck_def probeFetch_def Let_def)
  moreover have "stripeCheck ok dns fl h (failed ''data-path'' rep2) cl3 = Some Panic"
    using assms(3-5) l by (auto simp: stripeCheck_def probeStriping_def Let_def neq_Nil_conv)
  ultimately show ?thesis using assms(1,2) k r by (simp add: probeMain_def)
qed

section \<open>The striped request is reassembled\<close>

lemma concat_chunksOf: "concat (chunksOf req) = req"
proof (induction req rule: chunksOf.induct)
  case (1 req)
  then show ?case by (subst chunksOf.simps) simp
qed

lemma chunksOf_sizes: "d \<in> set (chunksOf req) \<Longrightarrow> d \<noteq> [] \<and> length d \<le> 7"
proof (induction req rule: chunksOf.induct)
  case (1 req)
  then show ?case by (subst (asm) (2) chunksOf.simps) (auto simp: chunk_def split: if_splits)
qed

lemma length_chunksOf: "length (chunksOf req) \<le> length req"
proof (induction req rule: chunksOf.induct)
  case (1 req)
  show ?case
  proof (cases req)
    case (Cons x xs)
    then have "length (drop chunk req) < length req" by (simp add: chunk_def)
    then show ?thesis using 1 Cons by (subst chunksOf.simps) (simp add: le_less_trans Suc_leI)
  qed (simp add: chunksOf.simps)
qed

text \<open>What goes out backwards: number, data and frame of chunk \<open>i\<close>, whatever leg it takes.\<close>

definition chunkBytes :: "Client \<Rightarrow> Flow \<Rightarrow> u32 \<Rightarrow> byte list \<Rightarrow> byte list" where
  "chunkBytes cl flow q d = clientBytes cl (upFrame TypeTCPUp 0 (tcpAppendTo (upBody q flow d) []))"

lemma writeBackwards_sent:
  assumes "Legs ''tcp'' cl \<noteq> []"
  shows "\<exists>cl' sent. writeBackwards (\<lambda>_. True) flow nLegs seqs chunks n cl = (None, cl') \<and> clSent cl' = clSent cl @ sent
    \<and> map snd sent = map (\<lambda>i. chunkBytes cl flow (seqs ! i) (chunks ! i)) (rev [0..<n])"
  using assms
proof (induction n arbitrary: cl)
  case (Suc n)
  obtain l where "WriteAt (\<lambda>_. True) flow (seqs ! n) (chunks ! n) (int (n mod nLegs)) cl =
      (None, cl\<lparr>clAsked := clAsked cl + 1, clSent := clSent cl @ [(l, chunkBytes cl flow (seqs ! n) (chunks ! n))]\<rparr>)"
    using flowSend_ok [OF Suc.prems, of flow "seqs ! n" TCPPayload "chunks ! n" "int (n mod nLegs)"]
    unfolding WriteAt_def chunkBytes_def upBody_def by blast
  then obtain cl1 where w: "WriteAt (\<lambda>_. True) flow (seqs ! n) (chunks ! n) (int (n mod nLegs)) cl = (None, cl1)"
    and c: "Legs ''tcp'' cl1 = Legs ''tcp'' cl" "clCfg cl1 = clCfg cl"
      "clSent cl1 = clSent cl @ [(l, chunkBytes cl flow (seqs ! n) (chunks ! n))]"
    by (simp add: Legs_def)
  have b: "chunkBytes cl1 = chunkBytes cl" using clientBytes_cong [OF c(2)] by (simp add: fun_eq_iff chunkBytes_def)
  from Suc.IH [of cl1] Suc.prems c(1) obtain cl' sent where
    "writeBackwards (\<lambda>_. True) flow nLegs seqs chunks n cl1 = (None, cl')" "clSent cl' = clSent cl1 @ sent"
    "map snd sent = map (\<lambda>i. chunkBytes cl flow (seqs ! i) (chunks ! i)) (rev [0..<n])"
    unfolding b by auto
  then show ?case using w c(3)
    by (intro exI [of _ cl'] exI [of _ "(l, chunkBytes cl flow (seqs ! n) (chunks ! n)) # sent"]) simp
qed simp

lemma stripe_sent:
  assumes "Legs ''tcp'' cl \<noteq> []"
  shows "\<exists>cl' sent. stripe (\<lambda>_. True) flow req cl = (None, cl') \<and> clSent cl' = clSent cl @ sent
    \<and> map snd sent = map (\<lambda>i. chunkBytes cl flow (clTcpSeq cl + of_nat i) (chunksOf req ! i)) (rev [0..<length (chunksOf req)])"
proof -
  let ?n = "length (chunksOf req)"
  let ?cl = "cl\<lparr>clTcpSeq := clTcpSeq cl + of_nat ?n\<rparr>"
  let ?seqs = "map (\<lambda>i. clTcpSeq cl + of_nat i) [0..<?n]"
  have l: "Legs ''tcp'' ?cl \<noteq> []" and b: "chunkBytes ?cl = chunkBytes cl"
    using assms by (simp_all add: Legs_def fun_eq_iff chunkBytes_def clientBytes_def icgAddr_def)
  obtain cl' sent where w: "writeBackwards (\<lambda>_. True) flow (length (Legs ''tcp'' ?cl)) ?seqs (chunksOf req) ?n ?cl = (None, cl')"
      "clSent cl' = clSent cl @ sent" "map snd sent = map (\<lambda>i. chunkBytes cl flow (?seqs ! i) (chunksOf req ! i)) (rev [0..<?n])"
    using writeBackwards_sent [OF l, of flow "length (Legs ''tcp'' ?cl)" ?seqs "chunksOf req" ?n] unfolding b by auto
  have "map (\<lambda>i. chunkBytes cl flow (?seqs ! i) (chunksOf req ! i)) (rev [0..<?n])
      = map (\<lambda>i. chunkBytes cl flow (clTcpSeq cl + of_nat i) (chunksOf req ! i)) (rev [0..<?n])"
    by (rule map_cong) simp_all
  moreover have "stripe (\<lambda>_. True) flow req cl = (None, cl')" using w(1) by (simp add: stripe_def Let_def allocSeqs_run)
  ultimately show ?thesis using w(2,3) by simp
qed

lemma prefix_len_rev: "prefix_len (rev [0..<n]) = n"
proof -
  have "takeWhile (\<lambda>i. i \<in> set (rev [0..<n])) [0..<n] = [0..<n]" by (rule takeWhile_eq_all_conv [THEN iffD2]) simp
  then have "length (takeWhile (\<lambda>i. i \<in> set (rev [0..<n])) [0..<n]) = n" by (simp only: length_upt diff_zero)
  then show ?thesis unfolding prefix_len_def by (simp only: length_rev length_upt diff_zero)
qed

lemma prefix_len_le: "prefix_len ks \<le> length ks"
proof -
  have "prefix_len ks \<le> length [0..<length ks]" unfolding prefix_len_def by (rule length_takeWhile_le)
  then show ?thesis by simp
qed

lemma displaced_rev: "n \<le> cap + 1 \<Longrightarrow> n \<le> 2 ^ 31 \<Longrightarrow> displaced cap (rev [0..<n])"
proof -
  assume n: "n \<le> cap + 1" "n \<le> 2 ^ 31"
  have "rev [0..<n] ! i \<le> cap" "prefix_len (take i (rev [0..<n])) \<le> n" if "i < n" for i
    using that n(1) prefix_len_le [of "take i (rev [0..<n])"] by (auto simp: rev_nth)
  then show ?thesis using n(2) unfolding displaced_def list_all_iff by fastforce
qed

text \<open>Frame \<open>j\<close> of those sent arrives at time and on leg \<open>at_ j\<close>.\<close>

lemma striped_arrival:
  assumes "map snd sent = map (\<lambda>i. chunkBytes cl flow (q + of_nat i) (chunksOf req ! i)) (rev [0..<n])" and "n = length (chunksOf req)"
    and "effMagic (ccMagic (clCfg cl)) = effMagic m" and "j < n"
  shows "sessionStep c e (arrival m sent (j, now, l)) s = sessionStep c e (upSegment q flow (\<lambda>i. chunksOf req ! i) (n - 1 - j, now, l)) s"
proof -
  let ?k = "n - 1 - j"
  have len: "length sent = n" using arg_cong [OF assms(1), of length] by simp
  have k: "?k < length (chunksOf req)" using assms(2,4) by simp
  have "snd (sent ! j) = map snd sent ! j" using len assms(4) by simp
  also have "\<dots> = chunkBytes cl flow (q + of_nat ?k) (chunksOf req ! ?k)"
    unfolding assms(1) using assms(4) by (simp add: rev_nth)
  finally have s: "snd (sent ! j) = chunkBytes cl flow (q + of_nat ?k) (chunksOf req ! ?k)" .
  have "length (chunksOf req ! ?k) \<le> 7" using chunksOf_sizes [OF nth_mem [OF k]] by simp
  then have "length (frBody (upFrame TypeTCPUp 0 (tcpAppendTo (upBody (q + of_nat ?k) flow (chunksOf req ! ?k)) []))) \<le> 8182"
    by (simp add: upFrame_def length_tcpAppendTo upBody_def)
  from receive_clientBytes [OF assms(3) this]
  have r: "receive m (snd (sent ! j)) = Some ((upFrame TypeTCPUp 0 (tcpAppendTo (upBody (q + of_nat ?k) flow (chunksOf req ! ?k)) []))
      \<lparr>frMagic := effMagic m, frIcgID := tunIPWord (icgAddr cl)\<rparr>)"
    unfolding s chunkBytes_def .
  let ?sent = "replicate ?k (sent ! j) @ [sent ! j]"
  have e: "?sent ! ?k = sent ! j" by (simp add: nth_append)
  have a: "arrival m sent (j, now, l) = arrival m ?sent (?k, now, l)" unfolding arrival_def prod.case e by (rule refl)
  show ?thesis
    unfolding a by (rule arrival_segment [where sent = ?sent and k = ?k and data = "\<lambda>i. chunksOf req ! i", unfolded e, OF r])
qed

text \<open>
  C31: the striping check is a test of the reassembler that a right one passes. The request is
  cut into pieces of at most seven bytes that are sent last first over all legs; if they
  arrive in the order sent, at any times and on any legs of the server, and there are
  no more of them than the window holds, the session queues the pieces to the
  upstream socket in the order of the request, which they add up to.
\<close>

theorem striping_reassembles:
  assumes "Legs ''tcp'' cl \<noteq> []" and "effMagic (ccMagic (clCfg cl)) = effMagic (cfMagic c)"
    and "clTcpSeq cl = rNext (seUpTCP s)" and "rStarted (seUpTCP s)" and "rPend (seUpTCP s) = []"
    and "0 \<le> rMaxPend (seUpTCP s)" and "rMaxPend (seUpTCP s) < 2 ^ 31" and "int (length (chunksOf req)) \<le> rMaxPend (seUpTCP s)"
    and "map_of (seFlows s) flow = Some fid" and "map fst items = [0..<length (chunksOf req)]"
  shows "\<exists>cl' sent s'. stripe (\<lambda>_. True) flow req cl = (None, cl') \<and> clSent cl' = clSent cl @ sent
    \<and> run c e (map (arrival (cfMagic c) sent) items) s = Ret s'
    \<and> seOut s' = seOut s @ map (FlowEnqueue fid) (chunksOf req)
    \<and> concat (chunksOf req) = req \<and> list_all (\<lambda>d. length d \<le> 7) (chunksOf req)"
proof -
  let ?n = "length (chunksOf req)" and ?q = "rNext (seUpTCP s)" and ?data = "\<lambda>i. chunksOf req ! i"
  let ?items = "map (\<lambda>(j, now, l). (?n - 1 - j, now, l)) items"
  obtain cl' sent where w: "stripe (\<lambda>_. True) flow req cl = (None, cl')" "clSent cl' = clSent cl @ sent"
      "map snd sent = map (\<lambda>i. chunkBytes cl flow (?q + of_nat i) (chunksOf req ! i)) (rev [0..<?n])"
    using stripe_sent [OF assms(1), of flow req] assms(3) by auto
  have "sessionStep c e (arrival (cfMagic c) sent x) s1 = sessionStep c e (upSegment ?q flow ?data (case x of (j, now, l) \<Rightarrow> (?n - 1 - j, now, l))) s1"
    if "x \<in> set items" for x s1
  proof -
    obtain j now l where x: "x = (j, now, l)" by (cases x)
    have "j \<in> set (map fst items)" using that x by force
    then have "j < ?n" using assms(10) by simp
    then show ?thesis using striped_arrival [OF w(3) refl assms(2)] x by simp
  qed
  then have run: "run c e (map (arrival (cfMagic c) sent) items) s = run c e (map (upSegment ?q flow ?data) ?items) s"
    unfolding run_def map_map comp_def by (rule fold_outcome_cong)
  have "map fst ?items = map (\<lambda>j. ?n - 1 - j) (map fst items)" by (simp add: case_prod_unfold comp_def)
  also have "\<dots> = rev [0..<?n]" unfolding assms(10) by (rule nth_equalityI) (simp_all add: rev_nth)
  finally have f: "map fst ?items = rev [0..<?n]" .
  have "displaced (nat (rMaxPend (seUpTCP s))) (map fst ?items)"
    unfolding f
  proof (rule displaced_rev)
    have "int ?n < int (2 ^ 31)" using assms(7,8) by simp
    then show "?n \<le> 2 ^ 31" by (simp only: of_nat_less_iff)
    show "?n \<le> nat (rMaxPend (seUpTCP s)) + 1" using assms(8) by linarith
  qed
  from uplink_stream_intact [OF assms(4-7) this assms(9), of c e ?data] obtain s' where
    s: "run c e (map (upSegment ?q flow ?data) ?items) s = Ret s'"
      "seOut s' = seOut s @ map (FlowEnqueue fid) (filter (\<lambda>d. d \<noteq> []) (map ?data [0..<?n]))"
    unfolding f prefix_len_rev by blast
  have o: "filter (\<lambda>d. d \<noteq> []) (map ?data [0..<?n]) = chunksOf req"
    unfolding map_nth by (rule filter_True) (simp add: chunksOf_sizes)
  have z: "list_all (\<lambda>d. length d \<le> 7) (chunksOf req)" by (simp add: list_all_iff chunksOf_sizes)
  show ?thesis
    by (rule exI [of _ cl'], rule exI [of _ sent], rule exI [of _ s']) (intro conjI w(1,2) s(1) [folded run] s(2) [unfolded o] concat_chunksOf z)
qed

lemma striping_reassembles_witness:
  "\<exists>cl' sent s'. stripe (\<lambda>_. True) exFlow (strBytes ''GET / HTTP/1.1'') exClient = (None, cl') \<and> clSent cl' = sent
     \<and> run exConfig exEnv (map (arrival 0x12345678 sent) [(0, 9, 0), (1, 10, 0)])
         (exSession\<lparr>seUpTCP := (seUpTCP exSession)\<lparr>rStarted := True\<rparr>, seFlows := [(exFlow, 4)]\<rparr>) = Ret s'
     \<and> seOut s' = [FlowEnqueue 4 (strBytes ''GET / H''), FlowEnqueue 4 (strBytes ''TTP/1.1'')]"
proof -
  let ?s = "exSession\<lparr>seUpTCP := (seUpTCP exSession)\<lparr>rStarted := True\<rparr>, seFlows := [(exFlow, 4)]\<rparr>"
  have c: "chunksOf (strBytes ''GET / HTTP/1.1'') = [strBytes ''GET / H'', strBytes ''TTP/1.1'']"
    by (simp add: chunksOf.simps chunk_def strBytes_def)
  have m: "rMaxPend (seUpTCP exSession) = 4096" "rPend (seUpTCP exSession) = []" "rNext (seUpTCP exSession) = 0" "seOut exSession = []"
    by (simp_all add: exSession_def newSession_def NewReorder_def exConfig_def)
  have g: "cfMagic exConfig = 0x12345678" by (simp add: exConfig_def)
  show ?thesis
    using striping_reassembles [of exClient exConfig ?s "strBytes ''GET / HTTP/1.1''" exFlow 4 "[(0, 9, 0), (1, 10, 0)]" exEnv, unfolded c g]
    by (auto simp: m exClient_facts upt_rec)
qed

end
