(* ===== verification/Spec2Isabelle.thy ===== *)
theory Spec2Isabelle
  imports Frame Stream_Reader Body Reorder_Spec Stash IPv4 Leg Session_Ends Server_Runs Server_Life Tcp_Flow Client_Hello Daemon Blobcrypt Probe_Runs
begin

text \<open>
  A verification library for the ICG bonding concentrator: a server that a ZTE device reaches
  over several uplinks at once (TCP and UDP \<^emph>\<open>legs\<close>), that puts the frames striped over them
  back in order and proxies the traffic inside, and that answers the same way.

  \<^bold>\<open>The program and the theories.\<close> Every definition carries the name of the Go function,
  method or type it translates, or says in its text what it stands for.

  \<^item> \<open>icg/\<close>: the wire format. \<open>Opcode\<close> has the constants and names of \<open>opcode.go\<close>; \<open>Frame\<close> has
    \<open>Frame\<close>, \<open>Encode\<close> and \<open>Decode\<close> of \<open>frame.go\<close>; \<open>Stream_Reader\<close> has its \<open>StreamReader\<close>, which
    finds frames in a byte stream; \<open>Body\<close> has the payloads of \<open>body.go\<close>.
  \<^item> \<open>icg/concentrator/\<close>: one session per device. \<open>Reorder\<close> is \<open>reorder.go\<close>, \<open>Stash\<close> is
    \<open>stash.go\<close>, \<open>IPv4\<close> is \<open>ipv4.go\<close>; \<open>Leg\<close>, \<open>Session\<close> and \<open>Session_Loop\<close> are \<open>session.go\<close> with the
    session's half of \<open>tcpflow.go\<close> and \<open>udpflow.go\<close>; \<open>Tcp_Flow\<close> is one connection's goroutines in
    \<open>tcpflow.go\<close>; \<open>Server\<close> is \<open>server.go\<close> without its \<open>Run\<close>, which is \<open>Server_Life\<close>; \<open>Notices\<close> is \<open>notices.go\<close>, \<open>Snapshot\<close> is
    \<open>snapshot.go\<close> and \<open>Http\<close> is \<open>http.go\<close>.
  \<^item> \<open>cmd/icgd\<close>: \<open>Daemon\<close> reads the flags, builds the guard on outgoing connections and the
    device list, and starts the server. \<open>Parsing\<close> holds the functions of Go's standard library
    that these texts go through, \<open>Texts\<close> those that print.
  \<^item> \<open>icg/client\<close> and \<open>cmd/icg-probe\<close>: the device's half of the protocol (\<open>Client\<close>) and the tool
    that checks a concentrator with it (\<open>Probe\<close>).
  \<^item> \<open>emu/blobcrypt\<close>: \<open>Blobcrypt\<close>, the container of an encrypted binary.

  \<open>Prelude\<close> and \<open>Codec\<close> are shared: machine integers and their byte orders, Go's panics and
  slice expressions as values, maps as association lists, and the contracts of codecs and of
  step functions as locales.

  \<^bold>\<open>State and steps.\<close> A Go struct is a record with the struct's fields. A method is a function
  from the state before to the state after. A session is one goroutine, so it is one
  function: \<open>sessionStep\<close> takes one event of its select loop (a frame, data from an upstream
  socket, a tick, the end) and \<open>run\<close> folds it over a list of events. The session's pointers
  to legs are numbers into \<open>seHeap\<close>, because the server's goroutines hold the same legs; what it
  does to the outside world is appended to \<open>seOut\<close>. The goroutines of the server are
  interleaved by the inductive relation \<open>server_step\<close>, one step for an accepted connection, a
  frame on a connection, its end, a datagram, a session's turn, the reaper; those of one
  proxied connection by \<open>flow_step\<close>. The start and the end of the server's goroutines are the
  events of \<open>lifeStep\<close>, where a goroutine is a number. The client is one record, as its methods
  run on the caller's goroutine.

  \<^bold>\<open>The environment.\<close> What Go asks of the world is a function of the number of the question:
  \<open>enNow\<close>, \<open>enWriteOK\<close> and \<open>enDialOK\<close> for a session, with \<open>seCalls\<close> counting, and \<open>ok\<close> for the
  client, with \<open>clAsked\<close> counting. Sockets that read, files, the resolver, the random source
  and the cipher of \<open>Blobcrypt\<close> are arguments; the theorems hold for all of them, or
  under a stated contract (\<open>gcm_contract\<close>, and a connection that obeys \<open>io.Reader\<close>). Go's
  \<open>range\<close> over a map visits it in no fixed order; the models visit the association list in its
  order, and the properties that could depend on it are of sets or of unique extremes. Fields
  that are not in the code: \<open>seHeap\<close>, \<open>seFresh\<close>, \<open>seCalls\<close>, \<open>seOut\<close> of a session, \<open>svOwner\<close> of
  the server (which session a leg was bound to first), \<open>clAsked\<close> and \<open>clSent\<close> of the client, and
  the history in \<open>Tcp_Flow\<close>.

  \<^bold>\<open>Numbers.\<close> \<open>uint8\<close> to \<open>uint64\<close> are words and wrap; sequence numbers are compared as Go does,
  by the sign of the 32-bit difference. Go's \<open>int\<close> is \<open>int\<close> or \<open>nat\<close>: lengths and counters of
  live objects, which stay far below the machine's 64 bits. Instants and durations are
  nanoseconds as \<open>int\<close>. \<open>float64\<close> occurs in displayed values only and is an exact quotient.

  \<^bold>\<open>Errors.\<close> An error result is the left of a sum, or \<open>None\<close> where only its presence matters. A
  panic is the value \<open>Panic\<close> of \<open>outcome\<close>: slice expressions out of range in \<open>parseIPv4\<close>, a
  negative number of UDP legs, and the probe's use of a missing URL or address.

  \<^bold>\<open>Termination.\<close> No definition uses fuel. Loops are functions with a measure (\<open>drain\<close> by
  what is held, \<open>datagramFrames\<close> by the bytes left, \<open>evictLoop\<close> and \<open>ackLoop\<close> by the order,
  \<open>sendChunks\<close> by the data, \<open>trimWith\<close> by the text), except \<open>Next\<close>, \<open>readLoop\<close> and \<open>joinFrom\<close>, which
  need not end and are partial functions: a reader may return nothing for ever, and all
  \<open>2 ^ 32\<close> numbers may be held. That they end in every other case is proved.

  \<^bold>\<open>What the lemmas show.\<close>

  \<^item> The wire: \<open>Frame\<close> proves that \<open>Decode\<close> accepts exactly what \<open>Encode\<close> writes and
    states it as \<open>prefix_codec\<close>, from which every stream property follows; \<open>Stream_Reader\<close>
    proves the incremental reader equal to a reference deframer on every way to cut a stream
    into reads. \<open>Body\<close> and \<open>IPv4\<close> prove the round trips and checksums of the payloads.
  \<^item> Reassembly: \<open>Reorder_Window\<close> is the invariant of the 32-bit window and its bounds, that no
    call loses a held packet, and that enough late calls of \<open>Expire\<close> return every one;
    \<open>Reorder_Spec\<close> defines a machine over unbounded positions, proves the refinement, and from it
    completeness up to the window and, over any stretch of the stream within a quarter of the
    number space around \<open>next\<close>, that packets come out in order of their numbers and once.
  \<^item> The session: \<open>Session_Invariant\<close> shows one lemma per operation, that every event keeps the
    session well formed and every byte written a frame of its own identity; \<open>Session_Down\<close>,
    \<open>Session_Up\<close> and \<open>Session_Streams\<close> prove what the device and the upstream sockets get,
    \<open>Session_Ends\<close> what becomes of flows that have ended, from the datagram that dials a UDP flow
    over all that its reader posts.
  \<^item> The server: \<open>Server_Runs\<close> lifts this to all interleavings. \<open>Server_Life\<close> proves that the
    listeners are bound all or none, and what a shutdown waits for. \<open>Tcp_Flow\<close> proves that no
    interleaving leaks a socket. \<open>Notices\<close> and \<open>Snapshot\<close> prove the log and the views against
    plain lists. \<open>Http\<close> proves that a caller without the key sees nothing of the state.
  \<^item> End to end: \<open>Client_Runs\<close> and \<open>Client_Hello\<close> join client, codec, network and session for
    an upload, a download, the handshake and a probe of the round trip; \<open>Probe_Runs\<close> proves what
    a clean run of the probe means for each of its checks, and that its striping check is one a right reassembler
    passes.
  \<^item> The command lines: \<open>Daemon\<close> proves that the address lists and the device list, given as text,
    do what they say; \<open>Blobcrypt\<close> proves that a container opens to exactly what was sealed and
    that the hand-written base64 is base64.
  \<^item> Where the code does not do what its comments say, the theorem states what it does: frames
    of a device that was not admitted, the end of an old socket, data for a flow that has ended,
    a UDP flow whose reader has, answers too large for a frame, a UDP peer that outlives its
    session, a panic on a short packet, UDP past the guard, a key read from the data, a probe
    that panics or takes the wrong magic, a shutdown that waits for the devices.

  \<^bold>\<open>Not modelled.\<close> Log lines and the texts of most errors. The constant page of \<open>ui.go\<close>, and the
  JSON encoding of the API, which is the library's. How the package \<open>flag\<close> reads a command
  line, and \<open>url.Parse\<close>. The redirects of \<open>http.ServeMux\<close> for unclean paths. The Go memory
  model: a step of a goroutine is atomic where the code holds a lock or owns the data.
\<close>

end
